(* ===== verification/Prelude.thy ===== *)
theory Prelude
  imports "HOL-Library.Word"
begin

text \<open>
  Shared vocabulary of the development: the machine integers and byte strings of the Go
  sources, the result type of fallible functions, the big-endian accessors of
  \<open>encoding/binary\<close>, the lemma collections the component theories fill, and the two
  contracts every stateful component is checked against (an invariant kept by a run, and an
  encoder with its decoder).
\<close>

unbundle bit_operations_syntax

section \<open>Types\<close>

type_synonym byte = "8 word"
type_synonym u16 = "16 word"
type_synonym u32 = "32 word"
type_synonym u64 = "64 word"
type_synonym bytes = "byte list"

text \<open>Instants and durations are nanoseconds, as \<open>time.Duration\<close> counts them.\<close>

type_synonym nanos = int

abbreviation microsecond :: nanos where "microsecond \<equiv> 1000"
abbreviation millisecond :: nanos where "millisecond \<equiv> 1000 * microsecond"
abbreviation second :: nanos where "second \<equiv> 1000 * millisecond"
abbreviation hour :: nanos where "hour \<equiv> 3600 * second"

text \<open>A fallible Go function returns \<open>Inl\<close> its error or \<open>Inr\<close> its values.\<close>

definition bindR :: "'e + 'a \<Rightarrow> ('a \<Rightarrow> 'e + 'b) \<Rightarrow> 'e + 'b" where
  "bindR r f = (case r of Inl e \<Rightarrow> Inl e | Inr a \<Rightarrow> f a)"

lemma bindR_simps [simp]:
  "bindR (Inl e) f = Inl e"
  "bindR (Inr a) f = f a"
  by (simp_all add: bindR_def)

lemma bindR_eq_Inr: "bindR r f = Inr b \<longleftrightarrow> (\<exists>a. r = Inr a \<and> f a = Inr b)"
  by (cases r) auto

section \<open>Lemma collections\<close>

named_theorems wire_simps \<open>lengths and slices of encoded data\<close>
named_theorems op_defs \<open>definitions of a component's operations\<close>

section \<open>Lists\<close>

lemma take_append_exact: "length xs = n \<Longrightarrow> take n (xs @ ys) = xs"
  by simp

lemma drop_append_exact: "length xs = n \<Longrightarrow> drop n (xs @ ys) = ys"
  by simp

lemma nth_append_exact: "length xs = n \<Longrightarrow> (xs @ y # ys) ! n = y"
  by (auto simp: nth_append)

lemma list_all2_map_nth: "list_all2 P xs ys \<Longrightarrow> n < length xs \<Longrightarrow> P (xs ! n) (ys ! n)"
  by (rule list_all2_nthD)

text \<open>The Go slice expression \<open>b[i:j]\<close> (the sources check the bounds before).\<close>

definition slice :: "nat \<Rightarrow> nat \<Rightarrow> 'a list \<Rightarrow> 'a list" where
  "slice i j b = take (j - i) (drop i b)"

lemma length_slice: "j \<le> length b \<Longrightarrow> length (slice i j b) = j - i"
  by (simp add: slice_def)

section \<open>Strings\<close>

text \<open>A Go string is a sequence of bytes; \<open>char\<close> has 256 values, so the conversions are inverse.\<close>

definition bytes_of :: "string \<Rightarrow> bytes" where
  "bytes_of s = map of_char s"

definition string_of :: "bytes \<Rightarrow> string" where
  "string_of b = map (\<lambda>x. char_of (unat x)) b"

lemma unat_of_char [simp]: "unat (of_char c :: byte) = of_char c"
proof -
  have "unat (of_nat (of_char c) :: byte) = of_char c"
    by (simp add: unat_of_nat take_bit_eq_mod del: of_nat_of_char)
  then show ?thesis by (simp only: of_nat_of_char)
qed

lemma of_char_unat [simp]: "of_char (char_of (unat x)) = (x :: byte)"
proof -
  have "unat x < 256" using unsigned_less [of x, where 'a = nat] by simp
  then have "(of_char (char_of (unat x)) :: nat) = unat x" by simp
  then have "(of_nat (of_char (char_of (unat x))) :: byte) = x" by (simp del: of_nat_of_char)
  then show ?thesis by (simp only: of_nat_of_char)
qed

lemma string_of_bytes_of [simp]: "string_of (bytes_of s) = s"
  by (induction s) (simp_all add: string_of_def bytes_of_def)

lemma bytes_of_string_of [simp]: "bytes_of (string_of b) = b"
  by (induction b) (simp_all add: string_of_def bytes_of_def)

lemma length_bytes_of [simp]: "length (bytes_of s) = length s"
  by (simp add: bytes_of_def)

section \<open>Big-endian integers (encoding/binary)\<close>

definition put16 :: "u16 \<Rightarrow> bytes" where
  "put16 v = [ucast (drop_bit 8 v), ucast v]"

definition put32 :: "u32 \<Rightarrow> bytes" where
  "put32 v = [ucast (drop_bit 24 v), ucast (drop_bit 16 v), ucast (drop_bit 8 v), ucast v]"

definition put64 :: "u64 \<Rightarrow> bytes" where
  "put64 v = [ucast (drop_bit 56 v), ucast (drop_bit 48 v), ucast (drop_bit 40 v),
     ucast (drop_bit 32 v), ucast (drop_bit 24 v), ucast (drop_bit 16 v),
     ucast (drop_bit 8 v), ucast v]"

text \<open>The readers look at the first 2, 4 or 8 bytes; the sources guard the length before.\<close>

definition get16 :: "bytes \<Rightarrow> u16" where
  "get16 b = push_bit 8 (ucast (b ! 0)) OR ucast (b ! 1)"

definition get32 :: "bytes \<Rightarrow> u32" where
  "get32 b = push_bit 24 (ucast (b ! 0)) OR push_bit 16 (ucast (b ! 1)) OR
     push_bit 8 (ucast (b ! 2)) OR ucast (b ! 3)"

definition get64 :: "bytes \<Rightarrow> u64" where
  "get64 b = push_bit 56 (ucast (b ! 0)) OR push_bit 48 (ucast (b ! 1)) OR
     push_bit 40 (ucast (b ! 2)) OR push_bit 32 (ucast (b ! 3)) OR
     push_bit 24 (ucast (b ! 4)) OR push_bit 16 (ucast (b ! 5)) OR
     push_bit 8 (ucast (b ! 6)) OR ucast (b ! 7)"

lemma length_put [simp, wire_simps]:
  "length (put16 v) = 2" "length (put32 w) = 4" "length (put64 x) = 8"
  by (simp_all add: put16_def put32_def put64_def)

text \<open>Reading back byte by byte: each byte extends the low bits recovered so far by eight.\<close>

lemma or_next_byte:
  fixes v :: "'a::len word"
  shows "push_bit k (ucast (ucast (drop_bit k v) :: byte)) OR take_bit k v = take_bit (k + 8) v"
  by (rule bit_word_eqI) (auto simp: bit_simps)

lemma low_byte:
  fixes v :: "'a::len word"
  shows "LENGTH('a) \<ge> 8 \<Longrightarrow> ucast (ucast v :: byte) = take_bit 8 v"
  by (rule bit_word_eqI) (auto simp: bit_simps)

lemma take_all_bits: "take_bit LENGTH('a) (v :: 'a::len word) = v"
  by (rule bit_word_eqI) (auto simp: bit_simps)

lemmas take_all_bits_width =
  take_all_bits [where 'a = 16, simplified] take_all_bits [where 'a = 32, simplified]
  take_all_bits [where 'a = 64, simplified]

lemma get16_put16 [simp]: "get16 (put16 v @ r) = v"
  using or_next_byte [of 8 v] by (simp add: get16_def put16_def low_byte take_all_bits_width)

lemma get32_put32 [simp]: "get32 (put32 v @ r) = v"
  using or_next_byte [of 8 v] or_next_byte [of 16 v] or_next_byte [of 24 v]
  by (simp add: get32_def put32_def low_byte take_all_bits_width)

lemma get64_put64 [simp]: "get64 (put64 v @ r) = v"
  using or_next_byte [of 8 v] or_next_byte [of 16 v] or_next_byte [of 24 v]
    or_next_byte [of 32 v] or_next_byte [of 40 v] or_next_byte [of 48 v] or_next_byte [of 56 v]
  by (simp add: get64_def put64_def low_byte take_all_bits_width)

lemma get_put_exact [simp]:
  "get16 (put16 v) = v" "get32 (put32 w) = w" "get64 (put64 x) = x"
  using get16_put16 [of v "[]"] get32_put32 [of w "[]"] get64_put64 [of x "[]"] by simp_all

text \<open>And writing back what was read.\<close>

lemma put16_get16: "length b = 2 \<Longrightarrow> put16 (get16 b) = b"
proof -
  assume "length b = 2"
  then obtain x y where b: "b = [x, y]" by (auto simp: length_Suc_conv numeral_2_eq_2)
  have "ucast (drop_bit 8 (get16 b)) = x" "ucast (get16 b) = y"
    by (rule bit_word_eqI, auto simp: b get16_def bit_simps dest: bit_imp_le_length)+
  then show ?thesis by (simp add: put16_def b)
qed

lemma put32_get32: "length b = 4 \<Longrightarrow> put32 (get32 b) = b"
proof -
  assume "length b = 4"
  then obtain x y z w where b: "b = [x, y, z, w]" by (auto simp: length_Suc_conv numeral_eq_Suc)
  have "ucast (drop_bit 24 (get32 b)) = x" "ucast (drop_bit 16 (get32 b)) = y"
    "ucast (drop_bit 8 (get32 b)) = z" "ucast (get32 b) = w"
    by (rule bit_word_eqI, auto simp: b get32_def bit_simps dest: bit_imp_le_length)+
  then show ?thesis by (simp add: put32_def b)
qed

lemma put16_inject [simp]: "put16 v = put16 w \<longleftrightarrow> v = w"
  using get_put_exact(1) by metis

lemma put32_inject [simp]: "put32 v = put32 w \<longleftrightarrow> v = w"
  using get_put_exact(2) by metis

lemma put64_inject [simp]: "put64 v = put64 w \<longleftrightarrow> v = w"
  using get_put_exact(3) by metis

lemma unat_of_nat16: "n < 65536 \<Longrightarrow> unat (word_of_nat n :: u16) = n"
  by (simp add: unat_of_nat take_bit_eq_mod)

lemma unat_of_nat16_mod: "unat (word_of_nat n :: u16) = n mod 65536"
  by (simp add: unat_of_nat take_bit_eq_mod)

text \<open>An interval of words that does not come round.\<close>

lemma word_interval_distinct:
  fixes c :: "'a::len word"
  assumes "n \<le> 2 ^ LENGTH('a)"
  shows "distinct (map (\<lambda>i. c + word_of_nat i) [0..<n])"
proof -
  have "i = j" if "i < n" "j < n" "c + word_of_nat i = c + word_of_nat j" for i j
  proof -
    have "word_of_nat i = (word_of_nat j :: 'a word)" using that(3) by (rule add_left_imp_eq)
    then have "take_bit LENGTH('a) i = take_bit LENGTH('a) j" by (simp add: word_of_nat_eq_iff)
    then show ?thesis using that(1,2) assms by (simp add: take_bit_nat_eq_self)
  qed
  then have "inj_on (\<lambda>i. c + word_of_nat i) {0..<n}" by (intro inj_onI) simp
  then show ?thesis by (simp only: distinct_map distinct_upt set_upt simp_thms)
qed

section \<open>Contracts\<close>

text \<open>
  A component whose operations are the events \<open>'e\<close> keeps its invariant along every run of
  admissible events.
\<close>

locale invariant_machine =
  fixes step :: "'s \<Rightarrow> 'e \<Rightarrow> 's"
    and inv :: "'s \<Rightarrow> bool"
    and ok :: "'e \<Rightarrow> bool"
  assumes inv_step: "inv s \<Longrightarrow> ok e \<Longrightarrow> inv (step s e)"
begin

lemma inv_run: "inv s \<Longrightarrow> list_all ok es \<Longrightarrow> inv (foldl step s es)"
  by (induction es arbitrary: s) (auto intro: inv_step)

lemma inv_prefix: "inv s \<Longrightarrow> list_all ok (es @ fs) \<Longrightarrow> inv (foldl step s es)"
  by (simp add: inv_run)

end

text \<open>
  An encoder and its decoder: the decoder returns every admissible value it was given the
  encoding of, so that the encoder is injective there.
\<close>

locale codec =
  fixes enc :: "'a \<Rightarrow> 'w"
    and dec :: "'w \<Rightarrow> 'e + 'a"
    and valid :: "'a \<Rightarrow> bool"
  assumes dec_enc: "valid a \<Longrightarrow> dec (enc a) = Inr a"
begin

lemma enc_inject: "valid a \<Longrightarrow> valid b \<Longrightarrow> enc a = enc b \<Longrightarrow> a = b"
  by (metis dec_enc sum.inject(2))

lemma dec_map_enc: "list_all valid as \<Longrightarrow> map (dec \<circ> enc) as = map Inr as"
  by (induction as) (auto simp: dec_enc)

end

end
