(* ===== verification/GoCrypto.thy ===== *)
theory GoCrypto
  imports Prelude
begin

text \<open>
  The parts of the Go standard library that \<open>proto/crypto.go\<close> calls, as their standards
  define them: \<open>crypto/sha256\<close> (FIPS 180-4), \<open>crypto/hmac\<close> (RFC 2104), \<open>crypto/aes\<close>
  (FIPS 197) and \<open>cipher.NewGCM\<close> with a 12-byte nonce, a 16-byte tag and no additional data
  (NIST SP 800-38D). All definitions compute. The lemmas are what the callers rely on: the
  output lengths, that \<open>gcm_open\<close> inverts \<open>gcm_seal\<close>, that it rejects a changed tag, and that
  two messages sealed under one key and nonce share their key stream.
\<close>

section \<open>SHA-256 and HMAC\<close>

definition rotr32 :: "nat \<Rightarrow> u32 \<Rightarrow> u32" where
  "rotr32 n w = drop_bit n w OR push_bit (32 - n) w"

text \<open>The 64 round constants, two to a literal.\<close>

definition sha_k :: "u32 list" where
  "sha_k = concat (map (\<lambda>v :: u64. [ucast (drop_bit 32 v), ucast v]) [
   0x428a2f9871374491, 0xb5c0fbcfe9b5dba5, 0x3956c25b59f111f1, 0x923f82a4ab1c5ed5,
   0xd807aa9812835b01, 0x243185be550c7dc3, 0x72be5d7480deb1fe, 0x9bdc06a7c19bf174,
   0xe49b69c1efbe4786, 0x0fc19dc6240ca1cc, 0x2de92c6f4a7484aa, 0x5cb0a9dc76f988da,
   0x983e5152a831c66d, 0xb00327c8bf597fc7, 0xc6e00bf3d5a79147, 0x06ca635114292967,
   0x27b70a852e1b2138, 0x4d2c6dfc53380d13, 0x650a7354766a0abb, 0x81c2c92e92722c85,
   0xa2bfe8a1a81a664b, 0xc24b8b70c76c51a3, 0xd192e819d6990624, 0xf40e3585106aa070,
   0x19a4c1161e376c08, 0x2748774c34b0bcb5, 0x391c0cb34ed8aa4a, 0x5b9cca4f682e6ff3,
   0x748f82ee78a5636f, 0x84c878148cc70208, 0x90befffaa4506ceb, 0xbef9a3f7c67178f2])"

definition sha_h0 :: "u32 list" where
  "sha_h0 = [0x6a09e667, 0xbb67ae85, 0x3c6ef372, 0xa54ff53a,
   0x510e527f, 0x9b05688c, 0x1f83d9ab, 0x5be0cd19]"

fun be_words :: "bytes \<Rightarrow> u32 list" where
  "be_words (a # b # c # d # r) = get32 [a, b, c, d] # be_words r"
| "be_words _ = []"

text \<open>The next word of the message schedule, from the sixteen words before it.\<close>

definition sha_next :: "u32 list \<Rightarrow> u32" where
  "sha_next w = (let x = w ! 1; y = w ! 14 in
     w ! 0 + (rotr32 7 x XOR rotr32 18 x XOR drop_bit 3 x) +
     w ! 9 + (rotr32 17 y XOR rotr32 19 y XOR drop_bit 10 y))"

fun sha_round :: "u32 list \<Rightarrow> u32 \<Rightarrow> u32 list" where
  "sha_round [a, b, c, d, e, f, g, h] kw =
     (let t1 = h + (rotr32 6 e XOR rotr32 11 e XOR rotr32 25 e) +
                 ((e AND f) XOR (NOT e AND g)) + kw;
          t2 = (rotr32 2 a XOR rotr32 13 a XOR rotr32 22 a) +
                 ((a AND b) XOR (a AND c) XOR (b AND c))
      in [t1 + t2, a, b, c, d + t1, e, f, g])"
| "sha_round s _ = s"

fun sha_rounds :: "u32 list \<Rightarrow> u32 list \<Rightarrow> u32 list \<Rightarrow> u32 list" where
  "sha_rounds [] w s = s"
| "sha_rounds (k # ks) w s =
     sha_rounds ks (tl w @ [sha_next w]) (sha_round s (k + hd w))"

definition sha_block :: "u32 list \<Rightarrow> bytes \<Rightarrow> u32 list" where
  "sha_block s b = map2 (+) s (sha_rounds sha_k (be_words b) s)"

definition sha_pad :: "bytes \<Rightarrow> bytes" where
  "sha_pad m = m @ [0x80] @ replicate ((119 - length m mod 64) mod 64) 0 @
     put64 (word_of_nat (8 * length m))"

fun sha_blocks :: "u32 list \<Rightarrow> bytes \<Rightarrow> u32 list" where
  "sha_blocks s m =
     (if length m < 64 then s else sha_blocks (sha_block s (take 64 m)) (drop 64 m))"

declare sha_blocks.simps [simp del]

definition sha256 :: "bytes \<Rightarrow> bytes" where
  "sha256 m = concat (map put32 (sha_blocks sha_h0 (sha_pad m)))"

definition hmac_block_key :: "bytes \<Rightarrow> bytes" where
  "hmac_block_key key =
     (let k = (if length key > 64 then sha256 key else key)
      in k @ replicate (64 - length k) 0)"

definition hmac_sha256 :: "bytes \<Rightarrow> bytes \<Rightarrow> bytes" where
  "hmac_sha256 key m =
     (let k = hmac_block_key key
      in sha256 (map ((XOR) 0x5c) k @ sha256 (map ((XOR) 0x36) k @ m)))"

lemma length_sha_round [simp]: "length (sha_round s kw) = length s"
  by (cases "(s, kw)" rule: sha_round.cases) (simp_all add: Let_def)

lemma length_sha_rounds [simp]: "length (sha_rounds ks w s) = length s"
  by (induction ks w s rule: sha_rounds.induct) simp_all

lemma length_sha_blocks [simp]: "length (sha_blocks s m) = length s"
proof (induction s m rule: sha_blocks.induct)
  case (1 s m)
  then show ?case by (subst sha_blocks.simps) (simp add: sha_block_def)
qed

lemma length_concat_put32 [simp]: "length (concat (map put32 ws)) = 4 * length ws"
  by (induction ws) simp_all

lemma length_sha256 [simp]: "length (sha256 m) = 32"
  by (simp add: sha256_def sha_h0_def)

lemma length_hmac_sha256 [simp]: "length (hmac_sha256 key m) = 32"
  by (simp add: hmac_sha256_def Let_def)

section \<open>AES\<close>

definition aes_sbox :: "byte list" where
  "aes_sbox = [
   0x63, 0x7c, 0x77, 0x7b, 0xf2, 0x6b, 0x6f, 0xc5, 0x30, 0x01, 0x67, 0x2b, 0xfe, 0xd7, 0xab, 0x76,
   0xca, 0x82, 0xc9, 0x7d, 0xfa, 0x59, 0x47, 0xf0, 0xad, 0xd4, 0xa2, 0xaf, 0x9c, 0xa4, 0x72, 0xc0,
   0xb7, 0xfd, 0x93, 0x26, 0x36, 0x3f, 0xf7, 0xcc, 0x34, 0xa5, 0xe5, 0xf1, 0x71, 0xd8, 0x31, 0x15,
   0x04, 0xc7, 0x23, 0xc3, 0x18, 0x96, 0x05, 0x9a, 0x07, 0x12, 0x80, 0xe2, 0xeb, 0x27, 0xb2, 0x75,
   0x09, 0x83, 0x2c, 0x1a, 0x1b, 0x6e, 0x5a, 0xa0, 0x52, 0x3b, 0xd6, 0xb3, 0x29, 0xe3, 0x2f, 0x84,
   0x53, 0xd1, 0x00, 0xed, 0x20, 0xfc, 0xb1, 0x5b, 0x6a, 0xcb, 0xbe, 0x39, 0x4a, 0x4c, 0x58, 0xcf,
   0xd0, 0xef, 0xaa, 0xfb, 0x43, 0x4d, 0x33, 0x85, 0x45, 0xf9, 0x02, 0x7f, 0x50, 0x3c, 0x9f, 0xa8,
   0x51, 0xa3, 0x40, 0x8f, 0x92, 0x9d, 0x38, 0xf5, 0xbc, 0xb6, 0xda, 0x21, 0x10, 0xff, 0xf3, 0xd2,
   0xcd, 0x0c, 0x13, 0xec, 0x5f, 0x97, 0x44, 0x17, 0xc4, 0xa7, 0x7e, 0x3d, 0x64, 0x5d, 0x19, 0x73,
   0x60, 0x81, 0x4f, 0xdc, 0x22, 0x2a, 0x90, 0x88, 0x46, 0xee, 0xb8, 0x14, 0xde, 0x5e, 0x0b, 0xdb,
   0xe0, 0x32, 0x3a, 0x0a, 0x49, 0x06, 0x24, 0x5c, 0xc2, 0xd3, 0xac, 0x62, 0x91, 0x95, 0xe4, 0x79,
   0xe7, 0xc8, 0x37, 0x6d, 0x8d, 0xd5, 0x4e, 0xa9, 0x6c, 0x56, 0xf4, 0xea, 0x65, 0x7a, 0xae, 0x08,
   0xba, 0x78, 0x25, 0x2e, 0x1c, 0xa6, 0xb4, 0xc6, 0xe8, 0xdd, 0x74, 0x1f, 0x4b, 0xbd, 0x8b, 0x8a,
   0x70, 0x3e, 0xb5, 0x66, 0x48, 0x03, 0xf6, 0x0e, 0x61, 0x35, 0x57, 0xb9, 0x86, 0xc1, 0x1d, 0x9e,
   0xe1, 0xf8, 0x98, 0x11, 0x69, 0xd9, 0x8e, 0x94, 0x9b, 0x1e, 0x87, 0xe9, 0xce, 0x55, 0x28, 0xdf,
   0x8c, 0xa1, 0x89, 0x0d, 0xbf, 0xe6, 0x42, 0x68, 0x41, 0x99, 0x2d, 0x0f, 0xb0, 0x54, 0xbb, 0x16]"

definition sub_byte :: "byte \<Rightarrow> byte" where
  "sub_byte b = aes_sbox ! unat b"

definition xtime :: "byte \<Rightarrow> byte" where
  "xtime b = (if bit b 7 then push_bit 1 b XOR 0x1b else push_bit 1 b)"

definition xor_bytes :: "bytes \<Rightarrow> bytes \<Rightarrow> bytes" where
  "xor_bytes a b = map2 (XOR) a b"

text \<open>
  The key schedule as a list of 4-byte words, extended one word at a time: \<open>nk\<close> is the key
  length in words, \<open>i\<close> the index of the word to add, \<open>rc\<close> the current round constant.
\<close>

definition aes_next_word :: "nat \<Rightarrow> nat \<Rightarrow> byte \<Rightarrow> bytes list \<Rightarrow> bytes" where
  "aes_next_word nk i rc ws =
     (let t = last ws;
          t' = (if i mod nk = 0
                then xor_bytes (map sub_byte (tl t @ [hd t])) [rc, 0, 0, 0]
                else if nk > 6 \<and> i mod nk = 4 then map sub_byte t
                else t)
      in xor_bytes (ws ! (i - nk)) t')"

fun aes_expand :: "nat \<Rightarrow> nat \<Rightarrow> nat \<Rightarrow> byte \<Rightarrow> bytes list \<Rightarrow> bytes list" where
  "aes_expand 0 nk i rc ws = ws"
| "aes_expand (Suc n) nk i rc ws =
     aes_expand n nk (Suc i) (if i mod nk = 0 then xtime rc else rc)
       (ws @ [aes_next_word nk i rc ws])"

fun chunk4 :: "bytes \<Rightarrow> bytes list" where
  "chunk4 (a # b # c # d # r) = [a, b, c, d] # chunk4 r"
| "chunk4 _ = []"

definition aes_round_keys :: "bytes \<Rightarrow> bytes list" where
  "aes_round_keys key =
     (let nk = length key div 4; rounds = nk + 6;
          ws = aes_expand (4 * (rounds + 1) - nk) nk nk 1 (chunk4 key)
      in map (\<lambda>r. concat (take 4 (drop (4 * r) ws))) [0..<rounds + 1])"

definition shift_rows :: "bytes \<Rightarrow> bytes" where
  "shift_rows s = map (\<lambda>i. s ! ((i + 4 * (i mod 4)) mod 16)) [0..<16]"

fun mix_columns :: "bytes \<Rightarrow> bytes" where
  "mix_columns (a # b # c # d # r) =
     (let t = a XOR b XOR c XOR d
      in [a XOR t XOR xtime (a XOR b), b XOR t XOR xtime (b XOR c),
          c XOR t XOR xtime (c XOR d), d XOR t XOR xtime (d XOR a)] @ mix_columns r)"
| "mix_columns _ = []"

fun aes_rounds :: "bytes list \<Rightarrow> bytes \<Rightarrow> bytes" where
  "aes_rounds [] s = s"
| "aes_rounds [k] s = xor_bytes (shift_rows (map sub_byte s)) k"
| "aes_rounds (k # ks) s =
     aes_rounds ks (xor_bytes (mix_columns (shift_rows (map sub_byte s))) k)"

definition aes_encrypt :: "bytes \<Rightarrow> bytes \<Rightarrow> bytes" where
  "aes_encrypt key block =
     (let ks = aes_round_keys key in aes_rounds (tl ks) (xor_bytes block (hd ks)))"

text \<open>\<open>aes.NewCipher\<close> accepts keys of 16, 24 and 32 bytes and refuses any other.\<close>

definition aes_key_ok :: "bytes \<Rightarrow> bool" where
  "aes_key_ok key \<longleftrightarrow> length key \<in> {16, 24, 32}"

lemma length_xor_bytes [simp]: "length (xor_bytes a b) = min (length a) (length b)"
  by (simp add: xor_bytes_def)

lemma xor_bytes_cancel: "length k = length m \<Longrightarrow> xor_bytes (xor_bytes m k) k = m"
  by (induction m k rule: list_induct2') (simp_all add: xor_bytes_def xor.assoc)

lemma xor_bytes_shared:
  "length p = length k \<Longrightarrow> length q = length k \<Longrightarrow>
   xor_bytes (xor_bytes p k) (xor_bytes q k) = xor_bytes p q"
proof (induction p k arbitrary: q rule: list_induct2')
  case (4 x xs y ys)
  then obtain z zs where "q = z # zs" by (cases q) auto
  moreover have "(x XOR y) XOR (z XOR y) = x XOR z"
    by (rule bit_word_eqI) (auto simp: bit_simps)
  ultimately show ?case using 4 by (simp add: xor_bytes_def)
qed (simp_all add: xor_bytes_def)

text \<open>The key schedule consists of 4-byte words, as many as the rounds need.\<close>

lemma length_aes_next_word:
  assumes "nk > 0" "i = length ws" "nk \<le> length ws" "\<forall>w \<in> set ws. length w = 4"
  shows "length (aes_next_word nk i rc ws) = 4"
proof -
  have "ws \<noteq> []" using assms by auto
  then have "length (last ws) = 4" "length (ws ! (i - nk)) = 4" using assms by simp_all
  then show ?thesis by (simp add: aes_next_word_def Let_def)
qed

lemma aes_expand_words:
  "nk > 0 \<Longrightarrow> i = length ws \<Longrightarrow> nk \<le> length ws \<Longrightarrow> \<forall>w \<in> set ws. length w = 4 \<Longrightarrow>
   length (aes_expand n nk i rc ws) = n + length ws \<and>
    (\<forall>w \<in> set (aes_expand n nk i rc ws). length w = 4)"
proof (induction n arbitrary: i rc ws)
  case 0
  then show ?case by simp
next
  case (Suc n)
  let ?ws = "ws @ [aes_next_word nk i rc ws]"
  have "\<forall>w \<in> set ?ws. length w = 4"
    using Suc.prems length_aes_next_word by auto
  from Suc.IH [OF Suc.prems(1) _ _ this, of "Suc i" "if i mod nk = 0 then xtime rc else rc"]
  show ?case using Suc.prems(2,3) by simp
qed

lemma length_chunk4: "length (chunk4 b) = length b div 4 \<and> (\<forall>w \<in> set (chunk4 b). length w = 4)"
  by (induction b rule: chunk4.induct) auto

lemma length_concat_words: "\<forall>w \<in> set ws. length w = 4 \<Longrightarrow> length (concat ws) = 4 * length ws"
  by (induction ws) simp_all

lemma aes_round_keys_shape:
  assumes "aes_key_ok key"
  shows "\<forall>k \<in> set (aes_round_keys key). length k = 16" "2 \<le> length (aes_round_keys key)"
proof -
  define nk where "nk = length key div 4"
  define ws where "ws = aes_expand (4 * (nk + 7) - nk) nk nk 1 (chunk4 key)"
  have nk: "nk \<in> {4, 6, 8}" using assms by (auto simp: aes_key_ok_def nk_def)
  have pos: "0 < nk" using nk by auto
  have len: "length (chunk4 key) = nk" using length_chunk4 [of key] by (simp add: nk_def)
  have words: "\<forall>w \<in> set (chunk4 key). length w = 4" using length_chunk4 [of key] by simp
  have shape: "length ws = 4 * (nk + 7) - nk + nk \<and> (\<forall>w \<in> set ws. length w = 4)"
    using aes_expand_words [OF pos len [symmetric] _ words, of "4 * (nk + 7) - nk" 1]
    unfolding ws_def len by blast
  from shape have words': "\<forall>w \<in> set ws. length w = 4" ..
  from shape have "length ws = 4 * (nk + 7) - nk + nk" ..
  then have "length ws = 4 * (nk + 7)" using nk by auto
  note ws = this words'
  have seven: "m + 6 + 1 = m + 7" for m :: nat by simp
  have keys: "aes_round_keys key = map (\<lambda>r. concat (take 4 (drop (4 * r) ws))) [0..<nk + 7]"
    using seven [of nk] by (simp only: aes_round_keys_def Let_def nk_def ws_def)
  have "length (concat (take 4 (drop (4 * r) ws))) = 16" if "r < nk + 7" for r
  proof -
    have "\<forall>w \<in> set (take 4 (drop (4 * r) ws)). length w = 4"
      using ws(2) by (meson in_set_dropD in_set_takeD)
    then show ?thesis using that ws(1) by (simp add: length_concat_words)
  qed
  then show "\<forall>k \<in> set (aes_round_keys key). length k = 16" by (auto simp: keys)
  show "2 \<le> length (aes_round_keys key)" by (simp add: keys)
qed

lemma length_shift_rows [simp]: "length (shift_rows s) = 16"
  by (simp add: shift_rows_def)

lemma length_mix_columns: "length (mix_columns s) = 4 * (length s div 4)"
  by (induction s rule: mix_columns.induct) (simp_all add: Let_def, presburger)

lemma length_aes_rounds:
  "ks \<noteq> [] \<Longrightarrow> \<forall>k \<in> set ks. length k = 16 \<Longrightarrow> length (aes_rounds ks s) = 16"
  by (induction ks s rule: aes_rounds.induct) (auto simp: length_mix_columns)

lemma length_aes_encrypt [simp]:
  "aes_key_ok key \<Longrightarrow> length (aes_encrypt key b) = 16"
  using aes_round_keys_shape [of key]
  by (cases "aes_round_keys key") (auto simp: aes_encrypt_def Let_def intro!: length_aes_rounds)

section \<open>GCM\<close>

definition block_of :: "bytes \<Rightarrow> 128 word" where
  "block_of b = foldl (\<lambda>acc x. push_bit 8 acc OR ucast x) 0 b"

definition bytes_of_block :: "128 word \<Rightarrow> bytes" where
  "bytes_of_block w = map (\<lambda>i. ucast (drop_bit (8 * i) w)) (rev [0..<16])"

definition gf_step :: "128 word \<Rightarrow> 128 word \<times> 128 word \<Rightarrow> nat \<Rightarrow> 128 word \<times> 128 word" where
  "gf_step x zv i = (case zv of (z, v) \<Rightarrow>
     (if bit x (127 - i) then z XOR v else z,
      if bit v 0 then drop_bit 1 v XOR push_bit 120 0xe1 else drop_bit 1 v))"

definition gf_mul :: "128 word \<Rightarrow> 128 word \<Rightarrow> 128 word" where
  "gf_mul x y = fst (foldl (gf_step x) (0, y) [0..<128])"

fun chunks16 :: "bytes \<Rightarrow> bytes list" where
  "chunks16 m = (if m = [] then [] else take 16 m # chunks16 (drop 16 m))"

declare chunks16.simps [simp del]

definition ghash :: "128 word \<Rightarrow> bytes \<Rightarrow> 128 word" where
  "ghash h m = foldl (\<lambda>y b. gf_mul (y XOR block_of b) h) 0 (chunks16 m)"

definition pad16 :: "bytes \<Rightarrow> bytes" where
  "pad16 m = m @ replicate ((16 - length m mod 16) mod 16) 0"

text \<open>Block \<open>i\<close> of the key stream uses the counter \<open>i + 2\<close>; counter 1 masks the tag.\<close>

definition gcm_keystream :: "bytes \<Rightarrow> bytes \<Rightarrow> nat \<Rightarrow> bytes" where
  "gcm_keystream key nonce n =
     take n (concat (map (\<lambda>i. aes_encrypt key (nonce @ put32 (word_of_nat i + 2)))
       [0..<(n + 15) div 16]))"

definition gcm_crypt :: "bytes \<Rightarrow> bytes \<Rightarrow> bytes \<Rightarrow> bytes" where
  "gcm_crypt key nonce m = xor_bytes m (gcm_keystream key nonce (length m))"

definition gcm_tag :: "bytes \<Rightarrow> bytes \<Rightarrow> bytes \<Rightarrow> bytes" where
  "gcm_tag key nonce ct =
     (let h = block_of (aes_encrypt key (replicate 16 0))
      in xor_bytes
           (bytes_of_block (ghash h (pad16 ct @ put64 0 @ put64 (word_of_nat (8 * length ct)))))
           (aes_encrypt key (nonce @ put32 1)))"

definition gcm_seal :: "bytes \<Rightarrow> bytes \<Rightarrow> bytes \<Rightarrow> bytes" where
  "gcm_seal key nonce pt = (let ct = gcm_crypt key nonce pt in ct @ gcm_tag key nonce ct)"

definition gcm_open :: "bytes \<Rightarrow> bytes \<Rightarrow> bytes \<Rightarrow> bytes option" where
  "gcm_open key nonce c =
     (if length c < 16 then None
      else let ct = take (length c - 16) c; tag = drop (length c - 16) c
           in if tag = gcm_tag key nonce ct then Some (gcm_crypt key nonce ct) else None)"

lemma length_gcm_keystream [simp]:
  assumes "aes_key_ok key"
  shows "length (gcm_keystream key nonce n) = n"
proof -
  have "length (concat (map (\<lambda>i. aes_encrypt key (nonce @ put32 (word_of_nat i + 2))) [0..<k])) =
      16 * k" for k
    using assms by (induction k) simp_all
  then show ?thesis by (simp add: gcm_keystream_def)
qed

lemma length_gcm_crypt [simp]: "aes_key_ok key \<Longrightarrow> length (gcm_crypt key n m) = length m"
  by (simp add: gcm_crypt_def)

lemma length_gcm_tag [simp]: "aes_key_ok key \<Longrightarrow> length (gcm_tag key n ct) = 16"
  by (simp add: gcm_tag_def Let_def bytes_of_block_def)

lemma gcm_crypt_twice [simp]: "aes_key_ok key \<Longrightarrow> gcm_crypt key n (gcm_crypt key n m) = m"
  by (simp add: gcm_crypt_def xor_bytes_cancel)

lemma length_gcm_seal [simp]:
  "aes_key_ok key \<Longrightarrow> length (gcm_seal key n p) = length p + 16"
  by (simp add: gcm_seal_def Let_def)

text \<open>Opening succeeds on sealed messages and on nothing else.\<close>

lemma gcm_open_iff:
  assumes "aes_key_ok key"
  shows "gcm_open key n c = Some p \<longleftrightarrow> c = gcm_seal key n p"
proof
  assume "gcm_open key n c = Some p"
  then have len: "16 \<le> length c"
    and tag: "drop (length c - 16) c = gcm_tag key n (take (length c - 16) c)"
    and p: "p = gcm_crypt key n (take (length c - 16) c)"
    by (auto simp: gcm_open_def Let_def split: if_splits)
  have "gcm_seal key n p = take (length c - 16) c @ drop (length c - 16) c"
    using assms by (simp add: gcm_seal_def Let_def p tag)
  then show "c = gcm_seal key n p" by simp
next
  assume "c = gcm_seal key n p"
  then show "gcm_open key n c = Some p"
    using assms by (simp add: gcm_open_def gcm_seal_def Let_def)
qed

text \<open>
  Two messages of one length sealed under one key and nonce: the xor of the ciphertext
  bodies is the xor of the messages.
\<close>

lemma gcm_seal_shared_nonce:
  assumes "aes_key_ok key" "length p = length q"
  shows "xor_bytes (take (length p) (gcm_seal key n p)) (take (length q) (gcm_seal key n q)) =
    xor_bytes p q"
  using assms by (simp add: gcm_seal_def Let_def) (simp add: gcm_crypt_def xor_bytes_shared)

section \<open>The contract of an AEAD\<close>

text \<open>
  What the frame layer assumes of \<open>cipher.AEAD\<close>: with an accepted key, opening inverts sealing
  and accepts only sealed messages, and sealing adds a tag of fixed size.
\<close>

locale aead =
  fixes seal :: "'k \<Rightarrow> 'n \<Rightarrow> bytes \<Rightarrow> bytes"
    and open_sealed :: "'k \<Rightarrow> 'n \<Rightarrow> bytes \<Rightarrow> bytes option"
    and key_ok :: "'k \<Rightarrow> bool"
    and tag_size :: nat
  assumes open_iff: "key_ok k \<Longrightarrow> open_sealed k n c = Some p \<longleftrightarrow> c = seal k n p"
    and length_seal: "key_ok k \<Longrightarrow> length (seal k n p) = length p + tag_size"
begin

lemma open_seal: "key_ok k \<Longrightarrow> open_sealed k n (seal k n p) = Some p"
  by (simp add: open_iff)

lemma seal_inject: "key_ok k \<Longrightarrow> seal k n p = seal k n q \<Longrightarrow> p = q"
  by (metis open_seal option.inject)

lemma open_short: "key_ok k \<Longrightarrow> length c < tag_size \<Longrightarrow> open_sealed k n c = None"
  by (metis length_seal le_add2 not_le open_iff option.exhaust)

lemma open_length: "key_ok k \<Longrightarrow> open_sealed k n c = Some p \<Longrightarrow> length c = length p + tag_size"
  by (simp add: open_iff length_seal)

end

interpretation gcm: aead gcm_seal gcm_open aes_key_ok 16
  by unfold_locales (simp_all add: gcm_open_iff)

lemma gcm_open_changed_tag:
  assumes "aes_key_ok key" "length t = 16" "ct @ t \<noteq> gcm_seal key n p" "length ct = length p"
    "ct = take (length p) (gcm_seal key n p)"
  shows "gcm_open key n (ct @ t) = None"
proof (rule ccontr)
  assume "gcm_open key n (ct @ t) \<noteq> None"
  then obtain q where "gcm_open key n (ct @ t) = Some q" by auto
  then have q: "ct @ t = gcm_seal key n q" using assms(1) by (simp add: gcm_open_iff)
  then have "ct = gcm_crypt key n q"
    using assms(1,2) by (simp add: gcm_seal_def Let_def)
  moreover have "ct = gcm_crypt key n p"
    using assms(1,5) by (simp add: gcm_seal_def Let_def)
  ultimately have "p = q" using gcm_crypt_twice [OF assms(1)] by metis
  then show False using q assms(3) by simp
qed

end
