(* ===== verification/ProtoCrypto.thy ===== *)
theory ProtoCrypto
  imports GoCrypto
begin

text \<open>
  \<open>proto/crypto.go\<close>: X25519 keys, HKDF-SHA256 over HMAC, the session key derivation, the GCM
  nonce, \<open>Seal\<close> and \<open>Open\<close>. The scalar multiplication of X25519 (RFC 7748) is the parameter
  \<open>dh scalar point\<close>; the checks \<open>crypto/ecdh\<close> makes around it (key lengths, the all-zero
  result) are written out. The generator of the operating system is the argument \<open>entropy\<close>
  of \<open>GenerateEphemeralKeypair\<close> and \<open>RandomBytes\<close>: \<open>None\<close> when it fails.
\<close>

section \<open>Constants and errors\<close>

definition X25519KeySize :: nat where "X25519KeySize = 32"
definition AuthTagSize :: nat where "AuthTagSize = 16"
definition GCMNonceSize :: nat where "GCMNonceSize = 12"

datatype proto_error =
    ErrShortBuffer
  | ErrDecryptFailed
  | ErrHkdfLength
  | ErrKeySize nat          \<comment> \<open>\<open>aes.KeySizeError\<close>\<close>
  | ErrInvalidKey           \<comment> \<open>\<open>crypto/ecdh\<close>: wrong key length\<close>
  | ErrLowOrderPoint        \<comment> \<open>\<open>crypto/ecdh\<close>: the shared secret is all zero\<close>
  | ErrEntropy

section \<open>X25519\<close>

type_synonym x25519 = "bytes \<Rightarrow> bytes \<Rightarrow> bytes"

definition x25519_basepoint :: bytes where
  "x25519_basepoint = 9 # replicate 31 0"

definition ecdh_PublicKey :: "x25519 \<Rightarrow> bytes \<Rightarrow> bytes" where
  "ecdh_PublicKey dh priv = dh priv x25519_basepoint"

definition ECDH :: "x25519 \<Rightarrow> bytes \<Rightarrow> bytes \<Rightarrow> proto_error + bytes" where
  "ECDH dh priv pub =
     (let s = dh priv pub
      in if list_all (\<lambda>b. b = 0) s then Inl ErrLowOrderPoint else Inr s)"

definition GenerateEphemeralKeypair :: "bytes option \<Rightarrow> proto_error + bytes" where
  "GenerateEphemeralKeypair entropy =
     (case entropy of None \<Rightarrow> Inl ErrEntropy | Some raw \<Rightarrow> Inr raw)"

definition LoadX25519PublicKey :: "bytes \<Rightarrow> proto_error + bytes" where
  "LoadX25519PublicKey raw = (if length raw \<noteq> 32 then Inl ErrInvalidKey else Inr raw)"

definition LoadX25519PrivateKey :: "bytes \<Rightarrow> proto_error + bytes" where
  "LoadX25519PrivateKey raw = (if length raw \<noteq> 32 then Inl ErrInvalidKey else Inr raw)"

definition RandomBytes :: "bytes option \<Rightarrow> nat \<Rightarrow> proto_error + bytes" where
  "RandomBytes entropy n =
     (case entropy of None \<Rightarrow> Inl ErrEntropy
      | Some stream \<Rightarrow> if length stream < n then Inl ErrEntropy else Inr (take n stream))"

section \<open>HKDF-SHA256\<close>

definition hkdfExtract :: "bytes \<Rightarrow> bytes \<Rightarrow> bytes" where
  "hkdfExtract salt ikm =
     (let salt' = (if length salt = 0 then replicate 32 0 else salt)
      in hmac_sha256 salt' ikm)"

text \<open>
  The loop of \<open>hkdfExpand\<close>: \<open>out\<close> is the output so far, \<open>prev\<close> the last block, \<open>i\<close> the block
  counter, a byte that wraps.
\<close>

function hkdf_loop :: "bytes \<Rightarrow> bytes \<Rightarrow> nat \<Rightarrow> bytes \<Rightarrow> bytes \<Rightarrow> byte \<Rightarrow> bytes" where
  "hkdf_loop prk info len out prev i =
     (if length out < len
      then let prev' = hmac_sha256 prk (prev @ info @ [i])
           in hkdf_loop prk info len (out @ prev') prev' (i + 1)
      else out)"
  by pat_completeness auto
termination
  by (relation "measure (\<lambda>(prk, info, len, out, prev, i). len - length out)") auto

declare hkdf_loop.simps [simp del]

definition hkdfExpand :: "bytes \<Rightarrow> bytes \<Rightarrow> nat \<Rightarrow> proto_error + bytes" where
  "hkdfExpand prk info len =
     (let hashLen = 32
      in if len > 255 * hashLen then Inl ErrHkdfLength
         else Inr (take len (hkdf_loop prk info len [] [] 1)))"

definition DeriveSessionKey :: "bytes \<Rightarrow> bytes \<Rightarrow> string \<Rightarrow> proto_error + bytes" where
  "DeriveSessionKey sharedSecret salt info =
     (let prk = hkdfExtract salt sharedSecret in hkdfExpand prk (bytes_of info) 32)"

text \<open>RFC 5869: block \<open>n\<close> of the output is keyed by the extracted key and chained to block \<open>n - 1\<close>.\<close>

fun hkdf_T :: "bytes \<Rightarrow> bytes \<Rightarrow> nat \<Rightarrow> bytes" where
  "hkdf_T prk info 0 = []"
| "hkdf_T prk info (Suc n) =
     hmac_sha256 prk (hkdf_T prk info n @ info @ [word_of_nat (Suc n)])"

definition hkdf_okm :: "bytes \<Rightarrow> bytes \<Rightarrow> nat \<Rightarrow> bytes" where
  "hkdf_okm prk info n = concat (map (hkdf_T prk info) [1..<Suc n])"

lemma length_hkdf_okm: "length (hkdf_okm prk info n) = 32 * n"
  by (induction n) (simp_all add: hkdf_okm_def)

lemma hkdf_loop_okm:
  "hkdf_loop prk info len (hkdf_okm prk info n) (hkdf_T prk info n) (word_of_nat (Suc n)) =
     hkdf_okm prk info (max n ((len + 31) div 32))"
proof (induction "len - 32 * n" arbitrary: n rule: less_induct)
  case less
  show ?case
  proof (cases "32 * n < len")
    case False
    then have "max n ((len + 31) div 32) = n" by auto
    then show ?thesis using False by (subst hkdf_loop.simps) (simp add: length_hkdf_okm)
  next
    case True
    have step: "hkdf_okm prk info n @ hkdf_T prk info (Suc n) = hkdf_okm prk info (Suc n)"
      by (simp add: hkdf_okm_def)
    have "max n ((len + 31) div 32) = max (Suc n) ((len + 31) div 32)" using True by auto
    moreover have "len - 32 * Suc n < len - 32 * n" using True by simp
    ultimately show ?thesis
      using less [of "Suc n"] True step
      by (subst hkdf_loop.simps) (simp add: length_hkdf_okm Let_def add.commute)
  qed
qed

lemma hkdfExpand_spec:
  "hkdfExpand prk info len =
     (if len > 8160 then Inl ErrHkdfLength
      else Inr (take len (hkdf_okm prk info ((len + 31) div 32))))"
  using hkdf_loop_okm [of prk info len 0]
  by (simp add: hkdfExpand_def hkdf_okm_def Let_def)

lemma hkdfExpand_length: "hkdfExpand prk info len = Inr okm \<Longrightarrow> length okm = len"
  by (auto simp: hkdfExpand_spec length_hkdf_okm split: if_splits)

lemma DeriveSessionKey_total:
  "DeriveSessionKey s salt info = Inr (hkdf_T (hkdfExtract salt s) (bytes_of info) 1)"
  by (simp add: DeriveSessionKey_def Let_def hkdfExpand_spec hkdf_okm_def)

lemma DeriveSessionKey_length: "DeriveSessionKey s salt info = Inr k \<Longrightarrow> length k = 32"
  by (auto simp: DeriveSessionKey_total)

section \<open>Nonces, Seal and Open\<close>

definition BuildNonce :: "u32 \<Rightarrow> u64 \<Rightarrow> bytes" where
  "BuildNonce connectionID counter = put32 connectionID @ put64 counter"

definition Seal :: "bytes \<Rightarrow> bytes \<Rightarrow> bytes \<Rightarrow> proto_error + bytes" where
  "Seal key nonce plaintext =
     (if aes_key_ok key then Inr (gcm_seal key nonce plaintext)
      else Inl (ErrKeySize (length key)))"

definition Open :: "bytes \<Rightarrow> bytes \<Rightarrow> bytes \<Rightarrow> proto_error + bytes" where
  "Open key nonce ciphertext =
     (if aes_key_ok key
      then (case gcm_open key nonce ciphertext of
              None \<Rightarrow> Inl ErrDecryptFailed | Some pt \<Rightarrow> Inr pt)
      else Inl (ErrKeySize (length key)))"

lemma length_BuildNonce [simp, wire_simps]: "length (BuildNonce c n) = 12"
  by (simp add: BuildNonce_def)

lemma BuildNonce_inject [simp]: "BuildNonce c n = BuildNonce c' n' \<longleftrightarrow> c = c' \<and> n = n'"
  by (simp add: BuildNonce_def)

lemma Seal_ok [simp]: "aes_key_ok key \<Longrightarrow> Seal key n p = Inr (gcm_seal key n p)"
  by (simp add: Seal_def)

lemma Seal_Inr: "Seal key n p = Inr c \<longleftrightarrow> aes_key_ok key \<and> c = gcm_seal key n p"
  by (auto simp: Seal_def)

lemma Open_Inr: "Open key n c = Inr p \<longleftrightarrow> aes_key_ok key \<and> c = gcm_seal key n p"
  using gcm.open_iff [of key n c p] by (auto simp: Open_def split: option.splits)

lemma Open_gcm_seal [simp]: "aes_key_ok key \<Longrightarrow> Open key n (gcm_seal key n p) = Inr p"
  by (simp add: Open_Inr)

lemma aes_key_ok_32: "length key = 32 \<Longrightarrow> aes_key_ok key"
  by (simp add: aes_key_ok_def)

lemma DeriveSessionKey_key_ok: "DeriveSessionKey s salt info = Inr k \<Longrightarrow> aes_key_ok k"
  by (rule aes_key_ok_32) (rule DeriveSessionKey_length)

section \<open>Properties\<close>

text \<open>C33: \<open>hkdfExpand\<close> is the expansion of RFC 5869 for every length: the first bytes of the chained
  blocks, block \<open>i\<close> under the counter byte \<open>i\<close>, and an error above 255 blocks.\<close>

theorem hkdfExpand_rfc5869:
  "hkdfExpand prk info len =
     (if len > 255 * 32 then Inl ErrHkdfLength
      else Inr (take len (hkdf_okm prk info ((len + 31) div 32))))"
  by (simp add: hkdfExpand_spec)

end
