(* ===== verification/ProtoFrame.thy ===== *)
theory ProtoFrame
  imports ProtoCrypto
begin

text \<open>
  \<open>proto/frame.go\<close>: the handshake frame and the data frame, their plaintext layouts, and the
  sealed wire forms. The lemmas give the two codecs, what a decoder accepts exactly, and the
  sizes; the properties at the end are about the exported functions.
\<close>

section \<open>Flags\<close>

definition FlagOpen :: byte where "FlagOpen = 0x01"
definition FlagData :: byte where "FlagData = 0x02"
definition FlagAck :: byte where "FlagAck = 0x04"
definition FlagFin :: byte where "FlagFin = 0x08"
definition FlagReset :: byte where "FlagReset = 0x10"
definition FlagPing :: byte where "FlagPing = 0x20"
definition FlagPong :: byte where "FlagPong = 0x40"
definition FlagKeyConfirmed :: byte where "FlagKeyConfirmed = 0x80"

lemmas flag_defs = FlagOpen_def FlagData_def FlagAck_def FlagFin_def FlagReset_def
  FlagPing_def FlagPong_def FlagKeyConfirmed_def

section \<open>Handshake frames\<close>

definition HandshakePlaintextSize :: nat where
  "HandshakePlaintextSize = 8 + 4 + 1"

definition HandshakeWireSize :: nat where
  "HandshakeWireSize = X25519KeySize + 8 + HandshakePlaintextSize + AuthTagSize"

record HandshakePlaintext =
  hp_DeviceID :: u64
  hp_ConnectionID :: u32
  hp_Flags :: byte

definition encode :: "HandshakePlaintext \<Rightarrow> bytes" where
  "encode p = put64 (hp_DeviceID p) @ put32 (hp_ConnectionID p) @ [hp_Flags p]"

definition decodeHandshakePlaintext :: "bytes \<Rightarrow> proto_error + HandshakePlaintext" where
  "decodeHandshakePlaintext buf =
     (if length buf \<noteq> HandshakePlaintextSize then Inl ErrShortBuffer
      else Inr \<lparr>hp_DeviceID = get64 (slice 0 8 buf), hp_ConnectionID = get32 (slice 8 12 buf),
                hp_Flags = buf ! 12\<rparr>)"

definition EncodeHandshake ::
  "x25519 \<Rightarrow> bytes \<Rightarrow> bytes \<Rightarrow> u64 \<Rightarrow> HandshakePlaintext \<Rightarrow> string \<Rightarrow> proto_error + bytes \<times> bytes" where
  "EncodeHandshake dh ephPriv peerPub nonceCounter plaintext hkdfInfo =
     bindR (ECDH dh ephPriv peerPub) (\<lambda>shared.
       let ephPubRaw = ecdh_PublicKey dh ephPriv;
           nonceBuf = put64 nonceCounter
       in bindR (DeriveSessionKey shared ephPubRaw hkdfInfo) (\<lambda>sessionKey.
          let gcmNonce = BuildNonce 0 nonceCounter
          in bindR (Seal sessionKey gcmNonce (encode plaintext)) (\<lambda>sealed.
             Inr (ephPubRaw @ nonceBuf @ sealed, sessionKey))))"

definition DecodeHandshake ::
  "x25519 \<Rightarrow> bytes \<Rightarrow> bytes \<Rightarrow> string \<Rightarrow> proto_error + HandshakePlaintext \<times> bytes \<times> bytes" where
  "DecodeHandshake dh wire localPriv hkdfInfo =
     (if length wire \<noteq> HandshakeWireSize then Inl ErrShortBuffer
      else
        let ephPubRaw = slice 0 32 wire;
            nonceCounter = get64 (slice 32 40 wire);
            sealed = drop 40 wire
        in bindR (LoadX25519PublicKey ephPubRaw) (\<lambda>ephPub.
           bindR (ECDH dh localPriv ephPub) (\<lambda>shared.
           bindR (DeriveSessionKey shared ephPubRaw hkdfInfo) (\<lambda>sessionKey.
             let gcmNonce = BuildNonce 0 nonceCounter
             in bindR (Open sessionKey gcmNonce sealed) (\<lambda>pt.
                bindR (decodeHandshakePlaintext pt) (\<lambda>plaintext.
                  Inr (plaintext, sessionKey, ephPub)))))))"

lemma HandshakeWireSize_69: "HandshakeWireSize = 69"
  by (simp add: HandshakeWireSize_def X25519KeySize_def HandshakePlaintextSize_def AuthTagSize_def)

lemma length_encode [simp, wire_simps]: "length (encode p) = 13"
  by (simp add: encode_def)

lemma decode_encode_handshake: "decodeHandshakePlaintext (encode p) = Inr p"
  by (simp add: decodeHandshakePlaintext_def HandshakePlaintextSize_def encode_def slice_def
      nth_append)

lemma DecodeHandshake_key:
  assumes "DecodeHandshake dh wire priv info = Inr (pt, key, eph)"
  shows "length wire = 69" "length key = 32" "aes_key_ok key"
  using assms DeriveSessionKey_length
  by (fastforce simp: DecodeHandshake_def Let_def bindR_eq_Inr HandshakeWireSize_69
      split: if_splits intro: aes_key_ok_32)+

interpretation hs: codec encode decodeHandshakePlaintext "\<lambda>_. True"
  by unfold_locales (rule decode_encode_handshake)

text \<open>
  What X25519 gives two parties with the private keys \<open>a\<close> and \<open>b\<close>: public keys of 32 bytes, and
  a shared secret that both compute and that is not all zero.
\<close>

definition x25519_pair :: "x25519 \<Rightarrow> bytes \<Rightarrow> bytes \<Rightarrow> bool" where
  "x25519_pair dh a b \<longleftrightarrow> length (ecdh_PublicKey dh a) = 32 \<and>
     dh a (ecdh_PublicKey dh b) = dh b (ecdh_PublicKey dh a) \<and>
     \<not> list_all (\<lambda>x. x = 0) (dh a (ecdh_PublicKey dh b))"

lemma handshake_agrees:
  assumes "x25519_pair dh a b"
  obtains wire key where
    "EncodeHandshake dh a (ecdh_PublicKey dh b) n pt info = Inr (wire, key)"
    "length wire = 69" "length key = 32"
    "DecodeHandshake dh wire b info = Inr (pt, key, ecdh_PublicKey dh a)"
proof -
  let ?pub = "ecdh_PublicKey dh a"
  let ?key = "hkdf_T (hkdfExtract ?pub (dh a (ecdh_PublicKey dh b))) (bytes_of info) 1"
  let ?sealed = "gcm_seal ?key (BuildNonce 0 n) (encode pt)"
  have pair: "length ?pub = 32" "dh b ?pub = dh a (ecdh_PublicKey dh b)"
    "\<not> list_all (\<lambda>x. x = 0) (dh a (ecdh_PublicKey dh b))"
    using assms by (auto simp: x25519_pair_def)
  have key: "length ?key = 32" using DeriveSessionKey_length DeriveSessionKey_total by blast
  have ok: "aes_key_ok ?key" using key by (rule aes_key_ok_32)
  have enc: "EncodeHandshake dh a (ecdh_PublicKey dh b) n pt info =
      Inr (?pub @ put64 n @ ?sealed, ?key)"
    using pair ok by (simp add: EncodeHandshake_def ECDH_def DeriveSessionKey_total Let_def)
  moreover have len: "length (?pub @ put64 n @ ?sealed) = 69" using pair ok by simp
  moreover have "DecodeHandshake dh (?pub @ put64 n @ ?sealed) b info = Inr (pt, ?key, ?pub)"
  proof -
    have "slice 0 32 (?pub @ put64 n @ ?sealed) = ?pub"
      "slice 32 40 (?pub @ put64 n @ ?sealed) = put64 n"
      "drop 40 (?pub @ put64 n @ ?sealed) = ?sealed"
      using pair(1) by (simp_all add: slice_def)
    then show ?thesis
      using pair ok len unfolding DecodeHandshake_def HandshakeWireSize_69 Let_def
      by (simp add: LoadX25519PublicKey_def ECDH_def DeriveSessionKey_total
          decode_encode_handshake)
  qed
  ultimately show thesis using that key by blast
qed

section \<open>Data frames\<close>

definition NonceCounterFieldSize :: nat where "NonceCounterFieldSize = 4"
definition DataHeaderSize :: nat where "DataHeaderSize = 4 + 2 + 4 + 4 + 1 + 2"
definition DataFrameOverhead :: nat where
  "DataFrameOverhead = NonceCounterFieldSize + DataHeaderSize + AuthTagSize"

record DataFrame =
  df_ConnectionID :: u32
  df_StreamID :: u16
  df_Sequence :: u32
  df_Ack :: u32
  df_Flags :: byte
  df_Payload :: bytes

text \<open>The payload length is converted to 16 bits, so it wraps for longer payloads.\<close>

definition encodePlaintext :: "DataFrame \<Rightarrow> bytes" where
  "encodePlaintext f =
     put32 (df_ConnectionID f) @ put16 (df_StreamID f) @ put32 (df_Sequence f) @
     put32 (df_Ack f) @ [df_Flags f] @ put16 (word_of_nat (length (df_Payload f))) @
     df_Payload f"

definition decodeDataPlaintext :: "bytes \<Rightarrow> proto_error + DataFrame" where
  "decodeDataPlaintext buf =
     (if length buf < DataHeaderSize then Inl ErrShortBuffer
      else
        let payloadLen = unat (get16 (slice 15 17 buf))
        in if length buf \<noteq> DataHeaderSize + payloadLen then Inl ErrShortBuffer
           else Inr \<lparr>df_ConnectionID = get32 (slice 0 4 buf), df_StreamID = get16 (slice 4 6 buf),
                     df_Sequence = get32 (slice 6 10 buf), df_Ack = get32 (slice 10 14 buf),
                     df_Flags = buf ! 14, df_Payload = take payloadLen (drop 17 buf)\<rparr>)"

definition EncodeDataFrame :: "bytes \<Rightarrow> u32 \<Rightarrow> DataFrame \<Rightarrow> proto_error + bytes" where
  "EncodeDataFrame sessionKey counter f =
     (let nonce = BuildNonce (df_ConnectionID f) (ucast counter)
      in bindR (Seal sessionKey nonce (encodePlaintext f)) (\<lambda>sealed.
         Inr (put32 counter @ sealed)))"

definition DecodeDataFrame :: "bytes \<Rightarrow> u32 \<Rightarrow> bytes \<Rightarrow> proto_error + DataFrame \<times> u32" where
  "DecodeDataFrame sessionKey connectionID wire =
     (if length wire < NonceCounterFieldSize then Inl ErrShortBuffer
      else
        let counter = get32 (slice 0 NonceCounterFieldSize wire);
            sealed = drop NonceCounterFieldSize wire;
            nonce = BuildNonce connectionID (ucast counter)
        in bindR (Open sessionKey nonce sealed) (\<lambda>pt.
           bindR (decodeDataPlaintext pt) (\<lambda>frame. Inr (frame, counter))))"

abbreviation payload_fits :: "DataFrame \<Rightarrow> bool" where
  "payload_fits f \<equiv> length (df_Payload f) < 65536"

lemma DataFrameOverhead_37: "DataFrameOverhead = 37"
  by (simp add: DataFrameOverhead_def NonceCounterFieldSize_def DataHeaderSize_def AuthTagSize_def)

lemma length_encodePlaintext [simp, wire_simps]:
  "length (encodePlaintext f) = 17 + length (df_Payload f)"
  by (simp add: encodePlaintext_def)

lemma encodePlaintext_length_field:
  "get16 (slice 15 17 (encodePlaintext f)) = word_of_nat (length (df_Payload f))"
  by (simp add: encodePlaintext_def slice_def)

lemma decode_encode_data:
  assumes "payload_fits f"
  shows "decodeDataPlaintext (encodePlaintext f) = Inr f"
proof -
  have "unat (word_of_nat (length (df_Payload f)) :: u16) = length (df_Payload f)"
    using assms by (rule unat_of_nat16)
  then show ?thesis
    by (simp add: decodeDataPlaintext_def encodePlaintext_length_field DataHeaderSize_def Let_def,
      simp add: encodePlaintext_def slice_def nth_append)
qed

text \<open>A payload of 64 KiB or more encodes with a wrapped length and is refused.\<close>

lemma decode_oversize_data:
  assumes "\<not> payload_fits f"
  shows "decodeDataPlaintext (encodePlaintext f) = Inl ErrShortBuffer"
proof -
  have "unat (word_of_nat (length (df_Payload f)) :: u16) < length (df_Payload f)"
    using assms by (simp add: unat_of_nat16_mod)
  then show ?thesis
    by (simp add: decodeDataPlaintext_def encodePlaintext_length_field DataHeaderSize_def Let_def)
qed

interpretation df: codec encodePlaintext decodeDataPlaintext payload_fits
  by unfold_locales (rule decode_encode_data)

text \<open>What the decoders accept: exactly the sealed encodings.\<close>

lemma decodeDataPlaintext_Inr:
  assumes "decodeDataPlaintext buf = Inr f"
  shows "length buf = 17 + length (df_Payload f)" "payload_fits f"
proof -
  have b: "length buf = 17 + unat (get16 (slice 15 17 buf))"
    and p: "df_Payload f = take (unat (get16 (slice 15 17 buf))) (drop 17 buf)"
    using assms by (auto simp: decodeDataPlaintext_def DataHeaderSize_def Let_def split: if_splits)
  have "unat (get16 (slice 15 17 buf)) < 65536"
    using unsigned_less [of "get16 (slice 15 17 buf)", where 'a = nat] by simp
  then show "length buf = 17 + length (df_Payload f)" "payload_fits f" using b p by simp_all
qed

lemma EncodeDataFrame_ok:
  "aes_key_ok key \<Longrightarrow> EncodeDataFrame key ctr f =
     Inr (put32 ctr @ gcm_seal key (BuildNonce (df_ConnectionID f) (ucast ctr)) (encodePlaintext f))"
  by (simp add: EncodeDataFrame_def Let_def)

lemma EncodeDataFrame_bad_key:
  "\<not> aes_key_ok key \<Longrightarrow> EncodeDataFrame key ctr f = Inl (ErrKeySize (length key))"
  by (simp add: EncodeDataFrame_def Seal_def Let_def)

lemma EncodeDataFrame_Inr:
  "EncodeDataFrame key ctr f = Inr wire \<longleftrightarrow> aes_key_ok key \<and>
     wire = put32 ctr @ gcm_seal key (BuildNonce (df_ConnectionID f) (ucast ctr)) (encodePlaintext f)"
  by (cases "aes_key_ok key") (auto simp: EncodeDataFrame_ok EncodeDataFrame_bad_key)

lemma length_EncodeDataFrame:
  "EncodeDataFrame key ctr f = Inr wire \<Longrightarrow> length wire = 37 + length (df_Payload f)"
  by (auto simp: EncodeDataFrame_Inr)

lemma DecodeDataFrame_sealed:
  "aes_key_ok key \<Longrightarrow>
   DecodeDataFrame key cid (put32 ctr @ gcm_seal key (BuildNonce cid (ucast ctr)) pt) =
     bindR (decodeDataPlaintext pt) (\<lambda>f. Inr (f, ctr))"
  by (simp add: DecodeDataFrame_def NonceCounterFieldSize_def slice_def Let_def)

lemma DecodeDataFrame_encoded:
  "EncodeDataFrame key ctr f = Inr wire \<Longrightarrow> payload_fits f \<Longrightarrow>
   DecodeDataFrame key (df_ConnectionID f) wire = Inr (f, ctr)"
  by (auto simp: EncodeDataFrame_Inr DecodeDataFrame_sealed decode_encode_data)

lemma DecodeDataFrame_Inr:
  assumes "DecodeDataFrame key cid wire = Inr (f, ctr)"
  obtains pt where "aes_key_ok key" "decodeDataPlaintext pt = Inr f"
    "drop 4 wire = gcm_seal key (BuildNonce cid (ucast ctr)) pt" "ctr = get32 (take 4 wire)"
    "4 \<le> length wire"
  using assms
  by (auto simp: DecodeDataFrame_def NonceCounterFieldSize_def slice_def Let_def bindR_eq_Inr
      Open_Inr split: if_splits)

text \<open>The layout of the plaintext is canonical: decoding and encoding again gives the same bytes.\<close>

lemma slice_append: "i \<le> j \<Longrightarrow> j \<le> k \<Longrightarrow> slice i j b @ slice j k b = slice i k b"
proof -
  assume le: "i \<le> j" "j \<le> k"
  have "take (k - i) (drop i b) = take (j - i) (drop i b) @ take (k - j) (drop (j - i) (drop i b))"
    using take_add [of "j - i" "k - j" "drop i b"] le by simp
  then show ?thesis using le by (simp add: slice_def)
qed

lemma decodeDataPlaintext_canonical:
  assumes "decodeDataPlaintext buf = Inr f"
  shows "encodePlaintext f = buf"
proof -
  define n where "n = unat (get16 (slice 15 17 buf))"
  have len: "length buf = 17 + n"
    and f: "f = \<lparr>df_ConnectionID = get32 (slice 0 4 buf), df_StreamID = get16 (slice 4 6 buf),
      df_Sequence = get32 (slice 6 10 buf), df_Ack = get32 (slice 10 14 buf),
      df_Flags = buf ! 14, df_Payload = take n (drop 17 buf)\<rparr>"
    using assms by (auto simp: decodeDataPlaintext_def DataHeaderSize_def Let_def n_def split: if_splits)
  have p: "df_Payload f = slice 17 (17 + n) buf" "length (df_Payload f) = n"
    using len by (simp_all add: f slice_def)
  have flag: "[buf ! 14] = slice 14 15 buf"
    using len by (simp add: slice_def take_Suc_conv_app_nth hd_drop_conv_nth [symmetric] take_Suc)
  have "length (slice 15 17 buf) = 2" using len by (simp add: length_slice)
  then have nn: "put16 (word_of_nat n) = slice 15 17 buf" by (simp add: n_def put16_get16)
  have "encodePlaintext f = slice 0 4 buf @ slice 4 6 buf @ slice 6 10 buf @ slice 10 14 buf @
      slice 14 15 buf @ slice 15 17 buf @ slice 17 (17 + n) buf"
    unfolding encodePlaintext_def p nn using len
    by (simp add: f put32_get32 put16_get16 length_slice flag nn)
  also have "\<dots> = slice 0 (17 + n) buf" by (simp add: slice_append)
  also have "\<dots> = buf" using len by (simp add: slice_def)
  finally show ?thesis .
qed

section \<open>Properties\<close>

text \<open>C22: A data frame sealed with a usable key and a payload below 64 KiB comes back unchanged with
  its counter, and its wire form is 37 bytes longer than the payload.\<close>

theorem data_frame_roundtrip:
  assumes "aes_key_ok key" "payload_fits f"
  shows "\<exists>wire. EncodeDataFrame key ctr f = Inr wire \<and>
    length wire = DataFrameOverhead + length (df_Payload f) \<and>
    DecodeDataFrame key (df_ConnectionID f) wire = Inr (f, ctr)"
  using EncodeDataFrame_ok [OF assms(1), of ctr f] length_EncodeDataFrame DecodeDataFrame_encoded assms(2)
  by (metis DataFrameOverhead_37)

theorem data_frame_roundtrip_witness:
  "\<exists>wire. EncodeDataFrame (replicate 32 7) 5 \<lparr>df_ConnectionID = 9, df_StreamID = 0, df_Sequence = 3,
      df_Ack = 0, df_Flags = 2, df_Payload = [1, 2, 3]\<rparr> = Inr wire \<and> length wire = 40 \<and>
    DecodeDataFrame (replicate 32 7) 9 wire = Inr (\<lparr>df_ConnectionID = 9, df_StreamID = 0,
      df_Sequence = 3, df_Ack = 0, df_Flags = 2, df_Payload = [1, 2, 3]\<rparr>, 5)"
  using data_frame_roundtrip [of "replicate 32 7" "\<lparr>df_ConnectionID = 9, df_StreamID = 0,
    df_Sequence = 3, df_Ack = 0, df_Flags = 2, df_Payload = [1, 2, 3]\<rparr>" 5]
  by (simp add: aes_key_ok_def DataFrameOverhead_37)

text \<open>C20: \<open>DecodeDataFrame\<close> accepts exactly the sealed encodings under its key, its connection id and
  the counter in front; every other byte string is refused.\<close>

theorem data_frame_accepted_iff:
  "DecodeDataFrame key cid wire = Inr (f, ctr) \<longleftrightarrow> aes_key_ok key \<and> payload_fits f \<and>
     wire = put32 ctr @ gcm_seal key (BuildNonce cid (ucast ctr)) (encodePlaintext f)"
proof
  assume dec: "DecodeDataFrame key cid wire = Inr (f, ctr)"
  then obtain pt where pt: "aes_key_ok key" "decodeDataPlaintext pt = Inr f"
    "drop 4 wire = gcm_seal key (BuildNonce cid (ucast ctr)) pt" "ctr = get32 (take 4 wire)"
    "4 \<le> length wire"
    by (rule DecodeDataFrame_Inr)
  have "put32 ctr = take 4 wire" using pt(4,5) put32_get32 [of "take 4 wire"] by simp
  moreover have "encodePlaintext f = pt" using pt(2) by (rule decodeDataPlaintext_canonical)
  ultimately show "aes_key_ok key \<and> payload_fits f \<and>
     wire = put32 ctr @ gcm_seal key (BuildNonce cid (ucast ctr)) (encodePlaintext f)"
    using pt(1-3) decodeDataPlaintext_Inr(2) by (metis append_take_drop_id)
qed (simp add: DecodeDataFrame_sealed decode_encode_data)

text \<open>A payload of 64 KiB or more is encoded without an error, with a length field that wrapped;
  the receiver, under whatever connection id that opens it, refuses the frame.\<close>

theorem oversize_payload_lost:
  assumes "aes_key_ok key" "65536 \<le> length (df_Payload f)"
  shows "\<exists>wire. EncodeDataFrame key ctr f = Inr wire \<and>
    DecodeDataFrame key (df_ConnectionID f) wire = Inl ErrShortBuffer"
  using assms by (simp add: EncodeDataFrame_ok DecodeDataFrame_sealed decode_oversize_data)

theorem oversize_payload_lost_witness:
  "\<exists>wire. EncodeDataFrame (replicate 16 0) 0 \<lparr>df_ConnectionID = 1, df_StreamID = 0, df_Sequence = 0,
      df_Ack = 0, df_Flags = 2, df_Payload = replicate 65536 0\<rparr> = Inr wire \<and>
    DecodeDataFrame (replicate 16 0) 1 wire = Inl ErrShortBuffer"
  using oversize_payload_lost [of "replicate 16 0" "\<lparr>df_ConnectionID = 1, df_StreamID = 0,
    df_Sequence = 0, df_Ack = 0, df_Flags = 2, df_Payload = replicate 65536 0\<rparr>" 0]
  by (simp add: aes_key_ok_def)

text \<open>Any change to the tag of a frame makes \<open>DecodeDataFrame\<close> fail with \<open>ErrDecryptFailed\<close>.\<close>

theorem changed_tag_refused:
  assumes "EncodeDataFrame key ctr f = Inr wire" "length tag = 16"
    "tag \<noteq> drop (length wire - 16) wire"
  shows "DecodeDataFrame key (df_ConnectionID f) (take (length wire - 16) wire @ tag) =
    Inl ErrDecryptFailed"
proof -
  let ?n = "BuildNonce (df_ConnectionID f) (ucast ctr)" and ?p = "encodePlaintext f"
  have key: "aes_key_ok key" and wire: "wire = put32 ctr @ gcm_seal key ?n ?p"
    using assms(1) by (simp_all add: EncodeDataFrame_Inr)
  let ?ct = "take (length ?p) (gcm_seal key ?n ?p)"
  have len: "length (gcm_seal key ?n ?p) = length ?p + 16" using key by simp
  have w: "take (length wire - 16) wire = put32 ctr @ ?ct"
    "drop (length wire - 16) wire = drop (length ?p) (gcm_seal key ?n ?p)"
    using len by (simp_all add: wire)
  have "?ct @ tag \<noteq> gcm_seal key ?n ?p"
    using assms(3) len unfolding w by (metis append_take_drop_id same_append_eq)
  then have "gcm_open key ?n (?ct @ tag) = None"
    using len by (intro gcm_open_changed_tag [where p = ?p, OF key assms(2)]) simp_all
  then show ?thesis
    using key by (simp add: w DecodeDataFrame_def NonceCounterFieldSize_def slice_def Open_def Let_def)
qed

theorem changed_tag_refused_witness:
  "\<exists>wire tag. EncodeDataFrame (replicate 32 1) 0 \<lparr>df_ConnectionID = 1, df_StreamID = 0,
      df_Sequence = 0, df_Ack = 0, df_Flags = 2, df_Payload = [65]\<rparr> = Inr wire \<and>
    DecodeDataFrame (replicate 32 1) 1 (take (length wire - 16) wire @ tag) = Inl ErrDecryptFailed"
proof -
  let ?f = "\<lparr>df_ConnectionID = 1, df_StreamID = 0, df_Sequence = 0, df_Ack = 0, df_Flags = 2,
    df_Payload = [65]\<rparr>"
  obtain wire where w: "EncodeDataFrame (replicate 32 1) 0 ?f = Inr wire"
    using EncodeDataFrame_ok [of "replicate 32 1" 0 ?f] by (simp add: aes_key_ok_def)
  let ?tag = "map (\<lambda>b. b + 1) (drop (length wire - 16) wire)"
  have len: "length wire = 38" using length_EncodeDataFrame [OF w] by simp
  then have "hd ?tag \<noteq> hd (drop (length wire - 16) wire)" by (simp add: hd_map)
  then have "?tag \<noteq> drop (length wire - 16) wire" by metis
  then show ?thesis using changed_tag_refused [OF w, of ?tag] w len by auto
qed

text \<open>C21: A handshake frame is 69 bytes; the receiver with the peer's private key recovers the
  plaintext, the sender's ephemeral public key and the same 32-byte session key.\<close>

theorem handshake_roundtrip:
  assumes "x25519_pair dh a b"
  shows "\<exists>wire key. EncodeHandshake dh a (ecdh_PublicKey dh b) n pt info = Inr (wire, key) \<and>
    length wire = HandshakeWireSize \<and> length key = 32 \<and>
    DecodeHandshake dh wire b info = Inr (pt, key, ecdh_PublicKey dh a)"
  using handshake_agrees [OF assms, of n pt info] by (metis HandshakeWireSize_69)

theorem handshake_roundtrip_witness:
  "\<exists>wire key. EncodeHandshake (map2 (+)) (replicate 32 3)
      (ecdh_PublicKey (map2 (+)) (replicate 32 5)) 0
      \<lparr>hp_DeviceID = 77, hp_ConnectionID = 0, hp_Flags = FlagOpen\<rparr> ''info'' = Inr (wire, key) \<and>
    length wire = HandshakeWireSize \<and> length key = 32 \<and>
    DecodeHandshake (map2 (+)) wire (replicate 32 5) ''info'' =
      Inr (\<lparr>hp_DeviceID = 77, hp_ConnectionID = 0, hp_Flags = FlagOpen\<rparr>, key,
           ecdh_PublicKey (map2 (+)) (replicate 32 3))"
  by (rule handshake_roundtrip)
    code_simp

end
