(* ===== verification/Replay.thy ===== *)
theory Replay
  imports Prelude
begin

text \<open>
  \<open>transport/replay.go\<close>: the sliding anti-replay window. The abstract specification is a set
  of accepted counters; the bitmap refines it. The contract \<open>anti_replay\<close> states what the
  session relies on and gives that no counter is accepted twice in one run.
\<close>

section \<open>Model\<close>

record ReplayWindow =
  rw_size :: u32
  rw_highest :: u32
  rw_seen :: u64          \<comment> \<open>bit \<open>i\<close>: \<open>highest - i\<close> was seen\<close>
  rw_initiated :: bool

definition DefaultReplayWindowSize :: u32 where "DefaultReplayWindowSize = 64"

definition NewReplayWindow :: ReplayWindow where
  "NewReplayWindow = \<lparr>rw_size = DefaultReplayWindowSize, rw_highest = 0, rw_seen = 0,
     rw_initiated = False\<rparr>"

definition CheckAndMark :: "u32 \<Rightarrow> ReplayWindow \<Rightarrow> bool \<times> ReplayWindow" where
  "CheckAndMark counter w =
     (if \<not> rw_initiated w then
        (True, w\<lparr>rw_initiated := True, rw_highest := counter, rw_seen := 1\<rparr>)
      else if counter > rw_highest w then
        let shift = counter - rw_highest w;
            seen = (if shift \<ge> 64 then 0 else push_bit (unat shift) (rw_seen w))
        in (True, w\<lparr>rw_seen := seen OR 1, rw_highest := counter\<rparr>)
      else if counter = rw_highest w then (False, w)
      else
        let diff = rw_highest w - counter
        in if diff \<ge> rw_size w \<or> diff \<ge> 64 then (False, w)
           else
             let b = push_bit (unat diff) 1
             in if rw_seen w AND b \<noteq> 0 then (False, w)
                else (True, w\<lparr>rw_seen := rw_seen w OR b\<rparr>))"

definition replay_Reset :: "ReplayWindow \<Rightarrow> ReplayWindow" where
  "replay_Reset w = w\<lparr>rw_initiated := False, rw_highest := 0, rw_seen := 0\<rparr>"

section \<open>The contract\<close>

text \<open>The verdicts of a stateful check on a list of counters.\<close>

fun verdicts :: "('c \<Rightarrow> 'w \<Rightarrow> bool \<times> 'w) \<Rightarrow> 'c list \<Rightarrow> 'w \<Rightarrow> bool list" where
  "verdicts check [] w = []"
| "verdicts check (c # cs) w = (case check c w of (b, w') \<Rightarrow> b # verdicts check cs w')"

definition accepted_of :: "'c list \<Rightarrow> bool list \<Rightarrow> 'c list" where
  "accepted_of cs bs = map fst (filter snd (zip cs bs))"

lemma accepted_of_simps [simp]:
  "accepted_of [] bs = []"
  "accepted_of (c # cs) (b # bs) = (if b then c # accepted_of cs bs else accepted_of cs bs)"
  by (simp_all add: accepted_of_def)

text \<open>
  \<open>check\<close> answers whether a counter is acceptable and records it; \<open>repr w A\<close> says that \<open>A\<close> is
  the set of counters recorded since the last reset.
\<close>

locale anti_replay =
  fixes check :: "'c \<Rightarrow> 'w \<Rightarrow> bool \<times> 'w"
    and repr :: "'w \<Rightarrow> 'c set \<Rightarrow> bool"
    and fresh :: "'c set \<Rightarrow> 'c \<Rightarrow> bool"
  assumes check_verdict: "repr w A \<Longrightarrow> fst (check c w) \<longleftrightarrow> fresh A c"
    and check_repr: "repr w A \<Longrightarrow> repr (snd (check c w)) (if fresh A c then insert c A else A)"
    and fresh_new: "fresh A c \<Longrightarrow> c \<notin> A"
begin

lemma accepted_once:
  "repr w A \<Longrightarrow>
   distinct (accepted_of cs (verdicts check cs w)) \<and>
   set (accepted_of cs (verdicts check cs w)) \<inter> A = {}"
proof (induction cs arbitrary: w A)
  case Nil
  then show ?case by simp
next
  case (Cons c cs)
  obtain b w' where ch: "check c w = (b, w')" by (cases "check c w")
  have b: "b \<longleftrightarrow> fresh A c" using check_verdict [OF Cons.prems, of c] ch by simp
  have r: "repr w' (if b then insert c A else A)"
    using check_repr [OF Cons.prems, of c] ch b by simp
  show ?case using Cons.IH [OF r] ch b fresh_new [of A c] by auto
qed

lemma rejected_again: "repr w A \<Longrightarrow> c \<in> A \<Longrightarrow> \<not> fst (check c w)"
  using check_verdict fresh_new by blast

end

section \<open>Refinement of the accepted set\<close>

text \<open>
  The window represents the set \<open>A\<close> of accepted counters: \<open>highest\<close> is its maximum and the
  bitmap its part in the last 64 counters.
\<close>

definition window_repr :: "ReplayWindow \<Rightarrow> u32 set \<Rightarrow> bool" where
  "window_repr w A \<longleftrightarrow> rw_size w = DefaultReplayWindowSize \<and> (rw_initiated w \<longleftrightarrow> A \<noteq> {}) \<and>
     (rw_initiated w \<longrightarrow> rw_highest w \<in> A \<and> (\<forall>a \<in> A. unat a \<le> unat (rw_highest w)) \<and>
        (\<forall>i < 64. bit (rw_seen w) i \<longleftrightarrow> (\<exists>a \<in> A. unat a + i = unat (rw_highest w))))"

text \<open>The abstract verdict: a new maximum, or a new counter less than 64 behind the maximum.\<close>

definition acceptable :: "u32 set \<Rightarrow> u32 \<Rightarrow> bool" where
  "acceptable A c \<longleftrightarrow> c \<notin> A \<and> (\<forall>a \<in> A. unat a < unat c + 64)"

lemma window_repr_New: "window_repr NewReplayWindow {}"
  by (simp add: window_repr_def NewReplayWindow_def)

lemma window_repr_Reset: "window_repr w A \<Longrightarrow> window_repr (replay_Reset w) {}"
  by (simp add: window_repr_def replay_Reset_def)

text \<open>The three ways a counter meets an initiated window.\<close>

lemma CheckAndMark_first:
  "\<not> rw_initiated w \<Longrightarrow> window_repr w A \<Longrightarrow>
   A = {} \<and> fst (CheckAndMark c w) \<and> window_repr (snd (CheckAndMark c w)) {c}"
  by (auto simp: CheckAndMark_def window_repr_def bit_simps)

lemma bit_advance:
  "bit ((if shift \<ge> 64 then 0 else push_bit (unat shift) seen) OR 1 :: u64) i \<longleftrightarrow>
     i = 0 \<or> i < 64 \<and> unat shift \<le> i \<and> bit seen (i - unat shift)" for shift :: u32
  by (auto simp: bit_simps word_le_nat_alt)

lemma CheckAndMark_advance:
  assumes w: "rw_initiated w" "window_repr w A" and gt: "rw_highest w < c"
  shows "fst (CheckAndMark c w)" "window_repr (snd (CheckAndMark c w)) (insert c A)"
    "acceptable A c"
proof -
  let ?h = "rw_highest w"
  have sub: "unat (c - ?h) = unat c - unat ?h" using gt by (intro unat_sub) simp
  have lt: "unat ?h < unat c" using gt by (simp add: word_less_nat_alt)
  have le: "\<forall>a \<in> A. unat a \<le> unat ?h"
    and bits: "\<forall>i < 64. bit (rw_seen w) i \<longleftrightarrow> (\<exists>a \<in> A. unat a + i = unat ?h)"
    using w by (auto simp: window_repr_def)
  have res: "CheckAndMark c w = (True, w\<lparr>rw_seen := (if c - ?h \<ge> 64 then 0
      else push_bit (unat (c - ?h)) (rw_seen w)) OR 1, rw_highest := c\<rparr>)"
    using w(1) gt by (simp add: CheckAndMark_def Let_def)
  have "bit (rw_seen (snd (CheckAndMark c w))) i \<longleftrightarrow> (\<exists>a \<in> insert c A. unat a + i = unat c)"
    if "i < 64" for i
  proof -
    have "(\<exists>a \<in> A. unat a + i = unat c) \<longleftrightarrow>
        unat c - unat ?h \<le> i \<and> (\<exists>a \<in> A. unat a + (i - (unat c - unat ?h)) = unat ?h)"
      using le lt by force
    moreover have "\<dots> \<longleftrightarrow> unat c - unat ?h \<le> i \<and> bit (rw_seen w) (i - (unat c - unat ?h))"
      using bits that by auto
    ultimately show ?thesis
      unfolding res using that by (simp add: bit_advance sub)
  qed
  then show "window_repr (snd (CheckAndMark c w)) (insert c A)"
    using w(2) w(1) le lt by (auto simp: window_repr_def res)
  show "fst (CheckAndMark c w)" by (simp add: res)
  show "acceptable A c" using le lt by (force simp: acceptable_def)
qed

lemma and_single_bit:
  fixes x :: u64
  assumes "n < 64"
  shows "x AND push_bit n 1 \<noteq> 0 \<longleftrightarrow> bit x n"
proof -
  have "x AND push_bit n 1 = 0 \<longleftrightarrow> \<not> bit x n"
  proof
    assume "x AND push_bit n 1 = 0"
    then have "\<not> bit (x AND push_bit n 1) n" by simp
    then show "\<not> bit x n" using assms by (simp add: bit_simps)
  next
    assume "\<not> bit x n"
    then show "x AND push_bit n 1 = 0" by (intro bit_word_eqI) (auto simp: bit_simps)
  qed
  then show ?thesis by simp
qed

text \<open>A counter at or behind the maximum is accepted exactly when its bit is within the window and clear.\<close>

lemma CheckAndMark_behind_eq:
  assumes w: "rw_initiated w" "window_repr w A" and le: "c \<le> rw_highest w"
  defines "d \<equiv> unat (rw_highest w) - unat c"
  shows "acceptable A c \<longleftrightarrow> c \<notin> A \<and> d < 64"
    "CheckAndMark c w = (if acceptable A c
      then (True, w\<lparr>rw_seen := rw_seen w OR push_bit d 1\<rparr>) else (False, w))"
proof -
  let ?h = "rw_highest w"
  have size: "rw_size w = 64" and top: "?h \<in> A" and max: "\<forall>a \<in> A. unat a \<le> unat ?h"
    and bits: "\<And>i. i < 64 \<Longrightarrow> bit (rw_seen w) i \<longleftrightarrow> (\<exists>a \<in> A. unat a + i = unat ?h)"
    using w by (auto simp: window_repr_def DefaultReplayWindowSize_def)
  have cle: "unat c \<le> unat ?h" using le by (simp add: word_le_nat_alt)
  have sub: "unat (?h - c) = d" using le by (simp add: unat_sub d_def)
  have near: "(?h - c \<ge> 64) \<longleftrightarrow> \<not> d < 64" by (auto simp: word_le_nat_alt sub)
  have mem: "bit (rw_seen w) d \<longleftrightarrow> c \<in> A" if "d < 64"
  proof -
    have "unat a + d = unat ?h \<longleftrightarrow> a = c" for a
      using cle by (auto simp: word_unat_eq_iff d_def)
    then show ?thesis using bits [OF that] by simp
  qed
  show acc: "acceptable A c \<longleftrightarrow> c \<notin> A \<and> d < 64"
    using top max cle by (fastforce simp: acceptable_def d_def)
  show "CheckAndMark c w = (if acceptable A c
      then (True, w\<lparr>rw_seen := rw_seen w OR push_bit d 1\<rparr>) else (False, w))"
  proof (cases "c = ?h")
    case True
    then show ?thesis using w(1) top by (simp add: CheckAndMark_def acceptable_def)
  next
    case False
    then have "\<not> ?h < c" using le by simp
    then show ?thesis
      using w(1) False size
      by (simp add: CheckAndMark_def Let_def near acc sub and_single_bit mem del: push_bit_of_1)
  qed
qed

lemma CheckAndMark_behind:
  assumes w: "rw_initiated w" "window_repr w A" and le: "c \<le> rw_highest w"
  shows "fst (CheckAndMark c w) \<longleftrightarrow> acceptable A c"
    "window_repr (snd (CheckAndMark c w)) (if acceptable A c then insert c A else A)"
proof -
  let ?h = "rw_highest w"
  let ?d = "unat ?h - unat c"
  note acc = CheckAndMark_behind_eq(1) [OF assms] and res = CheckAndMark_behind_eq(2) [OF assms]
  have max: "\<forall>a \<in> A. unat a \<le> unat ?h"
    and bits: "\<And>i. i < 64 \<Longrightarrow> bit (rw_seen w) i \<longleftrightarrow> (\<exists>a \<in> A. unat a + i = unat ?h)"
    using w by (auto simp: window_repr_def)
  have cle: "unat c \<le> unat ?h" using le by (simp add: word_le_nat_alt)
  show "fst (CheckAndMark c w) \<longleftrightarrow> acceptable A c" by (simp add: res)
  show "window_repr (snd (CheckAndMark c w)) (if acceptable A c then insert c A else A)"
  proof (cases "acceptable A c")
    case False
    then show ?thesis using w(2) by (simp add: res)
  next
    case True
    then have d: "?d < 64" by (simp add: acc)
    have "bit (rw_seen w OR push_bit ?d 1) i \<longleftrightarrow> (\<exists>a \<in> insert c A. unat a + i = unat ?h)"
      if "i < 64" for i
      using that d cle by (auto simp: bits bit_simps)
    then show ?thesis
      using True w max cle by (simp add: res window_repr_def)
  qed
qed

lemma CheckAndMark_refines:
  assumes "window_repr w A"
  shows "fst (CheckAndMark c w) \<longleftrightarrow> acceptable A c"
    "window_repr (snd (CheckAndMark c w)) (if acceptable A c then insert c A else A)"
proof -
  consider "\<not> rw_initiated w" | "rw_initiated w" "rw_highest w < c"
    | "rw_initiated w" "c \<le> rw_highest w" by fastforce
  then have "(fst (CheckAndMark c w) \<longleftrightarrow> acceptable A c) \<and>
    window_repr (snd (CheckAndMark c w)) (if acceptable A c then insert c A else A)"
  proof cases
    case 1
    then show ?thesis using CheckAndMark_first [OF 1 assms, of c] by (simp add: acceptable_def)
  next
    case 2
    then show ?thesis using CheckAndMark_advance [OF 2(1) assms 2(2)] by simp
  next
    case 3
    then show ?thesis using CheckAndMark_behind [OF 3(1) assms 3(2)] by simp
  qed
  then show "fst (CheckAndMark c w) \<longleftrightarrow> acceptable A c"
    "window_repr (snd (CheckAndMark c w)) (if acceptable A c then insert c A else A)" by simp_all
qed

interpretation rw: anti_replay CheckAndMark window_repr acceptable
  by unfold_locales (erule CheckAndMark_refines, erule CheckAndMark_refines, simp add: acceptable_def)

text \<open>The window after a list of counters, and the set it stands for.\<close>

definition window_after :: "u32 list \<Rightarrow> ReplayWindow \<Rightarrow> ReplayWindow" where
  "window_after cs w = foldl (\<lambda>w c. snd (CheckAndMark c w)) w cs"

lemma window_after_run:
  "window_repr w A \<Longrightarrow>
   window_repr (window_after cs w) (A \<union> set (accepted_of cs (verdicts CheckAndMark cs w)))"
proof (induction cs arbitrary: w A)
  case (Cons c cs)
  obtain b w' where ch: "CheckAndMark c w = (b, w')" by (cases "CheckAndMark c w")
  have "window_repr w' (if b then insert c A else A)"
    using rw.check_verdict [OF Cons.prems, of c] rw.check_repr [OF Cons.prems, of c] ch by simp
  from Cons.IH [OF this] show ?case using ch by (cases b) (simp_all add: window_after_def)
qed (simp add: window_after_def)

lemma window_after_repr:
  "window_repr (window_after cs NewReplayWindow)
     (set (accepted_of cs (verdicts CheckAndMark cs NewReplayWindow)))"
  using window_after_run [OF window_repr_New] by simp

section \<open>Properties\<close>

text \<open>C23: After any run of \<open>CheckAndMark\<close> on a new window, the next verdict is the one of the
  set of counters accepted so far: a counter is accepted exactly when it is not in the set and less
  than 64 behind every member of it.\<close>

theorem replay_verdict_exact:
  "fst (CheckAndMark c (window_after cs NewReplayWindow)) =
   acceptable (set (accepted_of cs (verdicts CheckAndMark cs NewReplayWindow))) c"
  using rw.check_verdict [OF window_after_repr] .

text \<open>Whatever counters arrive and however often, no counter is accepted twice.\<close>

theorem replay_accepts_once:
  "distinct (accepted_of cs (verdicts CheckAndMark cs NewReplayWindow))"
  using rw.accepted_once [OF window_repr_New] by blast

end
