(* ===== verification/Reorder.thy ===== *)
theory Reorder
  imports Prelude
begin

text \<open>
  \<open>transport/reorder.go\<close>: the reorder buffer. The specification is the sender's stream: after
  any set \<open>S\<close> of its frames arrived, in any order and with duplicates, exactly the payloads up
  to the first missing sequence number have been delivered, in order. The contract
  \<open>reassembly\<close> states one insertion and gives the statement for a whole run.
\<close>

section \<open>Model\<close>

record ReorderBuffer =
  rb_nextExpected :: u32
  rb_pending :: "u32 \<rightharpoonup> bytes"
  rb_started :: bool

definition NewReorderBuffer :: "u32 \<Rightarrow> ReorderBuffer" where
  "NewReorderBuffer startSequence =
     \<lparr>rb_nextExpected = startSequence, rb_pending = Map.empty, rb_started = True\<rparr>"

text \<open>The delivery loop of \<open>Insert\<close>; each round takes an entry out of the finite map.\<close>

function flush :: "bytes list \<Rightarrow> u32 \<Rightarrow> (u32 \<rightharpoonup> bytes) \<Rightarrow> bytes list \<times> u32 \<times> (u32 \<rightharpoonup> bytes)" where
  "flush ready next pending =
     (case pending next of
        None \<Rightarrow> (ready, next, pending)
      | Some p \<Rightarrow> flush (ready @ [p]) (next + 1) (pending(next := None)))"
  by pat_completeness auto
termination
proof (relation "measure (\<lambda>(ready, next, pending). card (dom pending))", goal_cases)
  case 1
  then show ?case by simp
next
  case (2 ready "next" pending p)
  have "card (dom pending - {next}) < card (dom pending)"
    using 2 by (intro card_Diff1_less) auto
  then show ?case by simp
qed

declare flush.simps [simp del]

definition Insert :: "u32 \<Rightarrow> bytes \<Rightarrow> ReorderBuffer \<Rightarrow> bytes list \<times> ReorderBuffer" where
  "Insert sequence payload r0 =
     (let r = (if rb_started r0 then r0 else r0\<lparr>rb_nextExpected := sequence, rb_started := True\<rparr>)
      in if sequence < rb_nextExpected r then ([], r)
         else if rb_pending r sequence \<noteq> None then ([], r)
         else case flush [] (rb_nextExpected r) ((rb_pending r)(sequence \<mapsto> payload)) of
                (ready, next, pending) \<Rightarrow>
                  (ready, r\<lparr>rb_nextExpected := next, rb_pending := pending\<rparr>))"

definition PendingCount :: "ReorderBuffer \<Rightarrow> nat" where
  "PendingCount r = card (dom (rb_pending r))"

definition NextExpected :: "ReorderBuffer \<Rightarrow> u32" where
  "NextExpected r = rb_nextExpected r"

section \<open>The first missing number\<close>

definition mex :: "nat set \<Rightarrow> nat" where
  "mex S = (LEAST n. n \<notin> S)"

lemma mex_notin: "finite S \<Longrightarrow> mex S \<notin> S"
  unfolding mex_def by (rule LeastI_ex) (rule ex_new_if_finite, simp_all)

lemma less_mex: "n < mex S \<Longrightarrow> n \<in> S"
  unfolding mex_def using not_less_Least by blast

lemma mex_eqI: "m \<notin> S \<Longrightarrow> (\<And>n. n < m \<Longrightarrow> n \<in> S) \<Longrightarrow> mex S = m"
  unfolding mex_def by (rule Least_equality) (auto simp: not_less [symmetric])

lemma mex_le: "m \<notin> S \<Longrightarrow> mex S \<le> m"
  unfolding mex_def by (rule Least_le)

lemma mex_mono: "S \<subseteq> T \<Longrightarrow> finite T \<Longrightarrow> mex S \<le> mex T"
  using mex_le [of "mex T" S] mex_notin [of T] by auto

lemma mex_empty [simp]: "mex {} = 0"
  by (rule mex_eqI) simp_all

lemma mex_lessThan [simp]: "mex {..<n} = n"
  by (rule mex_eqI) simp_all

lemma mex_insert_other: "finite S \<Longrightarrow> n \<noteq> mex S \<Longrightarrow> mex (insert n S) = mex S"
  by (rule mex_eqI) (auto simp: mex_notin less_mex)

section \<open>The contract\<close>

text \<open>A run of insertions, collecting what each delivers.\<close>

fun insert_all ::
  "('k \<Rightarrow> 'p \<Rightarrow> 'r \<Rightarrow> 'p list \<times> 'r) \<Rightarrow> ('k \<times> 'p) list \<Rightarrow> 'r \<Rightarrow> 'p list \<times> 'r" where
  "insert_all ins [] r = ([], r)"
| "insert_all ins ((k, p) # xs) r =
     (case ins k p r of (ready, r') \<Rightarrow>
        case insert_all ins xs r' of (rest, r'') \<Rightarrow> (ready @ rest, r''))"

text \<open>
  \<open>repr f r S\<close>: the buffer \<open>r\<close> has received exactly the frames numbered \<open>S\<close> of the stream \<open>f\<close>.
  A frame with a number received before may carry any payload.
\<close>

locale reassembly =
  fixes ins :: "'k \<Rightarrow> 'p \<Rightarrow> 'r \<Rightarrow> 'p list \<times> 'r"
    and key :: "nat \<Rightarrow> 'k"
    and bound :: nat
    and repr :: "(nat \<Rightarrow> 'p) \<Rightarrow> 'r \<Rightarrow> nat set \<Rightarrow> bool"
  assumes ins_spec: "repr f r S \<Longrightarrow> n < bound \<Longrightarrow> n \<in> S \<or> p = f n \<Longrightarrow> ins (key n) p r = (ready, r') \<Longrightarrow>
      ready = map f [mex S..<mex (insert n S)] \<and> repr f r' (insert n S)"
    and repr_finite: "repr f r S \<Longrightarrow> finite S"
begin

lemma insert_all_spec:
  "repr f r S \<Longrightarrow> \<forall>n \<in> set ns. n < bound \<Longrightarrow>
   insert_all ins (map (\<lambda>n. (key n, f n)) ns) r = (out, r') \<Longrightarrow>
   out = map f [mex S..<mex (S \<union> set ns)] \<and> repr f r' (S \<union> set ns)"
proof (induction ns arbitrary: r S out)
  case Nil
  then show ?case by simp
next
  case (Cons n ns)
  obtain ready r1 where one: "ins (key n) (f n) r = (ready, r1)" by (cases "ins (key n) (f n) r")
  obtain rest where rest: "insert_all ins (map (\<lambda>n. (key n, f n)) ns) r1 = (rest, r')"
    "out = ready @ rest" using Cons.prems(3) one by (auto split: prod.splits)
  have r1: "ready = map f [mex S..<mex (insert n S)]" "repr f r1 (insert n S)"
    using ins_spec [OF Cons.prems(1) _ _ one] Cons.prems(2) by auto
  have IH: "rest = map f [mex (insert n S)..<mex (insert n S \<union> set ns)]"
    "repr f r' (insert n S \<union> set ns)"
    using Cons.IH [OF r1(2) _ rest(1)] Cons.prems(2) by auto
  have fin: "finite (insert n S \<union> set ns)" using repr_finite [OF IH(2)] .
  have "[mex S..<mex (insert n S)] @ [mex (insert n S)..<mex (insert n S \<union> set ns)] =
      [mex S..<mex (insert n S \<union> set ns)]"
    using mex_mono [of S "insert n S"] mex_mono [of "insert n S" "insert n S \<union> set ns"] fin
    by (metis Un_upper1 finite_Un le_Suc_ex subset_insertI upt_add_eq_append)
  then show ?case using r1(1) IH rest(2) by (simp flip: map_append)
qed

lemma insert_all_complete:
  assumes "repr f r {}" "set ns = {..<n}" "n \<le> bound"
  shows "fst (insert_all ins (map (\<lambda>n. (key n, f n)) ns) r) = map f [0..<n]"
  using insert_all_spec [OF assms(1), of ns] assms(2,3)
  by (cases "insert_all ins (map (\<lambda>n. (key n, f n)) ns) r") auto

text \<open>While one frame is missing nothing behind it is delivered.\<close>

lemma insert_all_blocked:
  assumes "repr f r S" "\<forall>n \<in> set ns. n < bound" "mex S \<notin> set ns"
  shows "fst (insert_all ins (map (\<lambda>n. (key n, f n)) ns) r) = []"
proof -
  obtain out r' where run: "insert_all ins (map (\<lambda>n. (key n, f n)) ns) r = (out, r')"
    by (cases "insert_all ins (map (\<lambda>n. (key n, f n)) ns) r")
  have "mex (S \<union> set ns) = mex S"
    using assms(3) mex_notin [OF repr_finite [OF assms(1)]] by (intro mex_eqI) (auto dest: less_mex)
  then show ?thesis using insert_all_spec [OF assms(1,2) run] run by simp
qed

end

section \<open>Refinement\<close>

definition seq_bound :: nat where "seq_bound = 2 ^ 32 - 1"

definition held :: "(nat \<Rightarrow> bytes) \<Rightarrow> nat set \<Rightarrow> nat \<Rightarrow> (u32 \<rightharpoonup> bytes)" where
  "held f S n = (\<lambda>s. if unat s \<in> S \<and> n \<le> unat s then Some (f (unat s)) else None)"

definition buffer_repr :: "(nat \<Rightarrow> bytes) \<Rightarrow> ReorderBuffer \<Rightarrow> nat set \<Rightarrow> bool" where
  "buffer_repr f r S \<longleftrightarrow> S \<subseteq> {..<seq_bound} \<and> rb_started r \<and>
     rb_nextExpected r = word_of_nat (mex S) \<and> rb_pending r = held f S (mex S)"

lemma buffer_repr_New: "buffer_repr f (NewReorderBuffer 0) {}"
  by (auto simp: buffer_repr_def NewReorderBuffer_def held_def)

lemma mex_bound: "S \<subseteq> {..<seq_bound} \<Longrightarrow> mex S < 2 ^ 32"
  using mex_mono [of S "{..<seq_bound}"] by (simp add: seq_bound_def)

lemma unat_seq [simp]: "n < 2 ^ 32 \<Longrightarrow> unat (word_of_nat n :: u32) = n"
  by (simp add: unat_of_nat take_bit_eq_mod)

lemma held_step:
  assumes "n < 2 ^ 32"
  shows "(held f S n)(word_of_nat n := None) = held f S (Suc n)"
proof
  fix s :: u32
  show "((held f S n)(word_of_nat n := None)) s = held f S (Suc n) s"
    using assms by (cases "unat s = n") (auto simp: held_def)
qed

lemma flush_held:
  assumes "S \<subseteq> {..<seq_bound}" "n \<le> mex S"
  shows "flush ready (word_of_nat n) (held f S n) =
    (ready @ map f [n..<mex S], word_of_nat (mex S), held f S (mex S))"
  using assms(2)
proof (induction "mex S - n" arbitrary: n ready)
  case 0
  then have n: "n = mex S" by simp
  have "finite S" using assms(1) finite_subset by blast
  then have "held f S n (word_of_nat n) = None"
    using mex_notin mex_bound [OF assms(1)] by (simp add: held_def n)
  then show ?case using n by (subst flush.simps) simp
next
  case (Suc k)
  then have lt: "n < mex S" by simp
  then have n32: "n < 2 ^ 32" using mex_bound [OF assms(1)] by simp
  have here: "held f S n (word_of_nat n) = Some (f n)"
    using less_mex [OF lt] n32 by (simp add: held_def)
  have next_n: "word_of_nat n + 1 = (word_of_nat (Suc n) :: u32)" by simp
  have IH: "flush (ready @ [f n]) (word_of_nat (Suc n)) (held f S (Suc n)) =
      ((ready @ [f n]) @ map f [Suc n..<mex S], word_of_nat (mex S), held f S (mex S))"
    using Suc lt by (intro Suc.hyps(1)) simp_all
  have "flush ready (word_of_nat n) (held f S n) =
      flush (ready @ [f n]) (word_of_nat (Suc n)) (held f S (Suc n))"
    using here by (subst flush.simps) (simp only: next_n held_step [OF n32] option.case)
  then show ?case using IH lt by (simp add: upt_conv_Cons)
qed

lemma Insert_refines:
  assumes r: "buffer_repr f r S" and n: "n < seq_bound" and p: "n \<in> S \<or> p = f n"
    and ins: "Insert (word_of_nat n) p r = (ready, r')"
  shows "ready = map f [mex S..<mex (insert n S)] \<and> buffer_repr f r' (insert n S)"
proof -
  have S: "S \<subseteq> {..<seq_bound}" and st: "rb_started r"
    and nx: "rb_nextExpected r = word_of_nat (mex S)" and pd: "rb_pending r = held f S (mex S)"
    using r by (auto simp: buffer_repr_def)
  have fin: "finite S" using S finite_subset by blast
  have n32: "n < 2 ^ 32" using n by (simp add: seq_bound_def)
  have m32: "mex S < 2 ^ 32" by (rule mex_bound) (rule S)
  have less: "word_of_nat n < (word_of_nat (mex S) :: u32) \<longleftrightarrow> n < mex S"
    using n32 m32 by (simp add: word_less_nat_alt)
  show ?thesis
  proof (cases "n \<in> S")
    case True
    have "held f S (mex S) (word_of_nat n) \<noteq> None" if "\<not> n < mex S"
      using True that n32 by (simp add: held_def)
    then have "ready = []" "r' = r"
      using ins st by (auto simp: Insert_def Let_def nx pd less split: if_splits)
    then show ?thesis using r True by (simp add: insert_absorb)
  next
    case False
    have ge: "\<not> n < mex S" using False less_mex by blast
    have none: "held f S (mex S) (word_of_nat n) = None"
      using False n32 by (simp add: held_def)
    have upd: "(held f S (mex S))(word_of_nat n \<mapsto> p) = held f (insert n S) (mex S)"
    proof
      fix s :: u32
      show "((held f S (mex S))(word_of_nat n \<mapsto> p)) s = held f (insert n S) (mex S) s"
        using p False ge n32 by (cases "unat s = n") (auto simp: held_def)
    qed
    have S': "insert n S \<subseteq> {..<seq_bound}" using S n by simp
    have "mex S \<le> mex (insert n S)" using fin by (intro mex_mono) auto
    from flush_held [OF S' this, of "[]" f]
    have "Insert (word_of_nat n) p r = (map f [mex S..<mex (insert n S)],
        r\<lparr>rb_nextExpected := word_of_nat (mex (insert n S)),
          rb_pending := held f (insert n S) (mex (insert n S))\<rparr>)"
      using st ge by (simp add: Insert_def Let_def nx pd less none upd)
    then show ?thesis using ins S' st by (auto simp: buffer_repr_def)
  qed
qed

interpretation rb: reassembly Insert word_of_nat seq_bound buffer_repr
proof unfold_locales
  show "finite S" if "buffer_repr f r S" for f r S
    using that finite_subset by (auto simp: buffer_repr_def)
qed (rule Insert_refines)

text \<open>What the accessors show of the represented set.\<close>

lemma buffer_repr_counts:
  assumes "buffer_repr f r S"
  shows "NextExpected r = word_of_nat (mex S)" "PendingCount r = card {n \<in> S. mex S \<le> n}"
proof -
  have S: "S \<subseteq> {..<seq_bound}" and p: "rb_pending r = held f S (mex S)"
    using assms by (simp_all add: buffer_repr_def)
  show "NextExpected r = word_of_nat (mex S)" using assms by (simp add: NextExpected_def buffer_repr_def)
  have small: "n < 2 ^ 32" if "n \<in> S" for n using that S by (auto simp: seq_bound_def)
  have "dom (held f S (mex S)) = word_of_nat ` {n \<in> S. mex S \<le> n}"
  proof (intro set_eqI iffI)
    fix s :: u32
    assume "s \<in> dom (held f S (mex S))"
    then have "unat s \<in> {n \<in> S. mex S \<le> n}" by (auto simp: held_def split: if_splits)
    then have "word_of_nat (unat s) \<in> (word_of_nat ` {n \<in> S. mex S \<le> n} :: u32 set)" by (rule imageI)
    then show "s \<in> word_of_nat ` {n \<in> S. mex S \<le> n}" by simp
  qed (use small in \<open>auto simp: held_def\<close>)
  moreover have "inj_on (word_of_nat :: nat \<Rightarrow> u32) {n \<in> S. mex S \<le> n}"
    using small by (intro inj_onI) (metis (no_types, lifting) mem_Collect_eq unat_seq)
  ultimately show "PendingCount r = card {n \<in> S. mex S \<le> n}"
    by (simp add: PendingCount_def p card_image)
qed

section \<open>Properties\<close>

text \<open>C24: Frames of a stream inserted in any order and with duplicates: what has been delivered is
  exactly the stream up to the first sequence number missing, in order; \<open>NextExpected\<close> is that
  number, and the frames behind it stay pending, all of them.\<close>

theorem reorder_delivers_prefix:
  assumes "list_all (\<lambda>n. n < seq_bound) ns"
  shows "fst (insert_all Insert (map (\<lambda>n. (word_of_nat n, f n)) ns) (NewReorderBuffer 0)) =
      map f [0..<mex (set ns)] \<and>
    NextExpected (snd (insert_all Insert (map (\<lambda>n. (word_of_nat n, f n)) ns) (NewReorderBuffer 0))) =
      word_of_nat (mex (set ns)) \<and>
    PendingCount (snd (insert_all Insert (map (\<lambda>n. (word_of_nat n, f n)) ns) (NewReorderBuffer 0))) =
      card {n \<in> set ns. mex (set ns) \<le> n}"
proof -
  obtain out r where run: "insert_all Insert (map (\<lambda>n. (word_of_nat n, f n)) ns)
      (NewReorderBuffer 0) = (out, r)"
    by (cases "insert_all Insert (map (\<lambda>n. (word_of_nat n, f n)) ns) (NewReorderBuffer 0)")
  have "out = map f [0..<mex (set ns)]" "buffer_repr f r (set ns)"
    using rb.insert_all_spec [OF buffer_repr_New _ run] assms by (simp_all add: list_all_iff)
  then show ?thesis using run buffer_repr_counts by simp
qed

theorem reorder_delivers_prefix_witness:
  "fst (insert_all Insert (map (\<lambda>n. (word_of_nat n, [word_of_nat (10 + n)])) [2, 0, 2, 4]) (NewReorderBuffer 0)) =
    [[10]] \<and>
   PendingCount (snd (insert_all Insert (map (\<lambda>n. (word_of_nat n, [word_of_nat (10 + n)])) [2, 0, 2, 4])
     (NewReorderBuffer 0))) = 2"
proof -
  have mex: "mex (set [2, 0, 2, 4]) = 1" by (rule mex_eqI) auto
  have "{n \<in> set [2, 0, 2, 4]. (1::nat) \<le> n} = {2, 4}" by auto
  then show ?thesis
    using reorder_delivers_prefix [of "[2, 0, 2, 4]" "\<lambda>n. [word_of_nat (10 + n)]"]
    unfolding mex by (simp add: seq_bound_def)
qed

end
