(* ===== verification/Float64.thy ===== *)
theory Float64
  imports Complex_Main Prelude
begin

text \<open>
  Go's numeric conversions as the congestion controller uses them: \<open>float64\<close> results as exact
  rationals rounded to 53 significant bits, ties to even (IEEE 754 binary64; every value that
  occurs is far from overflow and from the subnormal range), and \<open>time.Duration\<close> arithmetic,
  which wraps at 64 bits and divides towards zero.
\<close>

section \<open>Binary64 rounding\<close>

fun bit_length :: "nat \<Rightarrow> nat" where
  "bit_length n = (if n = 0 then 0 else Suc (bit_length (n div 2)))"

declare bit_length.simps [simp del]

text \<open>The exponent of the leading bit of a positive rational.\<close>

definition flog2 :: "rat \<Rightarrow> int" where
  "flog2 x = (if 1 \<le> x then int (bit_length (nat \<lfloor>x\<rfloor>)) - 1
              else - int (bit_length (nat (\<lceil>1 / x\<rceil> - 1))))"

definition round_half_even :: "rat \<Rightarrow> int" where
  "round_half_even q =
     (let f = \<lfloor>q\<rfloor>; d = q - of_int f
      in if d < 1 / 2 then f
         else if 1 / 2 < d then f + 1
         else if even f then f else f + 1)"

definition pow2 :: "int \<Rightarrow> rat" where
  "pow2 e = (if 0 \<le> e then 2 ^ nat e else 1 / 2 ^ nat (- e))"

definition round64 :: "rat \<Rightarrow> rat" where
  "round64 x = (if x \<le> 0 then 0
                else let u = pow2 (flog2 x - 52) in of_int (round_half_even (x / u)) * u)"

text \<open>\<open>float64(n)\<close> of a 32-bit integer is exact; \<open>uint32(x)\<close> truncates.\<close>

definition float_of_u32 :: "u32 \<Rightarrow> rat" where
  "float_of_u32 n = of_nat (unat n)"

definition u32_of_float :: "rat \<Rightarrow> u32" where
  "u32_of_float x = word_of_int \<lfloor>x\<rfloor>"

definition fmul :: "rat \<Rightarrow> rat \<Rightarrow> rat" where
  "fmul x y = round64 (x * y)"

definition fadd :: "rat \<Rightarrow> rat \<Rightarrow> rat" where
  "fadd x y = round64 (x + y)"

lemma bit_length_lower: "0 < n \<Longrightarrow> 2 ^ (bit_length n - 1) \<le> n"
proof (induction n rule: bit_length.induct)
  case (1 n)
  show ?case
  proof (cases "n < 2")
    case True
    then have "n = 1" using "1.prems" by simp
    then show ?thesis by (simp add: bit_length.simps)
  next
    case False
    have IH: "2 ^ (bit_length (n div 2) - 1) \<le> n div 2" using "1.IH" "1.prems" False by simp
    have "0 < bit_length (n div 2)" using False by (subst bit_length.simps) simp
    then have "bit_length n - 1 = Suc (bit_length (n div 2) - 1)"
      using "1.prems" by (subst bit_length.simps) simp
    then show ?thesis using IH by simp
  qed
qed

lemma bit_length_upper: "n < 2 ^ bit_length n"
proof (induction n rule: bit_length.induct)
  case (1 n)
  then show ?case by (cases "n = 0"; subst bit_length.simps) auto
qed

lemma pow2_pos [simp]: "0 < pow2 e"
  by (simp add: pow2_def)

lemma pow2_minus: "pow2 (e - int k) = pow2 e / 2 ^ k"
proof (cases "0 \<le> e - int k")
  case True
  then have "nat e = nat (e - int k) + k" by simp
  then show ?thesis using True by (simp add: pow2_def power_add)
next
  case False
  show ?thesis
  proof (cases "0 \<le> e")
    case True
    then have "k = nat e + nat (- (e - int k))" using False by simp
    then have "(2 :: rat) ^ k = 2 ^ nat e * 2 ^ nat (- (e - int k))" by (metis power_add)
    then show ?thesis using False True by (simp add: pow2_def)
  next
    case neg: False
    then have "nat (- (e - int k)) = nat (- e) + k" by simp
    then show ?thesis using False neg by (simp add: pow2_def power_add)
  qed
qed

lemma flog2_le: "0 < x \<Longrightarrow> pow2 (flog2 x) \<le> x"
proof (cases "1 \<le> x")
  case True
  then have pos: "1 \<le> \<lfloor>x\<rfloor>" by simp
  then have "0 < bit_length (nat \<lfloor>x\<rfloor>)" by (subst bit_length.simps) simp
  then have "pow2 (flog2 x) = of_nat (2 ^ (bit_length (nat \<lfloor>x\<rfloor>) - 1))"
    using True by (simp add: flog2_def pow2_def nat_diff_distrib)
  also have "\<dots> \<le> of_nat (nat \<lfloor>x\<rfloor>)"
    using pos by (intro of_nat_mono bit_length_lower) simp
  also have "\<dots> \<le> x" using pos by simp
  finally show ?thesis .
next
  case False
  assume "0 < x"
  let ?m = "nat (\<lceil>1 / x\<rceil> - 1)"
  have "1 < 1 / x" using \<open>0 < x\<close> False by simp
  then have c: "2 \<le> \<lceil>1 / x\<rceil>" by linarith
  have "\<lceil>1 / x\<rceil> \<le> int (2 ^ bit_length ?m)"
    using bit_length_upper [of ?m] c by (simp add: nat_less_iff flip: of_nat_less_iff)
  then have "1 / x \<le> of_int (int (2 ^ bit_length ?m))" by (simp only: ceiling_le_iff)
  then have "1 / x \<le> 2 ^ bit_length ?m" by simp
  then have "1 \<le> 2 ^ bit_length ?m * x" using \<open>0 < x\<close> by (simp add: divide_le_eq)
  then have "1 / 2 ^ bit_length ?m \<le> x" by (simp add: divide_le_eq mult.commute)
  moreover have "0 < bit_length ?m" using c by (subst bit_length.simps) simp
  ultimately show ?thesis using False by (simp add: flog2_def pow2_def)
qed

lemma flog2_upper: "0 < x \<Longrightarrow> x < pow2 (flog2 x + 1)"
proof (cases "1 \<le> x")
  case True
  then have pos: "1 \<le> \<lfloor>x\<rfloor>" by simp
  then have "x < of_int (int (2 ^ bit_length (nat \<lfloor>x\<rfloor>)))"
    using bit_length_upper [of "nat \<lfloor>x\<rfloor>"] by (simp only: floor_less_iff [symmetric])
  then show ?thesis using True by (simp add: flog2_def pow2_def)
next
  case False
  assume x: "0 < x"
  let ?m = "nat (\<lceil>1 / x\<rceil> - 1)"
  have "1 < 1 / x" using x False by simp
  then have c: "2 \<le> \<lceil>1 / x\<rceil>" by linarith
  have "0 < bit_length ?m" using c by (subst bit_length.simps) simp
  then obtain j where j: "bit_length ?m = Suc j" by (cases "bit_length ?m") auto
  have "(2 :: nat) ^ j \<le> ?m" using bit_length_lower [of ?m] c by (simp add: j)
  then have "of_nat (2 ^ j) \<le> (of_nat ?m :: rat)" by (rule of_nat_mono)
  also have "of_nat ?m < 1 / x" using c by (simp add: of_nat_nat) linarith
  finally have "2 ^ j * x < 1" using x by (simp add: pos_less_divide_eq)
  then have "x < 1 / 2 ^ j" by (simp add: pos_less_divide_eq mult.commute)
  moreover have "flog2 x + 1 = - int j" using False by (simp add: flog2_def j)
  ultimately show ?thesis by (auto simp: pow2_def)
qed

lemma pow2_mono: "e \<le> f \<Longrightarrow> pow2 e \<le> pow2 f"
  using pow2_minus [of f "nat (f - e)"] pow2_pos [of f] by (simp add: divide_le_eq)

lemma flog2_eqI:
  assumes "pow2 e \<le> x" "x < pow2 (e + 1)"
  shows "flog2 x = e"
proof -
  have x: "0 < x" using assms(1) pow2_pos [of e] by linarith
  have "\<not> e + 1 \<le> flog2 x"
    using pow2_mono [of "e + 1" "flog2 x"] flog2_le [OF x] assms(2) by auto
  moreover have "\<not> flog2 x + 1 \<le> e"
    using pow2_mono [of "flog2 x + 1" e] flog2_upper [OF x] assms(1) by auto
  ultimately show ?thesis by linarith
qed

lemma round_half_even_error: "\<bar>of_int (round_half_even q) - q\<bar> \<le> 1 / 2"
proof -
  have "of_int \<lfloor>q\<rfloor> \<le> q" "q < of_int \<lfloor>q\<rfloor> + 1" by linarith+
  then show ?thesis by (auto simp: round_half_even_def Let_def abs_le_iff)
qed

text \<open>The relative error of one rounding is at most \<open>2 ^ -53\<close>.\<close>

lemma round64_error:
  assumes "0 < x"
  shows "\<bar>round64 x - x\<bar> \<le> x / 2 ^ 53"
proof -
  define u where "u = pow2 (flog2 x - 52)"
  have u: "0 < u" by (simp add: u_def)
  have "round64 x - x = (of_int (round_half_even (x / u)) - x / u) * u"
    using assms u by (simp add: round64_def Let_def u_def [symmetric] left_diff_distrib)
  then have "\<bar>round64 x - x\<bar> = \<bar>of_int (round_half_even (x / u)) - x / u\<bar> * u"
    using u by (simp add: abs_mult)
  also have "\<dots> \<le> 1 / 2 * u"
    using round_half_even_error u by (intro mult_right_mono) auto
  also have "u = pow2 (flog2 x) / 2 ^ 52" using pow2_minus [of "flog2 x" 52] by (simp add: u_def)
  also have "1 / 2 * (pow2 (flog2 x) / 2 ^ 52) \<le> x / 2 ^ 53"
    using flog2_le [OF assms] by simp
  finally show ?thesis .
qed

lemma round64_0 [simp]: "round64 0 = 0"
  by (simp add: round64_def)

lemma round64_bounds:
  assumes "0 \<le> x"
  shows "x - x / 2 ^ 53 \<le> round64 x" "round64 x \<le> x + x / 2 ^ 53"
proof -
  have "\<bar>round64 x - x\<bar> \<le> x / 2 ^ 53"
    using assms round64_error [of x] by (cases "x = 0") auto
  then show "x - x / 2 ^ 53 \<le> round64 x" "round64 x \<le> x + x / 2 ^ 53" by linarith+
qed

text \<open>Computing one rounding: the leading bit and the nearest multiple of the last place.\<close>

lemma round_half_even_eqI: "\<bar>q - of_int k\<bar> < 1 / 2 \<Longrightarrow> round_half_even q = k"
  using round_half_even_error [of q] by linarith

lemma round64_eqI:
  assumes "pow2 e \<le> x" "x < pow2 (e + 1)" "\<bar>x / pow2 (e - 52) - of_int k\<bar> < 1 / 2"
  shows "round64 x = of_int k * pow2 (e - 52)"
proof -
  have "0 < x" using assms(1) pow2_pos [of e] by linarith
  then show ?thesis
    using flog2_eqI [OF assms(1,2)] assms(3) by (simp add: round64_def Let_def round_half_even_eqI)
qed

section \<open>Signed 64-bit durations\<close>

definition i64 :: "int \<Rightarrow> int" where
  "i64 x = signed_take_bit 63 x"

definition go_quot :: "int \<Rightarrow> int \<Rightarrow> int" where
  "go_quot a b = sgn a * sgn b * (\<bar>a\<bar> div \<bar>b\<bar>)"

lemma i64_id: "- (2 ^ 63) \<le> x \<Longrightarrow> x < 2 ^ 63 \<Longrightarrow> i64 x = x"
  unfolding i64_def by (rule signed_take_bit_int_eq_self) auto

lemma go_quot_pos: "0 < b \<Longrightarrow> go_quot a b = (if 0 \<le> a then a div b else - ((- a) div b))"
  by (auto simp: go_quot_def sgn_if)

text \<open>A step of a fraction of the distance stays between the two ends.\<close>

lemma go_quot_between:
  assumes "1 \<le> k"
  shows "min x y \<le> x + go_quot (y - x) k" "x + go_quot (y - x) k \<le> max x y"
proof -
  have le: "0 \<le> d div k \<and> d div k \<le> d" if "0 \<le> d" for d :: int
    using that assms zdiv_mono2 [of d 1 k] by (simp add: pos_imp_zdiv_nonneg_iff)
  have q: "go_quot (y - x) k = (if x \<le> y then (y - x) div k else - ((x - y) div k))"
    using assms by (simp add: go_quot_pos)
  show "min x y \<le> x + go_quot (y - x) k" "x + go_quot (y - x) k \<le> max x y"
    using le [of "y - x"] le [of "x - y"] by (auto simp: q)
qed

lemma go_quot_range:
  assumes "1 \<le> k" "0 \<le> x" "x \<le> b" "0 \<le> y" "y \<le> b"
  shows "0 \<le> x + go_quot (y - x) k" "x + go_quot (y - x) k \<le> b"
proof -
  have "0 \<le> min x y" "max x y \<le> b" using assms by simp_all
  then show "0 \<le> x + go_quot (y - x) k" "x + go_quot (y - x) k \<le> b"
    using go_quot_between [OF assms(1), of x y] by (blast intro: order_trans)+
qed

end
