(* ===== verification/Congestion.thy ===== *)
theory Congestion
  imports Float64
begin

text \<open>
  \<open>transport/congestion.go\<close>: the burst window, the block size and the retransmit timeout. The
  clock is an argument (\<open>now\<close>) of the operations that read it; the mutex makes every method one
  step, so a run is a list of events.
\<close>

section \<open>Model\<close>

record CongestionController =
  WBaseline :: u32
  WBurstTarget :: u32
  WBurstAbsMax :: u32
  currentWindow :: u32
  inBurst :: bool
  burstStarted :: nanos
  burstTimeout :: nanos
  burstCeilingPenalty :: rat
  cleanBurstStreak :: int
  BlockMin :: u32
  BlockMax :: u32
  BlockSoftTarget :: u32
  BlockSoftMax :: u32
  currentBlockSize :: u32
  cleanTxStreak :: int
  rttAvg :: nanos
  rttVar :: nanos
  rttSet :: bool
  MinTimeout :: nanos
  MaxTimeout :: nanos

definition CeilingPenaltyFactor :: rat where "CeilingPenaltyFactor = round64 (8 / 10)"
definition CeilingRecoveryStep :: rat where "CeilingRecoveryStep = round64 (5 / 100)"
definition CleanBurstsToRecover :: int where "CleanBurstsToRecover = 4"
definition CleanTxStreakForGrowth :: int where "CleanTxStreakForGrowth = 25"
definition BlockGrowthFactor :: rat where "BlockGrowthFactor = round64 (11 / 10)"
definition BlockShrinkStep :: u32 where "BlockShrinkStep = 4 * 1024"
definition PenaltyFloor :: rat where "PenaltyFloor = round64 (2 / 10)"

definition NewCongestionController :: CongestionController where
  "NewCongestionController =
     \<lparr>WBaseline = 2, WBurstTarget = 8, WBurstAbsMax = 10, currentWindow = 2, inBurst = False,
      burstStarted = 0, burstTimeout = 1500 * millisecond, burstCeilingPenalty = 1,
      cleanBurstStreak = 0, BlockMin = 4 * 1024, BlockMax = 64 * 1024,
      BlockSoftTarget = 16 * 1024, BlockSoftMax = 24 * 1024, currentBlockSize = 16 * 1024,
      cleanTxStreak = 0, rttAvg = 0, rttVar = 0, rttSet = False,
      MinTimeout = 500 * millisecond, MaxTimeout = 10 * second\<rparr>"

definition burst_window :: "CongestionController \<Rightarrow> u32" where
  "burst_window c =
     (let ceiling = fmul (float_of_u32 (WBurstTarget c)) (burstCeilingPenalty c);
          w = u32_of_float ceiling;
          w = (if w < WBaseline c then WBaseline c else w);
          w = (if w > WBurstAbsMax c then WBurstAbsMax c else w)
      in w)"

definition OnQueueNonEmpty :: "nanos \<Rightarrow> CongestionController \<Rightarrow> CongestionController" where
  "OnQueueNonEmpty now c =
     (if inBurst c then c
      else c\<lparr>inBurst := True, burstStarted := now, currentWindow := burst_window c\<rparr>)"

definition endBurstLocked :: "bool \<Rightarrow> CongestionController \<Rightarrow> CongestionController" where
  "endBurstLocked clean c =
     (let c = c\<lparr>inBurst := False, currentWindow := WBaseline c\<rparr>
      in if clean then
           let c = c\<lparr>cleanBurstStreak := cleanBurstStreak c + 1\<rparr>
           in if cleanBurstStreak c \<ge> CleanBurstsToRecover \<and> burstCeilingPenalty c < 1
              then let p = fadd (burstCeilingPenalty c) CeilingRecoveryStep
                   in c\<lparr>burstCeilingPenalty := (if p > 1 then 1 else p), cleanBurstStreak := 0\<rparr>
              else c
         else c)"

definition OnQueueEmpty :: "CongestionController \<Rightarrow> CongestionController" where
  "OnQueueEmpty c = (if \<not> inBurst c then c else endBurstLocked True c)"

definition CheckBurstTimeout :: "nanos \<Rightarrow> CongestionController \<Rightarrow> CongestionController" where
  "CheckBurstTimeout now c =
     (if \<not> inBurst c then c
      else if now - burstStarted c \<ge> burstTimeout c then endBurstLocked True c
      else c)"

definition onErrorLocked :: "CongestionController \<Rightarrow> CongestionController" where
  "onErrorLocked c =
     (let c = (if inBurst c
               then let c = endBurstLocked False c;
                        p = fmul (burstCeilingPenalty c) CeilingPenaltyFactor
                    in c\<lparr>burstCeilingPenalty := (if p < PenaltyFloor then PenaltyFloor else p),
                         cleanBurstStreak := 0\<rparr>
               else c)
      in c\<lparr>cleanTxStreak := 0\<rparr>)"

definition OnTimeoutOrServerError :: "CongestionController \<Rightarrow> CongestionController" where
  "OnTimeoutOrServerError c0 =
     (let c = onErrorLocked c0
      in if currentWindow c > WBaseline c then c\<lparr>currentWindow := currentWindow c - 1\<rparr> else c)"

definition OnIncompleteResponse :: "CongestionController \<Rightarrow> CongestionController" where
  "OnIncompleteResponse c0 =
     (let c = onErrorLocked c0
      in if currentBlockSize c > BlockMin c + BlockShrinkStep
         then c\<lparr>currentBlockSize := currentBlockSize c - BlockShrinkStep\<rparr>
         else c\<lparr>currentBlockSize := BlockMin c\<rparr>)"

definition updateRTTLocked :: "nanos \<Rightarrow> CongestionController \<Rightarrow> CongestionController" where
  "updateRTTLocked sample c =
     (if \<not> rttSet c then c\<lparr>rttAvg := sample, rttVar := go_quot sample 2, rttSet := True\<rparr>
      else
        let diff = i64 (sample - rttAvg c);
            diff = (if diff < 0 then i64 (- diff) else diff)
        in c\<lparr>rttAvg := i64 (rttAvg c + go_quot (i64 (sample - rttAvg c)) 8),
             rttVar := i64 (rttVar c + go_quot (i64 (diff - rttVar c)) 4)\<rparr>)"

definition grown_block :: "CongestionController \<Rightarrow> u32" where
  "grown_block c =
     (let grown = u32_of_float (fmul (float_of_u32 (currentBlockSize c)) BlockGrowthFactor)
      in if grown > BlockSoftMax c then BlockSoftMax c else grown)"

definition OnSuccess :: "nanos \<Rightarrow> CongestionController \<Rightarrow> CongestionController" where
  "OnSuccess rtt c0 =
     (let c = updateRTTLocked rtt c0;
          c = c\<lparr>cleanTxStreak := cleanTxStreak c + 1\<rparr>
      in if cleanTxStreak c \<ge> CleanTxStreakForGrowth
         then c\<lparr>cleanTxStreak := 0, currentBlockSize := grown_block c\<rparr>
         else c)"

definition Timeout :: "CongestionController \<Rightarrow> nanos" where
  "Timeout c =
     (if \<not> rttSet c then MinTimeout c
      else let t = i64 (rttAvg c + i64 (4 * rttVar c))
           in if t < MinTimeout c then MinTimeout c
              else if t > MaxTimeout c then MaxTimeout c
              else t)"

definition CurrentWindow :: "CongestionController \<Rightarrow> u32" where
  "CurrentWindow c = currentWindow c"

definition CurrentBlockSize :: "CongestionController \<Rightarrow> u32" where
  "CurrentBlockSize c = currentBlockSize c"

definition InBurst :: "CongestionController \<Rightarrow> bool" where
  "InBurst c = inBurst c"

text \<open>The methods as events of a run.\<close>

datatype cc_event =
    QueueNonEmpty nanos | QueueEmpty | PollBurst nanos
  | TimeoutOrServerError | IncompleteResponse | Success nanos

fun cc_step :: "CongestionController \<Rightarrow> cc_event \<Rightarrow> CongestionController" where
  "cc_step c (QueueNonEmpty now) = OnQueueNonEmpty now c"
| "cc_step c QueueEmpty = OnQueueEmpty c"
| "cc_step c (PollBurst now) = CheckBurstTimeout now c"
| "cc_step c TimeoutOrServerError = OnTimeoutOrServerError c"
| "cc_step c IncompleteResponse = OnIncompleteResponse c"
| "cc_step c (Success rtt) = OnSuccess rtt c"

abbreviation cc_run :: "CongestionController \<Rightarrow> cc_event list \<Rightarrow> CongestionController" where
  "cc_run \<equiv> foldl cc_step"

lemmas cc_defs = OnQueueNonEmpty_def OnQueueEmpty_def CheckBurstTimeout_def endBurstLocked_def
  onErrorLocked_def OnTimeoutOrServerError_def OnIncompleteResponse_def updateRTTLocked_def
  OnSuccess_def

section \<open>The float64 results\<close>

lemma float64_constants:
  "79 / 100 \<le> CeilingPenaltyFactor \<and> CeilingPenaltyFactor \<le> 81 / 100"
  "4 / 100 \<le> CeilingRecoveryStep \<and> CeilingRecoveryStep \<le> 6 / 100"
  "105 / 100 \<le> BlockGrowthFactor \<and> BlockGrowthFactor \<le> 111 / 100"
  "19 / 100 \<le> PenaltyFloor \<and> PenaltyFloor \<le> 21 / 100"
  using round64_bounds [of "8 / 10"] round64_bounds [of "5 / 100"] round64_bounds [of "11 / 10"]
    round64_bounds [of "2 / 10"]
  by (simp_all add: CeilingPenaltyFactor_def CeilingRecoveryStep_def BlockGrowthFactor_def
      PenaltyFloor_def)

lemma unat_u32_of_float:
  assumes "0 \<le> x" "x < 2 ^ 32"
  shows "unat (u32_of_float x) = nat \<lfloor>x\<rfloor>"
proof -
  have "\<lfloor>x\<rfloor> < 2 ^ 32" using assms(2) by (simp add: floor_less_iff)
  then have "\<lfloor>x\<rfloor> mod 2 ^ 32 = \<lfloor>x\<rfloor>" using assms(1) by (intro mod_pos_pos_trivial) simp_all
  then show ?thesis
    by (simp add: u32_of_float_def unat_eq_nat_uint uint_word_of_int take_bit_eq_mod)
qed

lemma u32_of_float_le:
  assumes "0 \<le> x" "x < of_nat n + 1" "n < 2 ^ 32"
  shows "unat (u32_of_float x) \<le> n"
proof -
  have "of_nat n + 1 \<le> (2 ^ 32 :: rat)"
    using assms(3) by (metis Suc_leI of_nat_Suc of_nat_le_iff of_nat_numeral of_nat_power add.commute)
  then have "unat (u32_of_float x) = nat \<lfloor>x\<rfloor>" using assms by (intro unat_u32_of_float) auto
  moreover have "\<lfloor>x\<rfloor> \<le> int n" using assms(2) by (simp add: floor_le_iff)
  ultimately show ?thesis by simp
qed

lemma u32_of_float_ge: "of_nat n \<le> x \<Longrightarrow> x < 2 ^ 32 \<Longrightarrow> n \<le> unat (u32_of_float x)"
  using unat_u32_of_float [of x] by (simp add: le_nat_iff le_floor_iff order_trans [of 0 "of_nat n"])

section \<open>The invariant\<close>

text \<open>
  What a configuration has to satisfy for the bounds: the defaults do, and no method changes
  it. The last two conditions keep the 32-bit sums and the block growth from wrapping.
\<close>

definition cc_config :: "CongestionController \<Rightarrow> bool" where
  "cc_config c \<longleftrightarrow> WBaseline c \<le> WBurstTarget c \<and> WBurstTarget c \<le> WBurstAbsMax c \<and>
     BlockMin c \<le> BlockSoftMax c \<and> BlockSoftMax c \<le> BlockMax c \<and>
     MinTimeout c \<le> MaxTimeout c \<and>
     unat (BlockMin c) + 4096 < 2 ^ 32 \<and> unat (BlockSoftMax c) \<le> 2 ^ 31"

definition cc_window :: "CongestionController \<Rightarrow> bool" where
  "cc_window c \<longleftrightarrow> WBaseline c \<le> currentWindow c \<and> currentWindow c \<le> WBurstTarget c \<and>
     (\<not> inBurst c \<longrightarrow> currentWindow c = WBaseline c)"

definition cc_block :: "CongestionController \<Rightarrow> bool" where
  "cc_block c \<longleftrightarrow> BlockMin c \<le> currentBlockSize c \<and> currentBlockSize c \<le> BlockSoftMax c"

definition cc_penalty :: "CongestionController \<Rightarrow> bool" where
  "cc_penalty c \<longleftrightarrow> PenaltyFloor \<le> burstCeilingPenalty c \<and> burstCeilingPenalty c \<le> 1"

definition cc_inv :: "CongestionController \<Rightarrow> bool" where
  "cc_inv c \<longleftrightarrow> cc_config c \<and> cc_window c \<and> cc_block c \<and> cc_penalty c"

lemmas cc_inv_defs = cc_inv_def cc_config_def cc_window_def cc_block_def cc_penalty_def

lemma cc_inv_New: "cc_inv NewCongestionController"
  using float64_constants(4) by (simp add: cc_inv_defs NewCongestionController_def)

lemma float_of_u32_facts:
  "0 \<le> float_of_u32 w"
  "float_of_u32 w \<le> of_nat n \<longleftrightarrow> unat w \<le> n"
  "float_of_u32 w < 2 ^ 32"
proof -
  show "0 \<le> float_of_u32 w" by (simp only: float_of_u32_def of_nat_0_le_iff)
  show "float_of_u32 w \<le> of_nat n \<longleftrightarrow> unat w \<le> n" by (simp only: float_of_u32_def of_nat_le_iff)
  have "unat w < 2 ^ 32" using unsigned_less [of w, where 'a = nat] by simp
  then have "(of_nat (unat w) :: rat) < of_nat (2 ^ 32)" by (simp only: of_nat_less_iff)
  then show "float_of_u32 w < 2 ^ 32" by (simp only: float_of_u32_def of_nat_power of_nat_numeral)
qed

lemma fmul_near:
  "x - x / 2 ^ 53 \<le> y \<Longrightarrow> y \<le> x + x / 2 ^ 53 \<Longrightarrow> 0 \<le> x \<Longrightarrow> x \<le> t \<Longrightarrow> t < 2 ^ 32 \<Longrightarrow>
   0 \<le> y \<and> y < t + 1" for x y t :: rat
  by simp

lemma grow_near:
  "x - x / 2 ^ 53 \<le> y \<Longrightarrow> y \<le> x + x / 2 ^ 53 \<Longrightarrow> b * (105 / 100) \<le> x \<Longrightarrow> x \<le> b * (111 / 100) \<Longrightarrow>
   0 \<le> b \<Longrightarrow> b \<le> of_nat (2 ^ 31) \<Longrightarrow> b \<le> y \<and> y < 2 ^ 32" for x y b :: rat
  by simp

lemma penalty_near:
  "y \<le> x + x / 2 ^ 53 \<Longrightarrow> x \<le> 1 * (81 / 100) \<Longrightarrow> y \<le> 1" for x y :: rat
  by simp

lemma recover_near:
  "(x + s) - (x + s) / 2 ^ 53 \<le> y \<Longrightarrow> 4 / 100 \<le> s \<Longrightarrow> s \<le> 6 / 100 \<Longrightarrow> x \<le> 1 \<Longrightarrow> x \<le> y"
  for x s y :: rat
  by (simp add: field_simps)

lemma burst_window_bounds:
  assumes "cc_config c" "cc_penalty c"
  shows "WBaseline c \<le> burst_window c" "burst_window c \<le> WBurstTarget c"
proof -
  define t where "t = float_of_u32 (WBurstTarget c)"
  define p where "p = burstCeilingPenalty c"
  have p: "0 \<le> p" "p \<le> 1"
    using assms(2) float64_constants(4) by (auto simp: cc_penalty_def p_def)
  have t: "0 \<le> t" "t < 2 ^ 32" by (simp_all add: t_def float_of_u32_facts(1) float_of_u32_facts(3)
        del: power_numeral)
  have tp: "0 \<le> t * p" "t * p \<le> t" using p t(1) by (simp_all add: mult_left_le)
  have f: "0 \<le> fmul t p" "fmul t p < t + 1"
    using fmul_near [OF round64_bounds [OF tp(1)] tp t(2)] unfolding fmul_def by blast+
  have "unat (WBurstTarget c) < 2 ^ 32"
    using unsigned_less [of "WBurstTarget c", where 'a = nat] by simp
  then have "unat (u32_of_float (fmul t p)) \<le> unat (WBurstTarget c)"
    using f by (intro u32_of_float_le) (simp_all only: t_def float_of_u32_def)
  then have "u32_of_float (fmul t p) \<le> WBurstTarget c" by (simp add: word_le_nat_alt)
  then show "WBaseline c \<le> burst_window c" "burst_window c \<le> WBurstTarget c"
    using assms(1) by (auto simp: burst_window_def Let_def t_def p_def cc_config_def)
qed

lemma grown_block_bounds:
  assumes "cc_config c" "cc_block c"
  shows "currentBlockSize c \<le> grown_block c" "grown_block c \<le> BlockSoftMax c"
proof -
  define b where "b = float_of_u32 (currentBlockSize c)"
  have "unat (currentBlockSize c) \<le> 2 ^ 31"
    using assms by (auto simp: cc_config_def cc_block_def word_le_nat_alt)
  then have b: "0 \<le> b" "b \<le> of_nat (2 ^ 31)"
    by (simp_all add: b_def float_of_u32_facts(1) float_of_u32_facts(2) del: of_nat_power
        of_nat_numeral)
  have g: "b * (105 / 100) \<le> b * BlockGrowthFactor" "b * BlockGrowthFactor \<le> b * (111 / 100)"
    using float64_constants(3) b(1) by (intro mult_left_mono; blast)+
  have x: "0 \<le> b * BlockGrowthFactor" using g(1) b(1) by simp
  have "b \<le> fmul b BlockGrowthFactor" "fmul b BlockGrowthFactor < 2 ^ 32"
    using grow_near [OF round64_bounds [OF x] g b] unfolding fmul_def by blast+
  then have "unat (currentBlockSize c) \<le> unat (u32_of_float (fmul b BlockGrowthFactor))"
    by (intro u32_of_float_ge) (simp_all only: b_def float_of_u32_def)
  then have "currentBlockSize c \<le> u32_of_float (fmul b BlockGrowthFactor)"
    by (simp add: word_le_nat_alt)
  then show "currentBlockSize c \<le> grown_block c" "grown_block c \<le> BlockSoftMax c"
    using assms(2) by (auto simp: grown_block_def Let_def b_def cc_block_def)
qed

text \<open>Every method keeps the configuration and the invariant.\<close>

lemma endBurst_penalty:
  assumes "cc_penalty c"
  shows "cc_penalty (endBurstLocked clean c)"
proof -
  let ?p = "fadd (burstCeilingPenalty c) CeilingRecoveryStep"
  have "0 \<le> burstCeilingPenalty c + CeilingRecoveryStep"
    using assms float64_constants(2,4) by (simp add: cc_penalty_def)
  from recover_near [OF round64_bounds(1) [OF this]] have "burstCeilingPenalty c \<le> ?p"
    using assms float64_constants(2) unfolding cc_penalty_def fadd_def by blast
  then have "PenaltyFloor \<le> ?p" using assms by (simp add: cc_penalty_def)
  then show ?thesis
    using assms float64_constants(4) by (auto simp: cc_penalty_def endBurstLocked_def Let_def)
qed

lemma endBurst_inv:
  assumes "cc_inv c"
  shows "cc_inv (endBurstLocked clean c)" "\<not> inBurst (endBurstLocked clean c)"
    "currentWindow (endBurstLocked clean c) = WBaseline c"
proof -
  show "cc_inv (endBurstLocked clean c)"
    using assms endBurst_penalty [of c clean] unfolding cc_inv_def
    by (auto simp: cc_config_def cc_window_def cc_block_def endBurstLocked_def Let_def)
qed (simp_all add: endBurstLocked_def Let_def)

lemma onError_inv:
  assumes "cc_inv c"
  shows "cc_inv (onErrorLocked c)" "\<not> inBurst (onErrorLocked c)"
    "currentWindow (onErrorLocked c) = WBaseline c" "WBaseline (onErrorLocked c) = WBaseline c"
proof -
  have e: "cc_inv (endBurstLocked False c)" using assms by (rule endBurst_inv)
  let ?q = "fmul (burstCeilingPenalty c) CeilingPenaltyFactor"
  have p: "0 \<le> burstCeilingPenalty c" "burstCeilingPenalty c \<le> 1"
    using assms float64_constants(4) by (auto simp: cc_inv_def cc_penalty_def)
  have "burstCeilingPenalty c * CeilingPenaltyFactor \<le> 1 * (81 / 100)"
    "0 \<le> burstCeilingPenalty c * CeilingPenaltyFactor"
    using p float64_constants(1) by (intro mult_mono mult_nonneg_nonneg; simp)+
  then have "?q \<le> 1" unfolding fmul_def by (intro penalty_near [OF round64_bounds(2)])
  then show "cc_inv (onErrorLocked c)"
    using e assms float64_constants(4)
    by (auto simp: onErrorLocked_def Let_def cc_inv_defs endBurstLocked_def)
  show "\<not> inBurst (onErrorLocked c)" "currentWindow (onErrorLocked c) = WBaseline c"
    "WBaseline (onErrorLocked c) = WBaseline c"
    using assms by (auto simp: onErrorLocked_def Let_def endBurstLocked_def cc_inv_def cc_window_def)
qed

lemma OnTimeoutOrServerError_eq: "cc_inv c \<Longrightarrow> OnTimeoutOrServerError c = onErrorLocked c"
  by (simp add: OnTimeoutOrServerError_def Let_def onError_inv)

lemma OnIncompleteResponse_inv:
  assumes "cc_inv c"
  shows "cc_inv (OnIncompleteResponse c)"
proof -
  let ?c = "onErrorLocked c"
  have e: "cc_inv ?c" using assms by (rule onError_inv)
  have sum: "unat (BlockMin ?c + BlockShrinkStep) = unat (BlockMin ?c) + 4096"
    using e by (simp add: cc_inv_def cc_config_def BlockShrinkStep_def unat_word_ariths
        take_bit_eq_mod)
  have "BlockMin ?c \<le> currentBlockSize ?c - BlockShrinkStep"
    "currentBlockSize ?c - BlockShrinkStep \<le> currentBlockSize ?c"
    if "BlockMin ?c + BlockShrinkStep < currentBlockSize ?c"
  proof -
    have lt: "unat (BlockMin ?c) + 4096 < unat (currentBlockSize ?c)"
      using that by (simp add: word_less_nat_alt sum)
    then have "unat (currentBlockSize ?c - BlockShrinkStep) = unat (currentBlockSize ?c) - 4096"
      by (subst unat_sub) (simp_all add: BlockShrinkStep_def word_le_nat_alt)
    then show "BlockMin ?c \<le> currentBlockSize ?c - BlockShrinkStep"
      "currentBlockSize ?c - BlockShrinkStep \<le> currentBlockSize ?c"
      using lt by (simp_all add: word_le_nat_alt)
  qed
  then show ?thesis
    using e by (auto simp: OnIncompleteResponse_def Let_def cc_inv_defs)
qed

lemma OnSuccess_inv:
  assumes "cc_inv c"
  shows "cc_inv (OnSuccess rtt c)"
proof -
  let ?c = "(updateRTTLocked rtt c)\<lparr>cleanTxStreak := cleanTxStreak (updateRTTLocked rtt c) + 1\<rparr>"
  have e: "cc_inv ?c" using assms by (auto simp: updateRTTLocked_def Let_def cc_inv_defs)
  then have "cc_config ?c" "cc_block ?c" by (simp_all add: cc_inv_def)
  from grown_block_bounds [OF this] e show ?thesis
    by (auto simp: OnSuccess_def Let_def cc_inv_defs)
qed

lemma OnQueueNonEmpty_inv: "cc_inv c \<Longrightarrow> cc_inv (OnQueueNonEmpty now c)"
  using burst_window_bounds [of c] by (auto simp: OnQueueNonEmpty_def cc_inv_defs)

lemma cc_step_inv: "cc_inv c \<Longrightarrow> cc_inv (cc_step c e)"
  by (cases e) (simp_all add: OnQueueNonEmpty_inv OnQueueEmpty_def CheckBurstTimeout_def
      endBurst_inv OnTimeoutOrServerError_eq onError_inv OnIncompleteResponse_inv OnSuccess_inv)

interpretation cc: invariant_machine cc_step cc_inv "\<lambda>_. True"
  by unfold_locales (rule cc_step_inv)

lemma cc_run_inv: "cc_inv (cc_run NewCongestionController es)"
  by (rule cc.inv_run) (simp_all add: cc_inv_New list_all_iff)

section \<open>Bursts and the penalty\<close>

definition clean_bursts :: "nat \<Rightarrow> cc_event list" where
  "clean_bursts n = concat (replicate n [QueueNonEmpty 0, QueueEmpty])"

lemma clean_bursts_add: "clean_bursts (m + n) = clean_bursts m @ clean_bursts n"
  by (simp add: clean_bursts_def replicate_add)

text \<open>A clean burst from an idle controller changes the recovery state only.\<close>

definition idle_with :: "rat \<Rightarrow> int \<Rightarrow> CongestionController \<Rightarrow> bool" where
  "idle_with p k c \<longleftrightarrow> \<not> inBurst c \<and> burstCeilingPenalty c = p \<and> cleanBurstStreak c = k"

lemma one_clean_burst:
  "idle_with p k c \<Longrightarrow> p < 1 \<Longrightarrow> k < 3 \<Longrightarrow> idle_with p (k + 1) (cc_run c (clean_bursts 1))"
  "idle_with p 3 c \<Longrightarrow> p < 1 \<Longrightarrow>
     idle_with (min 1 (fadd p CeilingRecoveryStep)) 0 (cc_run c (clean_bursts 1))"
  by (auto simp: idle_with_def clean_bursts_def OnQueueNonEmpty_def OnQueueEmpty_def
      endBurstLocked_def Let_def CleanBurstsToRecover_def)

lemma three_clean_bursts:
  "idle_with p 0 c \<Longrightarrow> p < 1 \<Longrightarrow> idle_with p 3 (cc_run c (clean_bursts 3))"
  using one_clean_burst(1) [of p 0 c] one_clean_burst(1) [of p 1 "cc_run c (clean_bursts 1)"]
    one_clean_burst(1) [of p 2 "cc_run c (clean_bursts 2)"]
    clean_bursts_add [of 1 1] clean_bursts_add [of 2 1]
  by (simp add: numeral_2_eq_2 numeral_3_eq_3)

lemma four_clean_bursts:
  "idle_with p 0 c \<Longrightarrow> p < 1 \<Longrightarrow>
   idle_with (min 1 (fadd p CeilingRecoveryStep)) 0 (cc_run c (clean_bursts 4))"
  using three_clean_bursts [of p c] one_clean_burst(2) [of p "cc_run c (clean_bursts 3)"]
    clean_bursts_add [of 3 1] by simp

text \<open>The penalties on the way back from one error, as multiples of \<open>2 ^ -53\<close>.\<close>

definition at53 :: "int \<Rightarrow> rat" where "at53 k = of_int k / 2 ^ 53"

lemma at53_less_1: "at53 k < 1 \<longleftrightarrow> k < 2 ^ 53"
  by (simp add: at53_def)

lemma at53_min: "k < 2 ^ 53 \<Longrightarrow> min 1 (at53 k) = at53 k"
  using at53_less_1 [of k] by simp

lemma penalty_values:
  "CeilingPenaltyFactor = at53 7205759403792794"
  "CeilingRecoveryStep = of_int 7205759403792794 / 2 ^ 57"
  "fmul 1 CeilingPenaltyFactor = at53 7205759403792794"
proof -
  show f: "CeilingPenaltyFactor = at53 7205759403792794"
    unfolding CeilingPenaltyFactor_def
    by (subst round64_eqI [where e = "-1" and k = 7205759403792794]) (simp_all add: pow2_def at53_def)
  show "CeilingRecoveryStep = of_int 7205759403792794 / 2 ^ 57"
    unfolding CeilingRecoveryStep_def
    by (subst round64_eqI [where e = "-5" and k = 7205759403792794]) (simp_all add: pow2_def at53_def)
  show "fmul 1 CeilingPenaltyFactor = at53 7205759403792794"
    unfolding fmul_def f at53_def
    by (subst round64_eqI [where e = "-1" and k = 7205759403792794]) (simp_all add: pow2_def at53_def)
qed

lemma recovery_values:
  "fadd (at53 7205759403792794) CeilingRecoveryStep = at53 7656119366529844"
  "fadd (at53 7656119366529844) CeilingRecoveryStep = at53 8106479329266894"
  "fadd (at53 8106479329266894) CeilingRecoveryStep = at53 8556839292003944"
  "1 \<le> fadd (at53 8556839292003944) CeilingRecoveryStep"
proof -
  show "fadd (at53 7205759403792794) CeilingRecoveryStep = at53 7656119366529844"
    unfolding fadd_def penalty_values(2) at53_def
    by (subst round64_eqI [where e = "-1" and k = 7656119366529844]) (simp_all add: pow2_def at53_def)
  show "fadd (at53 7656119366529844) CeilingRecoveryStep = at53 8106479329266894"
    unfolding fadd_def penalty_values(2) at53_def
    by (subst round64_eqI [where e = "-1" and k = 8106479329266894]) (simp_all add: pow2_def at53_def)
  show "fadd (at53 8106479329266894) CeilingRecoveryStep = at53 8556839292003944"
    unfolding fadd_def penalty_values(2) at53_def
    by (subst round64_eqI [where e = "-1" and k = 8556839292003944]) (simp_all add: pow2_def at53_def)
  show "1 \<le> fadd (at53 8556839292003944) CeilingRecoveryStep"
    unfolding fadd_def penalty_values(2) at53_def
    by (subst round64_eqI [where e = 0 and k = 4503599627370497]) (simp_all add: pow2_def at53_def)
qed

text \<open>After one error in a burst: the penalty after 4, 8, 12 and 16 clean bursts.\<close>

definition failed_burst :: "cc_event list" where
  "failed_burst = [QueueNonEmpty 0, TimeoutOrServerError]"

lemma failed_burst_penalty:
  "idle_with (at53 7205759403792794) 0 (cc_run NewCongestionController failed_burst)"
proof -
  let ?c = "OnQueueNonEmpty 0 NewCongestionController"
  have c: "cc_inv ?c" by (rule OnQueueNonEmpty_inv) (rule cc_inv_New)
  have floor: "PenaltyFloor \<le> at53 7205759403792794"
    using float64_constants(4) by (simp add: at53_def)
  have "burstCeilingPenalty ?c = 1" "inBurst ?c"
    by (simp_all add: OnQueueNonEmpty_def NewCongestionController_def)
  then have "idle_with (at53 7205759403792794) 0 (onErrorLocked ?c)"
    using penalty_values(3) floor
    by (simp add: idle_with_def onErrorLocked_def endBurstLocked_def Let_def not_less)
  then show ?thesis using OnTimeoutOrServerError_eq [OF c] by (simp add: failed_burst_def)
qed

lemma recovery_chain:
  defines "c n \<equiv> cc_run NewCongestionController (failed_burst @ clean_bursts n)"
  shows "idle_with (at53 7656119366529844) 0 (c 4)" "idle_with (at53 8106479329266894) 0 (c 8)"
    "idle_with (at53 8556839292003944) 0 (c 12)" "idle_with (at53 8556839292003944) 3 (c 15)"
    "idle_with 1 0 (c 16)"
proof -
  have next4: "c (n + k) = cc_run (c n) (clean_bursts k)" for n k
    by (simp add: c_def clean_bursts_add)
  have c0: "idle_with (at53 7205759403792794) 0 (c 0)"
    using failed_burst_penalty by (simp add: c_def clean_bursts_def)
  show c4: "idle_with (at53 7656119366529844) 0 (c 4)"
    using four_clean_bursts [OF c0] recovery_values(1) next4 [of 0 4]
    by (simp add: at53_less_1 at53_min)
  show c8: "idle_with (at53 8106479329266894) 0 (c 8)"
    using four_clean_bursts [OF c4] recovery_values(2) next4 [of 4 4]
    by (simp add: at53_less_1 at53_min)
  show c12: "idle_with (at53 8556839292003944) 0 (c 12)"
    using four_clean_bursts [OF c8] recovery_values(3) next4 [of 8 4]
    by (simp add: at53_less_1 at53_min)
  show "idle_with (at53 8556839292003944) 3 (c 15)"
    using three_clean_bursts [OF c12] next4 [of 12 3] by (simp add: at53_less_1)
  show "idle_with 1 0 (c 16)"
    using four_clean_bursts [OF c12] recovery_values(4) next4 [of 12 4] by (simp add: at53_less_1 min_def)
qed

section \<open>Round-trip times\<close>

definition rtt_within :: "int \<Rightarrow> CongestionController \<Rightarrow> bool" where
  "rtt_within b c \<longleftrightarrow> 0 \<le> rttAvg c \<and> rttAvg c \<le> b \<and> 0 \<le> rttVar c \<and> rttVar c \<le> b"

definition sample_within :: "int \<Rightarrow> cc_event \<Rightarrow> bool" where
  "sample_within b e = (case e of Success rtt \<Rightarrow> 0 \<le> rtt \<and> rtt \<le> b | _ \<Rightarrow> True)"

text \<open>Below \<open>2 ^ 62\<close> nothing wraps, and the update is the plain one.\<close>

lemma updateRTT_plain:
  assumes "rtt_within b c" "0 \<le> s" "s \<le> b" "b < 2 ^ 62" "rttSet c"
  shows "rttAvg (updateRTTLocked s c) = rttAvg c + go_quot (s - rttAvg c) 8"
    "rttVar (updateRTTLocked s c) = rttVar c + go_quot (\<bar>s - rttAvg c\<bar> - rttVar c) 4"
    "rtt_within b (updateRTTLocked s c)"
proof -
  have abs: "0 \<le> \<bar>s - rttAvg c\<bar>" "\<bar>s - rttAvg c\<bar> \<le> b"
    using assms(1-3) by (auto simp: rtt_within_def)
  have a: "0 \<le> rttAvg c + go_quot (s - rttAvg c) 8" "rttAvg c + go_quot (s - rttAvg c) 8 \<le> b"
    using assms(1-3) by (auto simp: rtt_within_def intro!: go_quot_range)
  have v: "0 \<le> rttVar c + go_quot (\<bar>s - rttAvg c\<bar> - rttVar c) 4"
    "rttVar c + go_quot (\<bar>s - rttAvg c\<bar> - rttVar c) 4 \<le> b"
    using assms(1) abs by (auto simp: rtt_within_def intro!: go_quot_range)
  have d: "i64 (s - rttAvg c) = s - rttAvg c" "i64 (- (s - rttAvg c)) = - (s - rttAvg c)"
    "i64 (\<bar>s - rttAvg c\<bar> - rttVar c) = \<bar>s - rttAvg c\<bar> - rttVar c"
    using assms(1-4) by (auto simp: rtt_within_def intro!: i64_id)
  have "i64 (rttAvg c + go_quot (s - rttAvg c) 8) = rttAvg c + go_quot (s - rttAvg c) 8"
    "i64 (rttVar c + go_quot (\<bar>s - rttAvg c\<bar> - rttVar c) 4) =
      rttVar c + go_quot (\<bar>s - rttAvg c\<bar> - rttVar c) 4"
    using assms(1-4) a v by (auto simp: rtt_within_def intro!: i64_id)
  then show "rttAvg (updateRTTLocked s c) = rttAvg c + go_quot (s - rttAvg c) 8"
    "rttVar (updateRTTLocked s c) = rttVar c + go_quot (\<bar>s - rttAvg c\<bar> - rttVar c) 4"
    using assms(5) d by (auto simp: updateRTTLocked_def Let_def abs_if)
  then show "rtt_within b (updateRTTLocked s c)"
    using assms(1-3) a v by (auto simp: rtt_within_def)
qed

lemma updateRTT_within:
  assumes "rtt_within b c" "0 \<le> s" "s \<le> b" "b < 2 ^ 62"
  shows "rtt_within b (updateRTTLocked s c)"
proof (cases "rttSet c")
  case True
  then show ?thesis using assms by (intro updateRTT_plain(3))
next
  case False
  then show ?thesis
    using assms by (simp add: updateRTTLocked_def rtt_within_def go_quot_pos)
qed

lemma cc_step_rtt:
  "rtt_within b c \<Longrightarrow> b < 2 ^ 62 \<Longrightarrow> sample_within b e \<Longrightarrow> rtt_within b (cc_step c e)"
proof (cases e)
  case (Success r)
  assume "rtt_within b c" "b < 2 ^ 62" "sample_within b e"
  then have "rtt_within b (updateRTTLocked r c)"
    using Success by (intro updateRTT_within) (auto simp: sample_within_def)
  then show ?thesis using Success by (auto simp: OnSuccess_def Let_def rtt_within_def)
qed (auto simp: OnQueueNonEmpty_def OnQueueEmpty_def
  CheckBurstTimeout_def OnTimeoutOrServerError_def OnIncompleteResponse_def onErrorLocked_def
  endBurstLocked_def Let_def rtt_within_def)

interpretation rtt: invariant_machine cc_step "\<lambda>c. rtt_within b c \<and> b < 2 ^ 62" "sample_within b"
  for b
  by unfold_locales (simp add: cc_step_rtt)

text \<open>No method changes the settings.\<close>

definition default_settings :: "CongestionController \<Rightarrow> bool" where
  "default_settings c \<longleftrightarrow> WBaseline c = 2 \<and> WBurstTarget c = 8 \<and> WBurstAbsMax c = 10 \<and>
     BlockMin c = 4096 \<and> BlockSoftMax c = 24576 \<and> MinTimeout c = 500 * millisecond \<and>
     MaxTimeout c = 10 * second"

lemma default_settings_step: "default_settings c \<Longrightarrow> default_settings (cc_step c e)"
  by (cases e) (auto simp: cc_defs Let_def default_settings_def)

interpretation settings: invariant_machine cc_step default_settings "\<lambda>_. True"
  by unfold_locales (rule default_settings_step)

lemma cc_run_settings:
  "WBaseline (cc_run NewCongestionController es) = 2" "WBurstTarget (cc_run NewCongestionController es) = 8"
  "BlockMin (cc_run NewCongestionController es) = 4096"
  "BlockSoftMax (cc_run NewCongestionController es) = 24576"
  "MinTimeout (cc_run NewCongestionController es) = 500 * millisecond"
  "MaxTimeout (cc_run NewCongestionController es) = 10 * second"
proof -
  have "default_settings (cc_run NewCongestionController es)"
    by (rule settings.inv_run) (simp_all add: default_settings_def NewCongestionController_def list_all_iff)
  then show "WBaseline (cc_run NewCongestionController es) = 2"
    "WBurstTarget (cc_run NewCongestionController es) = 8"
    "BlockMin (cc_run NewCongestionController es) = 4096"
    "BlockSoftMax (cc_run NewCongestionController es) = 24576"
    "MinTimeout (cc_run NewCongestionController es) = 500 * millisecond"
    "MaxTimeout (cc_run NewCongestionController es) = 10 * second"
    by (simp_all add: default_settings_def)
qed

section \<open>Properties\<close>

text \<open>C25: Whatever sequence of queue, success, error and clock events a new controller sees: the
  window stays between 2 and 8 and is 2 outside a burst, the block size stays between 4 KiB and
  24 KiB, the penalty stays between its floor and 1, and the timeout between 500 ms and 10 s.\<close>

theorem congestion_bounds:
  "let c = cc_run NewCongestionController es in
   2 \<le> CurrentWindow c \<and> CurrentWindow c \<le> 8 \<and> (InBurst c \<or> CurrentWindow c = 2) \<and>
   4096 \<le> CurrentBlockSize c \<and> CurrentBlockSize c \<le> 24576 \<and>
   PenaltyFloor \<le> burstCeilingPenalty c \<and> burstCeilingPenalty c \<le> 1 \<and>
   500 * millisecond \<le> Timeout c \<and> Timeout c \<le> 10 * second"
  using cc_run_inv [of es] cc_run_settings [of es]
  by (auto simp: Let_def cc_inv_defs CurrentWindow_def CurrentBlockSize_def InBurst_def Timeout_def)

text \<open>After a timeout or server error the window is the baseline, the burst is over and the
  growth streak is gone; the decrement written at the end of the method never takes effect.\<close>

theorem timeout_returns_to_baseline:
  "let c = cc_run NewCongestionController es; c' = OnTimeoutOrServerError c in
   CurrentWindow c' = 2 \<and> \<not> InBurst c' \<and> cleanTxStreak c' = 0 \<and>
   CurrentBlockSize c' = CurrentBlockSize c \<and> c' = onErrorLocked c"
proof -
  have inv: "cc_inv (cc_run NewCongestionController es)" by (rule cc_run_inv)
  then show ?thesis
    using cc_run_settings [of es] OnTimeoutOrServerError_eq [OF inv]
    by (auto simp: Let_def onErrorLocked_def endBurstLocked_def CurrentWindow_def InBurst_def
        CurrentBlockSize_def cc_inv_defs)
qed

text \<open>One failed burst lowers the penalty; it takes four clean bursts for each recovery step,
  so that the penalty is below 1 after 15 clean bursts and 1 again after 16.\<close>

theorem penalty_recovery_needs_16:
  "burstCeilingPenalty (cc_run NewCongestionController (failed_burst @ clean_bursts 15)) < 1 \<and>
   burstCeilingPenalty (cc_run NewCongestionController (failed_burst @ clean_bursts 16)) = 1"
  using recovery_chain(4,5) by (simp add: idle_with_def at53_less_1)

text \<open>C39: With round-trip samples between 0 and \<open>b\<close>, \<open>b\<close> below \<open>2 ^ 60\<close> ns, the averages stay
  between 0 and \<open>b\<close> and the timeout is the clamped \<open>rttAvg + 4 * rttVar\<close>, without overflow.\<close>

theorem rtt_estimates_bounded:
  assumes "0 \<le> b" "b < 2 ^ 60" "list_all (sample_within b) es"
  shows "let c = cc_run NewCongestionController es in
    0 \<le> rttAvg c \<and> rttAvg c \<le> b \<and> 0 \<le> rttVar c \<and> rttVar c \<le> b \<and>
    Timeout c = (if rttSet c then max (500 * millisecond) (min (10 * second) (rttAvg c + 4 * rttVar c))
      else 500 * millisecond)"
proof -
  let ?c = "cc_run NewCongestionController es"
  have "rtt_within b NewCongestionController \<and> b < 2 ^ 62"
    using assms(1,2) by (simp add: rtt_within_def NewCongestionController_def)
  then have w: "rtt_within b ?c" using rtt.inv_run [OF _ assms(3)] by blast
  then have "i64 (4 * rttVar ?c) = 4 * rttVar ?c"
    "i64 (rttAvg ?c + 4 * rttVar ?c) = rttAvg ?c + 4 * rttVar ?c"
    using assms(2) by (auto simp: rtt_within_def intro!: i64_id)
  then show ?thesis
    using w cc_run_settings [of es] by (auto simp: Let_def rtt_within_def Timeout_def)
qed

theorem rtt_estimates_bounded_witness:
  "let c = cc_run NewCongestionController [Success 1000, Success 3000] in
    0 \<le> rttAvg c \<and> rttAvg c \<le> 3000 \<and> 0 \<le> rttVar c \<and> rttVar c \<le> 3000 \<and>
    Timeout c = (if rttSet c then max (500 * millisecond) (min (10 * second) (rttAvg c + 4 * rttVar c))
      else 500 * millisecond)"
  by (rule rtt_estimates_bounded) (simp_all add: sample_within_def)

end
