(* ===== verification/Reconnect.thy ===== *)
theory Reconnect
  imports Prelude
begin

text \<open>
  \<open>transport/reconnect.go\<close>: the grace period after a reconnect handshake and the budget of
  redundant sends. The clock is the argument \<open>now\<close>.
\<close>

section \<open>Model\<close>

record ReconnectState =
  inGrace :: bool
  graceStarted :: nanos
  graceTimeout :: nanos
  keyConfirmed :: bool
  redundantSent :: int
  redundantTotal :: int

definition DefaultGraceTimeout :: nanos where "DefaultGraceTimeout = 5 * second"
definition DefaultRedundantCount :: int where "DefaultRedundantCount = 3"

definition NewReconnectState :: ReconnectState where
  "NewReconnectState = \<lparr>inGrace = False, graceStarted = 0, graceTimeout = DefaultGraceTimeout,
     keyConfirmed = False, redundantSent = 0, redundantTotal = DefaultRedundantCount\<rparr>"

definition StartGrace :: "nanos \<Rightarrow> ReconnectState \<Rightarrow> ReconnectState" where
  "StartGrace now r =
     r\<lparr>inGrace := True, graceStarted := now, keyConfirmed := False, redundantSent := 0\<rparr>"

definition ConfirmKey :: "ReconnectState \<Rightarrow> ReconnectState" where
  "ConfirmKey r = r\<lparr>keyConfirmed := True, inGrace := False\<rparr>"

record GraceStatus =
  Active :: bool
  Confirmed :: bool
  Expired :: bool
  ElapsedSince :: nanos

definition Status :: "nanos \<Rightarrow> ReconnectState \<Rightarrow> GraceStatus" where
  "Status now r =
     (if keyConfirmed r then
        \<lparr>Active = False, Confirmed = True, Expired = False, ElapsedSince = 0\<rparr>
      else if \<not> inGrace r then
        \<lparr>Active = False, Confirmed = False, Expired = False, ElapsedSince = 0\<rparr>
      else
        let elapsed = now - graceStarted r
        in if elapsed \<ge> graceTimeout r then
             \<lparr>Active = False, Confirmed = False, Expired = True, ElapsedSince = elapsed\<rparr>
           else \<lparr>Active = True, Confirmed = False, Expired = False, ElapsedSince = elapsed\<rparr>)"

definition ShouldSendRedundant :: "ReconnectState \<Rightarrow> bool" where
  "ShouldSendRedundant r =
     (if keyConfirmed r \<or> \<not> inGrace r then False else redundantSent r < redundantTotal r)"

definition MarkRedundantSent :: "ReconnectState \<Rightarrow> ReconnectState" where
  "MarkRedundantSent r = r\<lparr>redundantSent := redundantSent r + 1\<rparr>"

definition reconnect_Reset :: "ReconnectState \<Rightarrow> ReconnectState" where
  "reconnect_Reset r = \<lparr>inGrace = False, graceStarted = 0, graceTimeout = graceTimeout r,
     keyConfirmed = False, redundantSent = 0, redundantTotal = redundantTotal r\<rparr>"

lemmas reconnect_defs = NewReconnectState_def StartGrace_def ConfirmKey_def Status_def
  ShouldSendRedundant_def MarkRedundantSent_def reconnect_Reset_def

section \<open>The grace period as a state machine\<close>

text \<open>The phases a reconnect is in, and the transitions the methods make between them.\<close>

datatype phase = Quiet | Waiting | Done

definition phase_of :: "ReconnectState \<Rightarrow> phase" where
  "phase_of r = (if keyConfirmed r then Done else if inGrace r then Waiting else Quiet)"

datatype reconnect_event = EvStart nanos | EvConfirm | EvMark | EvReset

fun reconnect_step :: "ReconnectState \<Rightarrow> reconnect_event \<Rightarrow> ReconnectState" where
  "reconnect_step r (EvStart now) = StartGrace now r"
| "reconnect_step r EvConfirm = ConfirmKey r"
| "reconnect_step r EvMark = MarkRedundantSent r"
| "reconnect_step r EvReset = reconnect_Reset r"

inductive phase_step :: "phase \<Rightarrow> reconnect_event \<Rightarrow> phase \<Rightarrow> bool" where
  start: "phase_step p (EvStart now) Waiting"
| confirm: "phase_step p EvConfirm Done"
| mark: "phase_step p EvMark p"
| reset: "phase_step p EvReset Quiet"

inductive_cases to_waiting: "phase_step p e Waiting"
inductive_cases to_done: "phase_step p e Done"
inductive_simps confirm_simps: "phase_step p EvConfirm q"

definition reconnect_inv :: "ReconnectState \<Rightarrow> bool" where
  "reconnect_inv r \<longleftrightarrow> \<not> (keyConfirmed r \<and> inGrace r) \<and> 0 \<le> redundantSent r \<and>
     graceTimeout r = DefaultGraceTimeout \<and> redundantTotal r = DefaultRedundantCount"

lemma reconnect_inv_New: "reconnect_inv NewReconnectState"
  by (simp add: reconnect_inv_def NewReconnectState_def)

lemma reconnect_step_inv: "reconnect_inv r \<Longrightarrow> reconnect_inv (reconnect_step r e)"
  by (cases e) (auto simp: reconnect_inv_def reconnect_defs)

interpretation reconnect: invariant_machine reconnect_step reconnect_inv "\<lambda>_. True"
  by unfold_locales (rule reconnect_step_inv)

lemma phase_refines: "phase_step (phase_of r) e (phase_of (reconnect_step r e))"
  by (cases e) (auto simp: phase_of_def reconnect_defs intro: phase_step.intros)

lemma phase_step_deterministic: "phase_step p e q \<Longrightarrow> phase_step p e q' \<Longrightarrow> q = q'"
  by (induction rule: phase_step.induct) (auto elim: phase_step.cases)

text \<open>A sender that asks before each redundant copy and records it, as \<open>client.Push\<close> does.\<close>

fun redundant_sends :: "nat \<Rightarrow> ReconnectState \<Rightarrow> nat" where
  "redundant_sends 0 r = 0"
| "redundant_sends (Suc n) r =
     (if ShouldSendRedundant r then Suc (redundant_sends n (MarkRedundantSent r))
      else redundant_sends n r)"

lemma redundant_sends_budget:
  "ShouldSendRedundant r \<Longrightarrow> redundant_sends n r = min n (nat (redundantTotal r - redundantSent r))"
proof (induction n arbitrary: r)
  case 0
  then show ?case by simp
next
  case (Suc n)
  have stop: "redundant_sends n r' = 0" if "\<not> ShouldSendRedundant r'" for n r'
    using that by (induction n) simp_all
  let ?r = "MarkRedundantSent r"
  show ?case
  proof (cases "ShouldSendRedundant ?r")
    case True
    then have "redundantSent r + 1 < redundantTotal r"
      by (simp add: ShouldSendRedundant_def MarkRedundantSent_def split: if_splits)
    then show ?thesis
      using Suc.prems Suc.IH [OF True] by (simp add: MarkRedundantSent_def)
  next
    case False
    then have "redundantTotal r = redundantSent r + 1"
      using Suc.prems by (auto simp: ShouldSendRedundant_def MarkRedundantSent_def split: if_splits)
    then show ?thesis using Suc.prems False by (simp add: stop)
  qed
qed

section \<open>Properties\<close>

text \<open>\<open>Status\<close> of any state reached by the methods: exactly one of active, confirmed, expired
  and idle; a confirmed key ends the grace period at once, and an open grace period expires after
  five seconds, not before.\<close>

theorem grace_status_after_run:
  "let r = foldl reconnect_step NewReconnectState es; st = Status now r in
   (Confirmed st \<longleftrightarrow> phase_of r = Done) \<and>
   (Active st \<longleftrightarrow> phase_of r = Waiting \<and> now - graceStarted r < 5 * second) \<and>
   (Expired st \<longleftrightarrow> phase_of r = Waiting \<and> now - graceStarted r \<ge> 5 * second) \<and>
   ElapsedSince st = (if phase_of r = Waiting then now - graceStarted r else 0)"
proof -
  have "reconnect_inv (foldl reconnect_step NewReconnectState es)"
    by (rule reconnect.inv_run) (simp_all add: reconnect_inv_New list_all_iff)
  then show ?thesis
    by (auto simp: Let_def Status_def phase_of_def reconnect_inv_def DefaultGraceTimeout_def)
qed

text \<open>In a grace period that was just started, a sender that asks \<open>ShouldSendRedundant\<close> before
  each copy and records it with \<open>MarkRedundantSent\<close> sends three copies and no more.\<close>

theorem redundant_budget_is_three:
  "redundant_sends n (StartGrace now (foldl reconnect_step NewReconnectState es)) = min n 3"
proof -
  have inv: "reconnect_inv (foldl reconnect_step NewReconnectState es)"
    by (rule reconnect.inv_run) (simp_all add: reconnect_inv_New list_all_iff)
  then show ?thesis
    by (subst redundant_sends_budget)
      (auto simp: StartGrace_def ShouldSendRedundant_def reconnect_inv_def DefaultRedundantCount_def)
qed

text \<open>\<open>ShouldSendRedundant\<close> does not look at the clock: long after the grace period has expired
  it still answers yes, although \<open>Status\<close> reports the period as expired.\<close>

theorem redundant_after_expiry:
  assumes "5 * second \<le> elapsed"
  shows "let r = StartGrace now NewReconnectState in
    Expired (Status (now + elapsed) r) \<and> \<not> Active (Status (now + elapsed) r) \<and> ShouldSendRedundant r"
  using assms
  by (simp add: Let_def Status_def StartGrace_def NewReconnectState_def ShouldSendRedundant_def
      DefaultGraceTimeout_def DefaultRedundantCount_def)

theorem redundant_after_expiry_witness:
  "let r = StartGrace 0 NewReconnectState in
    Expired (Status (0 + hour) r) \<and> \<not> Active (Status (0 + hour) r) \<and> ShouldSendRedundant r"
  by (rule redundant_after_expiry) simp

end
