(* ===== verification/Session.thy ===== *)
theory Session
  imports ProtoFrame Replay Reorder Congestion Reconnect
begin

text \<open>
  \<open>transport/session.go\<close>: the state of one side of a connection, the send counters, and the two
  paths through it: \<open>EncodeOutgoing\<close> seals a payload under the next counter and sequence number,
  \<open>DecodeIncoming\<close> opens a frame, checks it against the replay window and hands it to the
  reorder buffer. Each method is one step; \<open>SessionThreads\<close> cuts them at their accesses to shared
  memory.
\<close>

section \<open>Model\<close>

datatype State = StateNew | StateHandshaking | StateActive | StateReconnecting | StateClosed

fun state_iota :: "State \<Rightarrow> nat" where
  "state_iota StateNew = 0"
| "state_iota StateHandshaking = 1"
| "state_iota StateActive = 2"
| "state_iota StateReconnecting = 3"
| "state_iota StateClosed = 4"

fun State_String :: "State \<Rightarrow> string" where
  "State_String StateNew = ''NEW''"
| "State_String StateHandshaking = ''HANDSHAKING''"
| "State_String StateActive = ''ACTIVE''"
| "State_String StateReconnecting = ''RECONNECTING''"
| "State_String StateClosed = ''CLOSED''"

text \<open>The constants are consecutive integers; their order is the order of the type.\<close>

lemma state_iota_inject: "state_iota a = state_iota b \<Longrightarrow> a = b"
  by (cases a; cases b) simp_all

instantiation State :: linorder
begin

definition less_eq_State :: "State \<Rightarrow> State \<Rightarrow> bool" where
  "less_eq_State a b \<longleftrightarrow> state_iota a \<le> state_iota b"

definition less_State :: "State \<Rightarrow> State \<Rightarrow> bool" where
  "less_State a b \<longleftrightarrow> state_iota a < state_iota b"

instance
  by standard (auto simp: less_eq_State_def less_State_def intro: state_iota_inject)

end

record Session =
  s_DeviceID :: u64
  s_ConnectionID :: u32
  s_SessionKey :: bytes
  s_State :: State
  s_sendCounter :: u32
  s_sendSequence :: u32
  s_replay :: ReplayWindow
  s_reorder :: ReorderBuffer
  s_Congestion :: CongestionController
  s_Reconnect :: ReconnectState
  s_lastActivity :: nanos

definition NewSession :: "nanos \<Rightarrow> u64 \<Rightarrow> Session" where
  "NewSession now deviceID = \<lparr>s_DeviceID = deviceID, s_ConnectionID = 0, s_SessionKey = [],
     s_State = StateNew, s_sendCounter = 0, s_sendSequence = 0, s_replay = NewReplayWindow,
     s_reorder = NewReorderBuffer 0, s_Congestion = NewCongestionController,
     s_Reconnect = NewReconnectState, s_lastActivity = now\<rparr>"

definition CompleteHandshake :: "nanos \<Rightarrow> u32 \<Rightarrow> bytes \<Rightarrow> Session \<Rightarrow> Session" where
  "CompleteHandshake now connectionID sessionKey s =
     s\<lparr>s_ConnectionID := connectionID, s_SessionKey := sessionKey, s_sendCounter := 0,
       s_replay := replay_Reset (s_replay s), s_State := StateActive, s_lastActivity := now\<rparr>"

definition NextSendCounter :: "Session \<Rightarrow> u32 \<times> Session" where
  "NextSendCounter s =
     (let s' = s\<lparr>s_sendCounter := s_sendCounter s + 1\<rparr> in (s_sendCounter s' - 1, s'))"

definition NextSendSequence :: "Session \<Rightarrow> u32 \<times> Session" where
  "NextSendSequence s =
     (let s' = s\<lparr>s_sendSequence := s_sendSequence s + 1\<rparr> in (s_sendSequence s' - 1, s'))"

definition EncodeOutgoing :: "bytes \<Rightarrow> byte \<Rightarrow> Session \<Rightarrow> (proto_error + bytes) \<times> Session" where
  "EncodeOutgoing payload flags s =
     (let key = s_SessionKey s; connID = s_ConnectionID s;
          (seq, s1) = NextSendSequence s;
          (ctr, s2) = NextSendCounter s1;
          f = \<lparr>df_ConnectionID = connID, df_StreamID = 0, df_Sequence = seq, df_Ack = 0,
               df_Flags = flags OR FlagData, df_Payload = payload\<rparr>
      in (EncodeDataFrame key ctr f, s2))"

record DecodeIncomingResult =
  Accepted :: bool
  is_Replay :: bool
  Ready :: "bytes list"
  Frame :: DataFrame

definition DecodeIncoming ::
  "nanos \<Rightarrow> bytes \<Rightarrow> Session \<Rightarrow> (proto_error + DecodeIncomingResult) \<times> Session" where
  "DecodeIncoming now wire s =
     (case DecodeDataFrame (s_SessionKey s) (s_ConnectionID s) wire of
        Inl e \<Rightarrow> (Inl e, s)
      | Inr (frame, counter) \<Rightarrow>
          (case CheckAndMark counter (s_replay s) of
             (False, w) \<Rightarrow>
               (Inr \<lparr>Accepted = False, is_Replay = True, Ready = [], Frame = frame\<rparr>,
                s\<lparr>s_replay := w\<rparr>)
           | (True, w) \<Rightarrow>
               (let s1 = s\<lparr>s_replay := w, s_lastActivity := now\<rparr>;
                    (ready, r) = Insert (df_Sequence frame) (df_Payload frame) (s_reorder s1)
                in (Inr \<lparr>Accepted = True, is_Replay = False, Ready = ready, Frame = frame\<rparr>,
                    s1\<lparr>s_reorder := r\<rparr>))))"

definition LastActivity :: "Session \<Rightarrow> nanos" where
  "LastActivity s = s_lastActivity s"

definition SetState :: "State \<Rightarrow> Session \<Rightarrow> Session" where
  "SetState st s = s\<lparr>s_State := st\<rparr>"

definition GetState :: "Session \<Rightarrow> State" where
  "GetState s = s_State s"

text \<open>
  The loop body that \<open>handlePush\<close> and \<open>Pull\<close> share: frames that fail to open and replays are
  skipped, the payloads that became ready are collected.
\<close>

fun decode_batch :: "nanos \<Rightarrow> bytes list \<Rightarrow> Session \<Rightarrow> bytes list \<times> Session" where
  "decode_batch now [] s = ([], s)"
| "decode_batch now (wire # wires) s =
     (case DecodeIncoming now wire s of
        (Inl e, s1) \<Rightarrow> decode_batch now wires s1
      | (Inr res, s1) \<Rightarrow>
          (case decode_batch now wires s1 of
             (rest, s2) \<Rightarrow> ((if Accepted res then Ready res else []) @ rest, s2)))"

text \<open>Sending a list of payloads, in order.\<close>

fun encode_batch :: "bytes list \<Rightarrow> Session \<Rightarrow> (proto_error + bytes) list \<times> Session" where
  "encode_batch [] s = ([], s)"
| "encode_batch (p # ps) s =
     (case EncodeOutgoing p 0 s of (w, s1) \<Rightarrow>
        case encode_batch ps s1 of (ws, s2) \<Rightarrow> (w # ws, s2))"

section \<open>Sending\<close>

lemma NextSendCounter_eq:
  "NextSendCounter s = (s_sendCounter s, s\<lparr>s_sendCounter := s_sendCounter s + 1\<rparr>)"
  by (simp add: NextSendCounter_def Let_def)

lemma NextSendSequence_eq:
  "NextSendSequence s = (s_sendSequence s, s\<lparr>s_sendSequence := s_sendSequence s + 1\<rparr>)"
  by (simp add: NextSendSequence_def Let_def)

text \<open>Frame \<open>i\<close> from the state \<open>s\<close>, and the session after it.\<close>

definition out_frame :: "byte \<Rightarrow> Session \<Rightarrow> nat \<Rightarrow> bytes \<Rightarrow> DataFrame" where
  "out_frame flags s i payload = \<lparr>df_ConnectionID = s_ConnectionID s, df_StreamID = 0,
     df_Sequence = s_sendSequence s + word_of_nat i, df_Ack = 0, df_Flags = flags OR FlagData,
     df_Payload = payload\<rparr>"

definition out_wire :: "byte \<Rightarrow> Session \<Rightarrow> nat \<Rightarrow> bytes \<Rightarrow> bytes" where
  "out_wire flags s i payload =
     (let ctr = s_sendCounter s + word_of_nat i
      in put32 ctr @ gcm_seal (s_SessionKey s) (BuildNonce (s_ConnectionID s) (ucast ctr))
           (encodePlaintext (out_frame flags s i payload)))"

definition advance :: "nat \<Rightarrow> Session \<Rightarrow> Session" where
  "advance n s = s\<lparr>s_sendSequence := s_sendSequence s + word_of_nat n,
     s_sendCounter := s_sendCounter s + word_of_nat n\<rparr>"

lemma EncodeOutgoing_eq:
  "EncodeOutgoing payload flags s =
     (EncodeDataFrame (s_SessionKey s) (s_sendCounter s) (out_frame flags s 0 payload), advance 1 s)"
  by (simp add: EncodeOutgoing_def NextSendCounter_eq NextSendSequence_eq Let_def out_frame_def
      advance_def)

lemma EncodeOutgoing_wire:
  "aes_key_ok (s_SessionKey s) \<Longrightarrow>
   EncodeOutgoing payload flags s = (Inr (out_wire flags s 0 payload), advance 1 s)"
  by (simp add: EncodeOutgoing_eq EncodeDataFrame_ok out_wire_def out_frame_def Let_def)

lemma out_wire_advance: "out_wire flags (advance n s) i p = out_wire flags s (n + i) p"
  by (simp add: out_wire_def out_frame_def advance_def Let_def add.assoc)

lemma advance_add: "advance m (advance n s) = advance (n + m) s"
  by (simp add: advance_def add.assoc)

lemma advance_key [simp]:
  "s_SessionKey (advance n s) = s_SessionKey s" "s_ConnectionID (advance n s) = s_ConnectionID s"
  by (simp_all add: advance_def)

lemma length_out_wire:
  "aes_key_ok (s_SessionKey s) \<Longrightarrow> length (out_wire flags s i p) = 37 + length p"
  by (simp add: out_wire_def out_frame_def Let_def)

lemma encode_batch_wires:
  "aes_key_ok (s_SessionKey s) \<Longrightarrow>
   encode_batch ps s =
     (map (\<lambda>i. Inr (out_wire 0 s i (ps ! i))) [0..<length ps], advance (length ps) s)"
proof (induction ps arbitrary: s)
  case Nil
  then show ?case by (simp add: advance_def)
next
  case (Cons p ps)
  have "encode_batch ps (advance 1 s) =
      (map (\<lambda>i. Inr (out_wire 0 s (Suc i) (ps ! i))) [0..<length ps], advance (Suc (length ps)) s)"
    using Cons.IH [of "advance 1 s"] Cons.prems by (simp add: out_wire_advance advance_add)
  then show ?case
    using Cons.prems by (simp add: EncodeOutgoing_wire map_upt_Suc del: upt_Suc)
qed

section \<open>Receiving\<close>

text \<open>
  The receiver shares key and connection with the sender \<open>s\<close>, whose counter starts at 0 and
  whose next sequence number is \<open>q\<close>; it holds the frames \<open>B\<close> from before the handshake and has
  accepted the frames numbered \<open>seen\<close> since.
\<close>

definition peers :: "Session \<Rightarrow> Session \<Rightarrow> bool" where
  "peers s r \<longleftrightarrow> s_SessionKey s = s_SessionKey r \<and> s_ConnectionID s = s_ConnectionID r \<and>
     aes_key_ok (s_SessionKey r) \<and> s_sendCounter s = 0"

definition frame_set :: "nat set \<Rightarrow> nat \<Rightarrow> nat set \<Rightarrow> nat set" where
  "frame_set B q seen = B \<union> (+) q ` seen"

definition recv_repr :: "(nat \<Rightarrow> bytes) \<Rightarrow> nat set \<Rightarrow> nat \<Rightarrow> Session \<Rightarrow> nat set \<Rightarrow> bool" where
  "recv_repr f B q r seen \<longleftrightarrow> window_repr (s_replay r) (word_of_nat ` seen) \<and>
     buffer_repr f (s_reorder r) (frame_set B q seen)"

text \<open>An arrival order in which each first arrival is less than 64 behind the newest frame.\<close>

fun timely :: "nat list \<Rightarrow> nat list \<Rightarrow> bool" where
  "timely seen [] = True"
| "timely seen (i # is) =
     ((i \<in> set seen \<or> list_all (\<lambda>a. a < i + 64) seen) \<and> timely (i # seen) is)"

lemma frame_set_simps [simp]:
  "frame_set B q {} = B" "frame_set B q (insert i S) = insert (q + i) (frame_set B q S)"
  by (auto simp: frame_set_def)

lemma frame_set_Un: "frame_set B q (A \<union> B) = frame_set B q A \<union> (+) q ` B"
  by (auto simp: frame_set_def)

lemma Decode_out_wire:
  assumes "peers s r" "length p < 65536"
  shows "DecodeDataFrame (s_SessionKey r) (s_ConnectionID r) (out_wire flags s i p) =
    Inr (out_frame flags s i p, word_of_nat i)"
  using assms
  by (simp add: peers_def out_wire_def Let_def DecodeDataFrame_sealed decode_encode_data
      out_frame_def)

lemma word_mem_iff:
  "\<forall>a \<in> S. a < 2 ^ 32 \<Longrightarrow> i < 2 ^ 32 \<Longrightarrow> (word_of_nat i :: u32) \<in> word_of_nat ` S \<longleftrightarrow> i \<in> S"
  by (metis image_iff unat_seq)

lemma acceptable_iff:
  assumes "\<forall>a \<in> S. a < 2 ^ 32" "i < 2 ^ 32"
  shows "acceptable (word_of_nat ` S) (word_of_nat i) \<longleftrightarrow> i \<notin> S \<and> (\<forall>a \<in> S. a < i + 64)"
  using assms by (simp add: acceptable_def word_mem_iff)

lemma decode_seen:
  assumes "peers s r" "recv_repr f B q r seen" "length p < 65536" "i \<in> seen" "\<forall>a \<in> seen. a < 2 ^ 32"
  shows "\<exists>r'. DecodeIncoming now (out_wire flags s i p) r =
      (Inr \<lparr>Accepted = False, is_Replay = True, Ready = [], Frame = out_frame flags s i p\<rparr>, r') \<and>
    recv_repr f B q r' seen \<and> peers s r'"
proof -
  have no: "\<not> acceptable (word_of_nat ` seen) (word_of_nat i)"
    using assms(4) by (simp add: acceptable_def)
  obtain b w where ch: "CheckAndMark (word_of_nat i) (s_replay r) = (b, w)"
    by (cases "CheckAndMark (word_of_nat i) (s_replay r)")
  have repr: "window_repr (s_replay r) (word_of_nat ` seen)"
    using assms(2) by (simp add: recv_repr_def)
  have "\<not> b" "window_repr w (word_of_nat ` seen)"
    using rw.check_verdict [OF repr, of "word_of_nat i"] rw.check_repr [OF repr, of "word_of_nat i"]
      no ch by simp_all
  then show ?thesis
    using ch assms(1,2) Decode_out_wire [OF assms(1,3), of flags i]
    by (simp add: DecodeIncoming_def recv_repr_def peers_def)
qed

lemma decode_new:
  assumes "peers s r" "recv_repr f B q r seen" "length p < 65536" "p = f (q + i)"
    "i \<notin> seen" "\<forall>a \<in> seen. a < i + 64" "\<forall>a \<in> seen. a < 2 ^ 32" "q + i < seq_bound"
    "s_sendSequence s = word_of_nat q"
  shows "\<exists>r'. DecodeIncoming now (out_wire flags s i p) r =
      (Inr \<lparr>Accepted = True, is_Replay = False,
        Ready = map f [mex (frame_set B q seen)..<mex (frame_set B q (insert i seen))],
        Frame = out_frame flags s i p\<rparr>, r') \<and>
    recv_repr f B q r' (insert i seen) \<and> peers s r'"
proof -
  have i32: "i < 2 ^ 32" using assms(8) by (simp add: seq_bound_def)
  have yes: "acceptable (word_of_nat ` seen) (word_of_nat i)"
    using assms(5-7) i32 by (simp add: acceptable_iff)
  obtain b w where ch: "CheckAndMark (word_of_nat i) (s_replay r) = (b, w)"
    by (cases "CheckAndMark (word_of_nat i) (s_replay r)")
  have repr: "window_repr (s_replay r) (word_of_nat ` seen)"
    "buffer_repr f (s_reorder r) (frame_set B q seen)"
    using assms(2) by (simp_all add: recv_repr_def)
  have w: "b" "window_repr w (word_of_nat ` insert i seen)"
    using rw.check_verdict [OF repr(1), of "word_of_nat i"]
      rw.check_repr [OF repr(1), of "word_of_nat i"] yes ch by simp_all
  obtain ready b' where ins: "Insert (word_of_nat (q + i)) p (s_reorder r) = (ready, b')"
    by (cases "Insert (word_of_nat (q + i)) p (s_reorder r)")
  have b': "ready = map f [mex (frame_set B q seen)..<mex (frame_set B q (insert i seen))]"
    "buffer_repr f b' (frame_set B q (insert i seen))"
    using rb.ins_spec [OF repr(2) assms(8) _ ins] assms(4) by auto
  have seq: "df_Sequence (out_frame flags s i p) = word_of_nat (q + i)"
    "df_Payload (out_frame flags s i p) = p"
    by (simp_all add: out_frame_def assms(9))
  show ?thesis
    using ch w b' ins assms(1) Decode_out_wire [OF assms(1,3), of flags i]
    by (simp add: DecodeIncoming_def recv_repr_def peers_def Let_def seq)
qed

text \<open>What two growing sets of arrivals release, one after the other.\<close>

lemma map_mex_append:
  assumes "S \<subseteq> T" "T \<subseteq> U" "U \<subseteq> {..<n}" "finite B"
  shows "map f [mex (frame_set B q S)..<mex (frame_set B q T)] @
    map f [mex (frame_set B q T)..<mex (frame_set B q U)] =
    map f [mex (frame_set B q S)..<mex (frame_set B q U)]"
proof -
  have fin: "finite (frame_set B q V)" if "V \<subseteq> {..<n}" for V
    using assms(4) that finite_subset [of V "{..<n}"] by (simp add: frame_set_def)
  have "mex (frame_set B q S) \<le> mex (frame_set B q T)" "mex (frame_set B q T) \<le> mex (frame_set B q U)"
    using assms(1-3) by (intro mex_mono fin; force simp: frame_set_def)+
  then show ?thesis by (metis le_add_diff_inverse map_append upt_add_eq_append)
qed

text \<open>
  A batch of frames in any timely order, with duplicates: what is delivered is the stream up to
  the first frame that has not arrived.
\<close>

lemma decode_batch_spec:
  assumes "s_sendSequence s = word_of_nat q" "\<forall>i < n. length (f (q + i)) < 65536"
    "q + n \<le> seq_bound" "finite B"
  shows "peers s r \<Longrightarrow> recv_repr f B q r (set seen) \<Longrightarrow> set seen \<subseteq> {..<n} \<Longrightarrow> set arr \<subseteq> {..<n} \<Longrightarrow>
    timely seen arr \<Longrightarrow>
    fst (decode_batch now (map (\<lambda>i. out_wire flags s i (f (q + i))) arr) r) =
      map f [mex (frame_set B q (set seen))..<mex (frame_set B q (set seen \<union> set arr))] \<and>
    recv_repr f B q (snd (decode_batch now (map (\<lambda>i. out_wire flags s i (f (q + i))) arr) r))
      (set seen \<union> set arr) \<and>
    peers s (snd (decode_batch now (map (\<lambda>i. out_wire flags s i (f (q + i))) arr) r))"
proof (induction arr arbitrary: r seen)
  case Nil
  then show ?case by simp
next
  case (Cons i arr)
  have i: "i < n" and len: "length (f (q + i)) < 65536" using Cons.prems(4) assms(2) by auto
  have bound: "\<forall>a \<in> set seen. a < 2 ^ 32"
    using Cons.prems(3) assms(3) by (force simp: seq_bound_def)
  show ?case
  proof (cases "i \<in> set seen")
    case True
    obtain r' where r': "recv_repr f B q r' (set seen)" "peers s r'"
      "DecodeIncoming now (out_wire flags s i (f (q + i))) r =
        (Inr \<lparr>Accepted = False, is_Replay = True, Ready = [],
          Frame = out_frame flags s i (f (q + i))\<rparr>, r')"
      using decode_seen [OF Cons.prems(1,2) len True bound] by blast
    have set_eq: "set (i # seen) = set seen" using True by auto
    have "recv_repr f B q r' (set (i # seen))" "set (i # seen) \<subseteq> {..<n}" "timely (i # seen) arr"
      "set arr \<subseteq> {..<n}"
      using r'(1) Cons.prems(3-5) set_eq by simp_all
    from Cons.IH [OF r'(2) this(1,2,4,3)] show ?thesis
      using r'(3) set_eq by (auto simp: split_beta insert_absorb True)
  next
    case False
    then have "\<forall>a \<in> set seen. a < i + 64" using Cons.prems(5) by (simp add: list_all_iff)
    moreover have "q + i < seq_bound" using i assms(3) by simp
    ultimately obtain r' where r': "recv_repr f B q r' (set (i # seen))" "peers s r'"
      "DecodeIncoming now (out_wire flags s i (f (q + i))) r =
        (Inr \<lparr>Accepted = True, is_Replay = False,
          Ready = map f [mex (frame_set B q (set seen))..<mex (frame_set B q (insert i (set seen)))],
          Frame = out_frame flags s i (f (q + i))\<rparr>, r')"
      using decode_new [OF Cons.prems(1,2) len refl False _ bound _ assms(1)] by fastforce
    have "set (i # seen) \<subseteq> {..<n}" "timely (i # seen) arr" "set arr \<subseteq> {..<n}"
      using i Cons.prems(3-5) by simp_all
    from Cons.IH [OF r'(2,1) this(1,3,2)]
    have IH: "fst (decode_batch now (map (\<lambda>i. out_wire flags s i (f (q + i))) arr) r') =
        map f [mex (frame_set B q (set (i # seen)))..<mex (frame_set B q (set seen \<union> set (i # arr)))]"
      "recv_repr f B q (snd (decode_batch now (map (\<lambda>i. out_wire flags s i (f (q + i))) arr) r'))
        (set seen \<union> set (i # arr))"
      "peers s (snd (decode_batch now (map (\<lambda>i. out_wire flags s i (f (q + i))) arr) r'))"
      by simp_all
    have "set seen \<subseteq> set (i # seen)" "set (i # seen) \<subseteq> set seen \<union> set (i # arr)"
      "set seen \<union> set (i # arr) \<subseteq> {..<n}"
      using Cons.prems(3,4) by auto
    from map_mex_append [OF this assms(4), of f q]
    show ?thesis using r'(3) IH by (simp add: split_beta)
  qed
qed

text \<open>A receiver that completed the same handshake as the sender.\<close>

lemma recv_repr_fresh:
  "window_repr (s_replay r) A \<Longrightarrow> buffer_repr f (s_reorder r) B \<Longrightarrow>
   recv_repr f B q (CompleteHandshake now cid key r) {}"
  by (simp add: recv_repr_def CompleteHandshake_def window_repr_Reset)

lemma mex_frame_set:
  assumes "finite S"
  shows "mex (frame_set {..<q} q S) = q + mex S"
proof (rule mex_eqI)
  show "q + mex S \<notin> frame_set {..<q} q S" using mex_notin [OF assms] by (auto simp: frame_set_def)
  show "n \<in> frame_set {..<q} q S" if "n < q + mex S" for n
  proof (cases "n < q")
    case False
    then have "n = q + (n - q)" "n - q \<in> S" using that less_mex [of "n - q" S] by auto
    then show ?thesis unfolding frame_set_def by blast
  qed (simp add: frame_set_def)
qed

lemma mex_frame_set_gap:
  assumes "finite B" "mex B < q"
  shows "mex (frame_set B q S) = mex B"
proof (rule mex_eqI)
  show "mex B \<notin> frame_set B q S" using mex_notin [OF assms(1)] assms(2) by (auto simp: frame_set_def)
  show "n \<in> frame_set B q S" if "n < mex B" for n using less_mex [OF that] by (simp add: frame_set_def)
qed

definition connected :: "nanos \<Rightarrow> u64 \<Rightarrow> u32 \<Rightarrow> bytes \<Rightarrow> Session" where
  "connected now deviceID cid key = CompleteHandshake now cid key (NewSession now deviceID)"

lemma connected_recv: "recv_repr f {} 0 (connected now d cid key) {}"
  unfolding connected_def
  by (rule recv_repr_fresh [where A = "{}"]) (simp_all add: NewSession_def window_repr_New buffer_repr_New)

lemma connected_sel [simp]:
  "s_SessionKey (connected now d cid key) = key" "s_ConnectionID (connected now d cid key) = cid"
  "s_sendCounter (connected now d cid key) = 0" "s_sendSequence (connected now d cid key) = 0"
  by (simp_all add: connected_def CompleteHandshake_def NewSession_def)

text \<open>The wire frames of a batch, as a function of the position.\<close>

definition wires_of :: "bytes list \<Rightarrow> Session \<Rightarrow> bytes list" where
  "wires_of ps s = map (\<lambda>i. out_wire 0 s i (ps ! i)) [0..<length ps]"

lemma encode_batch_wires_of:
  "aes_key_ok (s_SessionKey s) \<Longrightarrow> encode_batch ps s = (map Inr (wires_of ps s), advance (length ps) s)"
  by (simp add: encode_batch_wires wires_of_def comp_def)

lemma wires_of_nth: "set arr \<subseteq> {..<length ps} \<Longrightarrow>
    map ((!) (wires_of ps s)) arr = map (\<lambda>i. out_wire 0 s i (ps ! i)) arr"
  by (auto simp: wires_of_def)

text \<open>One epoch: frames sent after a handshake, arriving on top of what the receiver holds.\<close>

lemma epoch_delivery:
  assumes key: "aes_key_ok (s_SessionKey s)" and peer: "peers s r"
    and recv: "recv_repr f B q r {}" and B: "finite B" and seq: "s_sendSequence s = word_of_nat q"
    and fits: "\<forall>p \<in> set ps. length p < 65536" and bound: "q + length ps \<le> seq_bound"
    and f: "\<And>i. i < length ps \<Longrightarrow> f (q + i) = ps ! i"
    and arr: "set arr \<subseteq> {..<length ps}" "timely [] arr"
  shows "fst (decode_batch now (map ((!) (wires_of ps s)) arr) r) =
      map f [mex B..<mex (frame_set B q (set arr))]"
    "recv_repr f B q (snd (decode_batch now (map ((!) (wires_of ps s)) arr) r)) (set arr)"
    "peers s (snd (decode_batch now (map ((!) (wires_of ps s)) arr) r))"
proof -
  have "\<forall>i < length ps. length (f (q + i)) < 65536" using fits f by simp
  note spec = decode_batch_spec [OF seq this bound B peer, of "[]" arr now 0]
  have eq: "map ((!) (wires_of ps s)) arr = map (\<lambda>i. out_wire 0 s i (f (q + i))) arr"
    using arr(1) f by (auto simp: wires_of_nth)
  have all: "fst (decode_batch now (map ((!) (wires_of ps s)) arr) r) =
      map f [mex B..<mex (frame_set B q (set arr))] \<and>
    recv_repr f B q (snd (decode_batch now (map ((!) (wires_of ps s)) arr) r)) (set arr) \<and>
    peers s (snd (decode_batch now (map ((!) (wires_of ps s)) arr) r))"
    unfolding eq using spec recv arr by simp
  then show "fst (decode_batch now (map ((!) (wires_of ps s)) arr) r) =
      map f [mex B..<mex (frame_set B q (set arr))]" by (rule conjunct1)
  from all show "recv_repr f B q (snd (decode_batch now (map ((!) (wires_of ps s)) arr) r)) (set arr)"
    "peers s (snd (decode_batch now (map ((!) (wires_of ps s)) arr) r))"
    by (blast dest: conjunct2 conjunct1)+
qed

lemma map_nth_upt_take: "m \<le> length ps \<Longrightarrow> map ((!) ps) [0..<m] = take m ps"
  by (rule nth_equalityI) simp_all

section \<open>A sender and a receiver in step\<close>

text \<open>
  The receiver has delivered all that the sender sent: \<open>n\<close> frames under the current key, \<open>m\<close>
  in the whole stream. The relation reads the sending half of \<open>s\<close> and the receiving half of \<open>r\<close>
  only, so that two sessions can be in step in both directions.
\<close>

definition in_step :: "nat \<Rightarrow> nat \<Rightarrow> Session \<Rightarrow> Session \<Rightarrow> bool" where
  "in_step n m s r \<longleftrightarrow> s_SessionKey s = s_SessionKey r \<and> s_ConnectionID s = s_ConnectionID r \<and>
     aes_key_ok (s_SessionKey r) \<and> n \<le> m \<and> m \<le> seq_bound \<and>
     s_sendCounter s = word_of_nat n \<and> s_sendSequence s = word_of_nat m \<and>
     window_repr (s_replay r) (word_of_nat ` {..<n}) \<and>
     buffer_repr (\<lambda>_. []) (s_reorder r) {..<m}"

lemma in_step_sender:
  "s_SessionKey s' = s_SessionKey s \<Longrightarrow> s_ConnectionID s' = s_ConnectionID s \<Longrightarrow>
   s_sendCounter s' = s_sendCounter s \<Longrightarrow> s_sendSequence s' = s_sendSequence s \<Longrightarrow>
   in_step n m s' r = in_step n m s r"
  by (simp add: in_step_def)

lemma in_step_receiver:
  "s_SessionKey r' = s_SessionKey r \<Longrightarrow> s_ConnectionID r' = s_ConnectionID r \<Longrightarrow>
   s_replay r' = s_replay r \<Longrightarrow> s_reorder r' = s_reorder r \<Longrightarrow> in_step n m s r' = in_step n m s r"
  by (simp add: in_step_def)

lemma buffer_repr_complete: "buffer_repr f b {..<m} = buffer_repr g b {..<m}"
proof -
  have "held h {..<m} m = Map.empty" for h by (rule ext) (simp add: held_def)
  then show ?thesis by (simp add: buffer_repr_def)
qed

lemma insert_lessThan: "insert m {..<m} = {..<Suc m}"
  by (simp add: lessThan_Suc)

lemma in_step_one:
  assumes st: "in_step n m s r" and p: "length p < 65536" and m: "m < seq_bound"
  shows "\<exists>r'. DecodeIncoming now (out_wire flags s 0 p) r =
      (Inr \<lparr>Accepted = True, is_Replay = False, Ready = [p], Frame = out_frame flags s 0 p\<rparr>, r') \<and>
    in_step (Suc n) (Suc m) (advance 1 s) r'"
proof -
  let ?q = "m - n" and ?f = "\<lambda>_. p"
  let ?s = "s\<lparr>s_sendCounter := 0, s_sendSequence := word_of_nat ?q\<rparr>"
  have nm: "n \<le> m" "s_sendCounter s = word_of_nat n" "s_sendSequence s = word_of_nat m"
    using st by (simp_all add: in_step_def)
  have q: "word_of_nat ?q + word_of_nat n = (word_of_nat m :: u32)"
    using nm(1) by (simp flip: of_nat_add)
  have wire: "out_wire flags s 0 p = out_wire flags ?s n p"
    "out_frame flags s 0 p = out_frame flags ?s n p"
    using q nm by (simp_all add: out_wire_def out_frame_def Let_def)
  have pe: "peers ?s r" using st by (simp add: peers_def in_step_def)
  have fs: "frame_set {..<?q} ?q {..<n} = {..<m}"
  proof -
    have "(+) ?q ` {..<n} = {?q..<m}"
      using nm(1) by (simp only: lessThan_atLeast0 image_add_atLeastLessThan) simp
    then show ?thesis using nm(1) by (auto simp: frame_set_def)
  qed
  have rr: "recv_repr ?f {..<?q} ?q r {..<n}"
    using st buffer_repr_complete by (auto simp: recv_repr_def fs in_step_def)
  have ins: "frame_set {..<?q} ?q (insert n {..<n}) = {..<Suc m}"
    using nm(1) by (simp only: frame_set_simps fs) (simp add: insert_lessThan)
  have bound: "\<forall>a \<in> {..<n}. a < n + 64" "\<forall>a \<in> {..<n}. a < 2 ^ 32" "?q + n < seq_bound"
    using m nm(1) by (auto simp: seq_bound_def)
  obtain r' where r': "DecodeIncoming now (out_wire flags ?s n p) r =
      (Inr \<lparr>Accepted = True, is_Replay = False,
        Ready = map ?f [mex (frame_set {..<?q} ?q {..<n})..<mex (frame_set {..<?q} ?q (insert n {..<n}))],
        Frame = out_frame flags ?s n p\<rparr>, r')"
    "recv_repr ?f {..<?q} ?q r' (insert n {..<n})" "peers ?s r'"
    using decode_new [OF pe rr p refl _ bound, where flags = flags and now = now] by auto
  have "window_repr (s_replay r') (word_of_nat ` {..<Suc n})"
    "buffer_repr (\<lambda>_. []) (s_reorder r') {..<Suc m}"
    using r'(2) unfolding recv_repr_def ins by (simp_all only: insert_lessThan) (metis buffer_repr_complete)
  then have "in_step (Suc n) (Suc m) (advance 1 s) r'"
    using r'(3) m nm st by (simp add: in_step_def peers_def advance_def add.commute)
  then show ?thesis
    using r'(1) unfolding ins fs wire by auto
qed

text \<open>A batch of frames in the order they were sent.\<close>

lemma wires_of_Cons: "wires_of (p # ps) s = out_wire 0 s 0 p # wires_of ps (advance 1 s)"
  by (simp add: wires_of_def out_wire_advance map_upt_Suc del: upt_Suc)

lemma wires_of_snoc: "wires_of (ps @ [p]) s = wires_of ps s @ [out_wire 0 s (length ps) p]"
  by (simp add: wires_of_def nth_append)

lemma in_step_batch:
  "in_step n m s r \<Longrightarrow> \<forall>p \<in> set ps. length p < 65536 \<Longrightarrow> m + length ps \<le> seq_bound \<Longrightarrow>
   fst (decode_batch now (wires_of ps s) r) = ps \<and>
   in_step (n + length ps) (m + length ps) (advance (length ps) s)
     (snd (decode_batch now (wires_of ps s) r))"
proof (induction ps arbitrary: n m s r)
  case Nil
  then show ?case by (simp add: wires_of_def advance_def in_step_def)
next
  case (Cons p ps)
  obtain r' where r': "DecodeIncoming now (out_wire 0 s 0 p) r =
      (Inr \<lparr>Accepted = True, is_Replay = False, Ready = [p], Frame = out_frame 0 s 0 p\<rparr>, r')"
    "in_step (Suc n) (Suc m) (advance 1 s) r'"
    using in_step_one [OF Cons.prems(1), of p now 0] Cons.prems(2,3) by auto
  have "advance (length ps) (advance 1 s) = advance (length (p # ps)) s" by (simp add: advance_add)
  then show ?case
    using Cons.IH [OF r'(2)] Cons.prems(2,3) r'(1) by (simp add: wires_of_Cons split_beta)
qed

lemma decode_batch_sender:
  "s_sendCounter (snd (decode_batch now ws s)) = s_sendCounter s \<and>
   s_sendSequence (snd (decode_batch now ws s)) = s_sendSequence s \<and>
   s_ConnectionID (snd (decode_batch now ws s)) = s_ConnectionID s \<and>
   s_SessionKey (snd (decode_batch now ws s)) = s_SessionKey s"
proof (induction ws arbitrary: s)
  case (Cons w ws)
  have "s_sendCounter (snd (DecodeIncoming now w s)) = s_sendCounter s \<and>
    s_sendSequence (snd (DecodeIncoming now w s)) = s_sendSequence s \<and>
    s_ConnectionID (snd (DecodeIncoming now w s)) = s_ConnectionID s \<and>
    s_SessionKey (snd (DecodeIncoming now w s)) = s_SessionKey s"
    by (auto simp: DecodeIncoming_def Let_def split: sum.splits prod.splits bool.splits)
  then show ?case using Cons by (simp add: split_beta split: sum.split)
qed simp

lemma in_step_after_batch [simp]:
  "in_step n m (snd (decode_batch now ws s)) r = in_step n m s r"
  by (intro in_step_sender) (simp_all add: decode_batch_sender)

lemma in_step_advanced [simp]: "in_step n m s (advance k r) = in_step n m s r"
  by (intro in_step_receiver) (simp_all add: advance_def)

text \<open>After a handshake that both sides completed with the same key.\<close>

lemma in_step_rekey:
  assumes "aes_key_ok key" "m \<le> seq_bound" "s_sendSequence s = word_of_nat m"
    "window_repr (s_replay r) A" "buffer_repr f (s_reorder r) {..<m}"
  shows "in_step 0 m (CompleteHandshake t1 cid key s) (CompleteHandshake t2 cid key r)"
  using assms buffer_repr_complete window_repr_Reset [OF assms(4)]
  by (auto simp: in_step_def CompleteHandshake_def)

section \<open>Streams over one and two epochs\<close>

definition sent_wires :: "bytes list \<Rightarrow> Session \<Rightarrow> bytes list" where
  "sent_wires ps s = map projr (fst (encode_batch ps s))"

lemma sent_wires_of: "aes_key_ok (s_SessionKey s) \<Longrightarrow> sent_wires ps s = wires_of ps s"
  by (simp add: sent_wires_def encode_batch_wires_of comp_def)

lemma mex_subset: "S \<subseteq> {..<n} \<Longrightarrow> mex S \<le> n"
  using mex_mono [of S "{..<n}"] by simp

lemma first_epoch:
  fixes now t1 t2 :: nanos and d1 d2 :: u64 and cid :: u32
  assumes "aes_key_ok key" "\<forall>p \<in> set ps. length p < 65536" "length ps \<le> seq_bound"
    "\<And>i. i < length ps \<Longrightarrow> f i = ps ! i" "set arr \<subseteq> {..<length ps}" "timely [] arr"
  defines "r' \<equiv> decode_batch now (map ((!) (wires_of ps (connected t1 d1 cid key))) arr)
    (connected t2 d2 cid key)"
  shows "fst r' = take (mex (set arr)) ps" "recv_repr f {} 0 (snd r') (set arr)"
proof -
  have peer: "peers (connected t1 d1 cid key) (connected t2 d2 cid key)"
    using assms(1) by (simp add: peers_def)
  note ep = epoch_delivery [OF _ peer connected_recv, where ps = ps and f = f and arr = arr]
  have set_eq: "frame_set {} 0 (set arr) = set arr" by (simp add: frame_set_def)
  have m: "mex (set arr) \<le> length ps" using assms(5) by (rule mex_subset)
  have "fst r' = map f [0..<mex (set arr)]" "recv_repr f {} 0 (snd r') (set arr)"
    unfolding r'_def using ep(1,2) assms(1-6) by (simp_all add: set_eq)
  moreover have "map f [0..<mex (set arr)] = map ((!) ps) [0..<mex (set arr)]"
    using assms(4) m by (intro map_cong) auto
  ultimately show "fst r' = take (mex (set arr)) ps" "recv_repr f {} 0 (snd r') (set arr)"
    using map_nth_upt_take [OF m] by simp_all
qed

text \<open>
  Payloads \<open>ps\<close> under the first key, arriving as \<open>arr\<close>, then a handshake on both sides, then
  \<open>qs\<close> under the second key, arriving as \<open>brr\<close>: what the second epoch delivers.
\<close>

definition second_epoch_output ::
  "nanos \<Rightarrow> u64 \<Rightarrow> u32 \<Rightarrow> bytes \<Rightarrow> bytes \<Rightarrow> bytes list \<Rightarrow> nat list \<Rightarrow> bytes list \<Rightarrow> nat list \<Rightarrow> bytes list" where
  "second_epoch_output now d cid key key2 ps arr qs brr =
     (let s0 = connected now d cid key; r0 = connected now d cid key;
          s1 = CompleteHandshake now cid key2 (snd (encode_batch ps s0));
          r1 = CompleteHandshake now cid key2 (snd (decode_batch now (map ((!) (sent_wires ps s0)) arr) r0))
      in fst (decode_batch now (map ((!) (sent_wires qs s1)) brr) r1))"

lemma second_epoch:
  assumes key: "aes_key_ok key" "aes_key_ok key2"
    and fits: "\<forall>p \<in> set (ps @ qs). length p < 65536" "length (ps @ qs) \<le> seq_bound"
    and arr: "set arr \<subseteq> {..<length ps}" "timely [] arr"
    and brr: "set brr \<subseteq> {..<length qs}" "timely [] brr"
  shows "second_epoch_output now d cid key key2 ps arr qs brr =
    map ((!) (ps @ qs)) [mex (set arr)..<mex (frame_set (set arr) (length ps) (set brr))]"
proof -
  let ?s0 = "connected now d cid key" and ?f = "(!) (ps @ qs)"
  let ?r0 = "snd (decode_batch now (map ((!) (wires_of ps ?s0)) arr) ?s0)"
  let ?s1 = "CompleteHandshake now cid key2 (advance (length ps) ?s0)"
  let ?r1 = "CompleteHandshake now cid key2 ?r0"
  have "recv_repr ?f {} 0 ?r0 (set arr)"
    using first_epoch(2) [OF key(1) _ _ _ arr, of ?f now now d cid now d] fits by (auto simp: nth_append)
  then have "window_repr (s_replay ?r0) (word_of_nat ` set arr)" "buffer_repr ?f (s_reorder ?r0) (set arr)"
    by (simp_all add: recv_repr_def frame_set_def)
  then have rr: "recv_repr ?f (set arr) (length ps) ?r1 {}" by (rule recv_repr_fresh)
  have peer: "peers ?s1 ?r1" using key(2) by (simp add: peers_def CompleteHandshake_def)
  have s1: "s_sendSequence ?s1 = word_of_nat (length ps)" "aes_key_ok (s_SessionKey ?s1)"
    using key(2) by (simp_all add: CompleteHandshake_def advance_def)
  have "fst (decode_batch now (map ((!) (wires_of qs ?s1)) brr) ?r1) =
      map ?f [mex (set arr)..<mex (frame_set (set arr) (length ps) (set brr))]"
    using fits by (intro epoch_delivery(1) [OF s1(2) peer rr _ s1(1) _ _ _ brr]) (auto simp: nth_append)
  then show ?thesis
    using key s1(2) by (simp add: second_epoch_output_def Let_def sent_wires_of encode_batch_wires_of)
qed

text \<open>A frame that was accepted once is absorbed at any later time before the next handshake.\<close>

lemma DecodeIncoming_window:
  assumes "window_repr (s_replay s) A"
  shows "\<exists>B. A \<subseteq> B \<and> window_repr (s_replay (snd (DecodeIncoming now w s))) B \<and>
    (\<forall>res. fst (DecodeIncoming now w s) = Inr res \<longrightarrow> Accepted res \<longrightarrow>
      (\<exists>f c. DecodeDataFrame (s_SessionKey s) (s_ConnectionID s) w = Inr (f, c) \<and> c \<in> B))"
proof (cases "DecodeDataFrame (s_SessionKey s) (s_ConnectionID s) w")
  case (Inl e)
  then show ?thesis using assms by (auto simp: DecodeIncoming_def)
next
  case (Inr fc)
  obtain f c where fc: "fc = (f, c)" by (cases fc)
  obtain b w' where ch: "CheckAndMark c (s_replay s) = (b, w')"
    by (cases "CheckAndMark c (s_replay s)")
  have "window_repr w' (if b then insert c A else A)"
    using rw.check_verdict [OF assms, of c] rw.check_repr [OF assms, of c] ch by simp
  then show ?thesis
    using Inr fc ch
    by (intro exI [of _ "if b then insert c A else A"])
      (auto simp: DecodeIncoming_def Let_def split_beta split: bool.split)
qed

lemma decode_batch_window:
  "window_repr (s_replay s) A \<Longrightarrow>
   \<exists>B. A \<subseteq> B \<and> window_repr (s_replay (snd (decode_batch now ws s))) B"
proof (induction ws arbitrary: s A)
  case (Cons w ws)
  obtain B where B: "A \<subseteq> B" "window_repr (s_replay (snd (DecodeIncoming now w s))) B"
    using DecodeIncoming_window [OF Cons.prems] by blast
  obtain C where "B \<subseteq> C" "window_repr (s_replay (snd (decode_batch now ws (snd (DecodeIncoming now w s))))) C"
    using Cons.IH [OF B(2)] by blast
  then show ?case using B(1) by (auto simp: split_beta split: sum.split)
qed auto

lemma DecodeIncoming_again:
  assumes "window_repr (s_replay s) A" "c \<in> A"
    "DecodeDataFrame (s_SessionKey s) (s_ConnectionID s) w = Inr (f, c)"
  shows "fst (DecodeIncoming now w s) =
    Inr \<lparr>Accepted = False, is_Replay = True, Ready = [], Frame = f\<rparr>"
proof -
  have "\<not> fst (CheckAndMark c (s_replay s))" using assms(1,2) by (rule rw.rejected_again)
  then show ?thesis
    using assms(3) by (cases "CheckAndMark c (s_replay s)") (simp add: DecodeIncoming_def)
qed

text \<open>The payload inside a sealed frame starts 21 bytes into the wire form.\<close>

lemma drop_xor_bytes: "drop k (xor_bytes a b) = xor_bytes (drop k a) (drop k b)"
  by (simp add: xor_bytes_def drop_map drop_zip)

lemma out_wire_body:
  assumes "aes_key_ok (s_SessionKey s)"
  shows "slice 21 (21 + length p) (out_wire flags s i p) =
    drop 17 (take (17 + length p) (gcm_seal (s_SessionKey s)
      (BuildNonce (s_ConnectionID s) (ucast (s_sendCounter s + word_of_nat i)))
      (encodePlaintext (out_frame flags s i p))))"
  by (simp add: out_wire_def Let_def slice_def drop_take out_frame_def add.commute)

lemma shared_counter_leak:
  assumes "aes_key_ok (s_SessionKey s)" "s_SessionKey r = s_SessionKey s"
    "s_ConnectionID r = s_ConnectionID s" "s_sendCounter r = s_sendCounter s"
    "length p = length q"
  shows "xor_bytes (slice 21 (21 + length p) (out_wire 0 s i p))
      (slice 21 (21 + length q) (out_wire 0 r i q)) = xor_bytes p q"
proof -
  let ?P = "encodePlaintext (out_frame 0 s i p)" and ?Q = "encodePlaintext (out_frame 0 r i q)"
  have len: "length ?P = 17 + length p" "length ?Q = 17 + length q" by (simp_all add: out_frame_def)
  have pay: "drop 17 ?P = p" "drop 17 ?Q = q" by (simp_all add: encodePlaintext_def out_frame_def)
  have "length ?P = length ?Q" using len assms(5) by simp
  from gcm_seal_shared_nonce [OF assms(1) this,
      of "BuildNonce (s_ConnectionID s) (ucast (s_sendCounter s + word_of_nat i))"]
  have "drop 17 (xor_bytes (take (17 + length p) (gcm_seal (s_SessionKey s)
        (BuildNonce (s_ConnectionID s) (ucast (s_sendCounter s + word_of_nat i))) ?P))
      (take (17 + length q) (gcm_seal (s_SessionKey s)
        (BuildNonce (s_ConnectionID s) (ucast (s_sendCounter s + word_of_nat i))) ?Q))) =
      drop 17 (xor_bytes ?P ?Q)"
    unfolding len by simp
  then show ?thesis
    using assms(1-4) by (simp add: out_wire_body drop_xor_bytes pay)
qed

section \<open>Properties\<close>

text \<open>C4: Two sides that completed one handshake: frames encoded by one and received by the other in
  any order, duplicated or lost, as long as each first arrival is less than 64 counters behind the
  newest, are delivered in order and once, up to the first frame that did not arrive.\<close>

theorem session_delivers_prefix:
  assumes "aes_key_ok key" "list_all (\<lambda>p. length p < 65536) ps" "length ps < 2 ^ 32"
    "set arr \<subseteq> {..<length ps}" "timely [] arr"
  shows "fst (decode_batch now (map ((!) (sent_wires ps (connected t1 d1 cid key))) arr)
    (connected t2 d2 cid key)) = take (mex (set arr)) ps"
  using first_epoch(1) [OF assms(1) _ _ refl assms(4,5)] assms(1-3)
  by (simp add: sent_wires_of list_all_iff seq_bound_def)

theorem session_delivers_prefix_witness:
  "fst (decode_batch 0 (map ((!) (sent_wires [[1], [2], [3], [4]] (connected 0 7 1 (replicate 32 5)))) [1, 0, 1, 3])
    (connected 0 7 1 (replicate 32 5))) = [[1], [2]]"
proof -
  have m: "mex (set [1, 0, 1, 3]) = 2" by (rule mex_eqI) auto
  have "fst (decode_batch 0 (map ((!) (sent_wires [[1], [2], [3], [4]] (connected 0 7 1 (replicate 32 5)))) [1, 0, 1, 3])
    (connected 0 7 1 (replicate 32 5))) = take (mex (set [1, 0, 1, 3])) [[1], [2], [3], [4]]"
    by (rule session_delivers_prefix) (auto simp: aes_key_ok_def)
  also have "\<dots> = [[1], [2]]" unfolding m by simp
  finally show ?thesis .
qed

text \<open>C13: A second handshake takes the send counter back to 0 under the new key and continues the stream:
  the \<open>i\<close>-th frame sent after it opens under the new key with counter \<open>i\<close> and, as sequence number, the
  number of payloads sent before the handshake plus \<open>i\<close>. When everything sent before had arrived by then,
  the receiver, whose window has marked these counters already, delivers the new frames in order, up to
  the first one missing, in any order of arrival less than 64 behind the newest.\<close>

theorem rekey_continues_stream:
  assumes "aes_key_ok key" "aes_key_ok key2" "list_all (\<lambda>p. length p < 65536) (ps @ qs)"
    "length (ps @ qs) < 2 ^ 32" "set arr = {..<length ps}" "timely [] arr"
    "set brr \<subseteq> {..<length qs}" "timely [] brr"
  shows "(\<forall>i < length qs. DecodeDataFrame key2 cid
      (sent_wires qs (CompleteHandshake now cid key2 (snd (encode_batch ps (connected now d cid key)))) ! i) =
      Inr (\<lparr>df_ConnectionID = cid, df_StreamID = 0, df_Sequence = word_of_nat (length ps + i), df_Ack = 0,
        df_Flags = FlagData, df_Payload = qs ! i\<rparr>, word_of_nat i)) \<and>
    second_epoch_output now d cid key key2 ps arr qs brr = take (mex (set brr)) qs"
proof (intro conjI allI impI)
  fix i
  assume i: "i < length qs"
  let ?s = "CompleteHandshake now cid key2 (advance (length ps) (connected now d cid key))"
  have "sent_wires qs (CompleteHandshake now cid key2 (snd (encode_batch ps (connected now d cid key)))) ! i =
      out_wire 0 ?s i (qs ! i)"
    using assms(1,2) i by (simp add: encode_batch_wires_of sent_wires_of wires_of_def CompleteHandshake_def)
  then show "DecodeDataFrame key2 cid
      (sent_wires qs (CompleteHandshake now cid key2 (snd (encode_batch ps (connected now d cid key)))) ! i) =
      Inr (\<lparr>df_ConnectionID = cid, df_StreamID = 0, df_Sequence = word_of_nat (length ps + i), df_Ack = 0,
        df_Flags = FlagData, df_Payload = qs ! i\<rparr>, word_of_nat i)"
    using Decode_out_wire [of ?s ?s "qs ! i" 0 i] assms(2,3) i
    by (simp add: peers_def list_all_iff out_frame_def CompleteHandshake_def advance_def)
next
  have m: "mex (set brr) \<le> length qs" using assms(7) by (rule mex_subset)
  have "second_epoch_output now d cid key key2 ps arr qs brr =
      map ((!) (ps @ qs)) [length ps..<length ps + mex (set brr)]"
    using second_epoch [OF assms(1,2) _ _ _ assms(6-8), of ps now d cid] assms(3-5)
      mex_frame_set [of "set brr" "length ps"]
    by (simp add: list_all_iff seq_bound_def)
  also have "\<dots> = map ((!) qs) [0..<mex (set brr)]"
    by (rule nth_equalityI) (simp_all add: nth_append)
  also have "\<dots> = take (mex (set brr)) qs" using m by (rule map_nth_upt_take)
  finally show "second_epoch_output now d cid key key2 ps arr qs brr = take (mex (set brr)) qs" .
qed

theorem rekey_continues_stream_witness:
  "second_epoch_output 0 7 1 (replicate 32 5) (replicate 32 6) [[1], [2]] [1, 0] [[3], [4]] [1, 0, 0] =
      [[3], [4]] \<and>
    DecodeDataFrame (replicate 32 6) 1 (sent_wires [[3], [4]] (CompleteHandshake 0 1 (replicate 32 6)
      (snd (encode_batch [[1], [2]] (connected 0 7 1 (replicate 32 5))))) ! 1) =
      Inr (\<lparr>df_ConnectionID = 1, df_StreamID = 0, df_Sequence = 3, df_Ack = 0, df_Flags = FlagData,
        df_Payload = [4]\<rparr>, 1)"
proof -
  have m: "mex (set [1, 0, 0]) = 2" by (rule mex_eqI) auto
  have "aes_key_ok (replicate 32 5)" "aes_key_ok (replicate 32 6)" "set [1, 0] = {..<length [[1 :: byte], [2]]}"
    by (auto simp: aes_key_ok_def)
  from rekey_continues_stream [OF this(1,2) _ _ this(3), where qs = "[[3], [4]]" and brr = "[1, 0, 0]"
      and cid = 1 and now = 0 and d = 7]
  show ?thesis unfolding m by (auto dest: spec [of _ 1])
qed

text \<open>A frame that was sent before a handshake and had not arrived by then is lost for good: the
  handshake keeps the receiver's place in the stream, so that nothing sent after it is ever
  delivered, whatever arrives.\<close>

theorem lost_before_rekey_stalls:
  assumes "aes_key_ok key" "aes_key_ok key2" "list_all (\<lambda>p. length p < 65536) (ps @ qs)"
    "length (ps @ qs) < 2 ^ 32" "set arr \<subset> {..<length ps}" "timely [] arr"
    "set brr \<subseteq> {..<length qs}" "timely [] brr"
  shows "second_epoch_output now d cid key key2 ps arr qs brr = []"
proof -
  obtain k where "k < length ps" "k \<notin> set arr" using assms(5) by auto
  then have "mex (set arr) < length ps" using mex_le [of k "set arr"] by simp
  then have "mex (frame_set (set arr) (length ps) (set brr)) = mex (set arr)"
    by (intro mex_frame_set_gap) simp_all
  then show ?thesis
    using second_epoch [OF assms(1,2) _ _ _ assms(6-8), of ps now d cid] assms(3-5)
    by (simp add: list_all_iff seq_bound_def psubset_imp_subset)
qed

theorem lost_before_rekey_stalls_witness:
  "second_epoch_output 0 7 1 (replicate 32 5) (replicate 32 6) [[1], [2]] [0] [[3], [4]] [0, 1] = []"
proof -
  have "set [0] \<subset> {..<length [[1::byte], [2]]}" by auto
  then show ?thesis
    using lost_before_rekey_stalls [of "replicate 32 5" "replicate 32 6" "[[1], [2]]" "[[3], [4]]"
        "[0]" "[0, 1]" 0 7 1]
    by (simp add: aes_key_ok_def)
qed

text \<open>A wire frame that was accepted is answered as a replay, with nothing delivered, whenever it
  comes again under the same key, whatever frames came before it and in between.\<close>

theorem replayed_frame_absorbed:
  assumes "DecodeIncoming t1 wire (snd (decode_batch t0 pre (connected t d cid key))) = (Inr res, s1)"
    "Accepted res"
  shows "\<exists>res2. fst (DecodeIncoming t3 wire (snd (decode_batch t2 post s1))) = Inr res2 \<and>
    \<not> Accepted res2 \<and> is_Replay res2 \<and> Ready res2 = []"
proof -
  let ?s0 = "snd (decode_batch t0 pre (connected t d cid key))"
  let ?s2 = "snd (decode_batch t2 post s1)"
  have "window_repr (s_replay (connected t d cid key)) {}"
    using window_repr_Reset [OF window_repr_New]
    by (simp add: connected_def CompleteHandshake_def NewSession_def)
  then obtain A where "window_repr (s_replay ?s0) A" using decode_batch_window by blast
  from DecodeIncoming_window [OF this, of t1 wire] obtain B f c where
    B: "window_repr (s_replay s1) B" "c \<in> B"
      "DecodeDataFrame (s_SessionKey ?s0) (s_ConnectionID ?s0) wire = Inr (f, c)"
    using assms by auto
  obtain C where C: "B \<subseteq> C" "window_repr (s_replay ?s2) C"
    using decode_batch_window [OF B(1)] by blast
  have "s_SessionKey s1 = s_SessionKey ?s0" "s_ConnectionID s1 = s_ConnectionID ?s0"
    using assms(1) by (auto simp: DecodeIncoming_def Let_def split: sum.splits prod.splits bool.splits)
  then have "DecodeDataFrame (s_SessionKey ?s2) (s_ConnectionID ?s2) wire = Inr (f, c)"
    using B(3) decode_batch_sender by simp
  from DecodeIncoming_again [OF C(2) _ this] show ?thesis using B(2) C(1) by auto
qed

theorem replayed_frame_absorbed_witness:
  "\<exists>wire res2. fst (DecodeIncoming 3 wire (snd (decode_batch 2 [] (snd (DecodeIncoming 1 wire
      (snd (decode_batch 0 [] (connected 0 7 1 (replicate 32 5))))))))) = Inr res2 \<and>
    \<not> Accepted res2 \<and> is_Replay res2 \<and> Ready res2 = []"
proof -
  let ?s = "connected 0 7 1 (replicate 32 5)"
  have "in_step 0 0 ?s ?s"
    using window_repr_Reset [OF window_repr_New]
    by (simp add: in_step_def aes_key_ok_def connected_def CompleteHandshake_def NewSession_def
        buffer_repr_New)
  from in_step_one [OF this, of "[65]" 1 0] obtain r' where dec:
    "DecodeIncoming 1 (out_wire 0 ?s 0 [65]) (snd (decode_batch 0 [] ?s)) =
      (Inr \<lparr>Accepted = True, is_Replay = False, Ready = [[65]], Frame = out_frame 0 ?s 0 [65]\<rparr>, r')"
    by (auto simp: seq_bound_def)
  have "\<exists>res2. fst (DecodeIncoming 3 (out_wire 0 ?s 0 [65]) (snd (decode_batch 2 [] r'))) = Inr res2 \<and>
    \<not> Accepted res2 \<and> is_Replay res2 \<and> Ready res2 = []"
    by (rule replayed_frame_absorbed [OF dec]) simp
  then show ?thesis using dec by (intro exI [of _ "out_wire 0 ?s 0 [65]"]) simp
qed

text \<open>C37: Both directions use one key, one connection id and counters from 0: the frames that the two
  sides send as their \<open>i\<close>-th share their nonce, so that the two ciphertexts show the exclusive or of
  the two payloads.\<close>

theorem directions_share_keystream:
  assumes "aes_key_ok key" "i < length ps" "i < length qs" "length (ps ! i) = length (qs ! i)"
  shows "xor_bytes
      (slice 21 (21 + length (ps ! i)) (sent_wires ps (connected t1 d cid key) ! i))
      (slice 21 (21 + length (qs ! i)) (sent_wires qs (connected t2 d cid key) ! i)) =
    xor_bytes (ps ! i) (qs ! i)"
  using shared_counter_leak [of "connected t1 d cid key" "connected t2 d cid key" "ps ! i" "qs ! i" i]
    assms by (simp add: sent_wires_of wires_of_def)

theorem directions_share_keystream_witness:
  "xor_bytes
      (slice 21 23 (sent_wires [[1, 2]] (connected 0 9 1 (replicate 32 5)) ! 0))
      (slice 21 23 (sent_wires [[7, 7]] (connected 0 9 1 (replicate 32 5)) ! 0)) = [6, 5]"
  using directions_share_keystream [of "replicate 32 5" 0 "[[1, 2]]" "[[7, 7]]" 0 9 1 0]
  by (simp add: aes_key_ok_def xor_bytes_def)

text \<open>Up to \<open>2 ^ 32\<close> frames under one key carry pairwise different counters, hence different
  nonces; after exactly that many the counter is back where it was, with the same key and connection.\<close>

theorem counters_distinct_then_repeat:
  assumes "aes_key_ok (s_SessionKey s)"
  shows "(length ps \<le> 2 ^ 32 \<longrightarrow> distinct (map (take 4) (sent_wires ps s))) \<and>
    (length ps = 2 ^ 32 \<longrightarrow> (let s' = snd (encode_batch ps s) in
       s_sendCounter s' = s_sendCounter s \<and> s_SessionKey s' = s_SessionKey s \<and>
       s_ConnectionID s' = s_ConnectionID s))"
proof (intro conjI impI)
  assume n: "length ps \<le> 2 ^ 32"
  have "map (take 4) (sent_wires ps s) =
      map put32 (map (\<lambda>i. s_sendCounter s + word_of_nat i) [0..<length ps])"
    using assms by (simp add: sent_wires_of wires_of_def out_wire_def Let_def)
  moreover have "inj_on put32 S" for S by (rule inj_onI) simp
  moreover have "distinct (map (\<lambda>i. s_sendCounter s + word_of_nat i) [0..<length ps])"
    using n by (intro word_interval_distinct) simp
  ultimately show "distinct (map (take 4) (sent_wires ps s))" by (simp only: distinct_map simp_thms)
next
  assume n: "length ps = 2 ^ 32"
  have "(word_of_nat (2 ^ 32) :: u32) = 0" by simp
  then show "let s' = snd (encode_batch ps s) in
       s_sendCounter s' = s_sendCounter s \<and> s_SessionKey s' = s_SessionKey s \<and>
       s_ConnectionID s' = s_ConnectionID s"
    using encode_batch_wires_of [OF assms, of ps] n by (simp add: Let_def advance_def)
qed

theorem counters_distinct_then_repeat_witness:
  "distinct (map (take 4) (sent_wires [[1], [2], [3]] (connected 0 7 1 (replicate 32 5)))) \<and>
   s_sendCounter (snd (encode_batch (replicate (2 ^ 32) []) (connected 0 7 1 (replicate 32 5)))) = 0"
  using counters_distinct_then_repeat [of "connected 0 7 1 (replicate 32 5)" "[[1], [2], [3]]"]
    counters_distinct_then_repeat [of "connected 0 7 1 (replicate 32 5)" "replicate (2 ^ 32) []"]
  by (simp add: aes_key_ok_def Let_def)

text \<open>Sending before the handshake fails but uses up a sequence number: after the handshake the
  receiver waits for that number, and nothing the sender sends is delivered.\<close>

theorem early_send_stalls_stream:
  assumes "aes_key_ok key" "list_all (\<lambda>p. length p < 65536) ps" "length ps < 2 ^ 32 - 1"
    "set arr \<subseteq> {..<length ps}" "timely [] arr"
  shows "let (res, s1) = EncodeOutgoing p 0 (NewSession t d) in
    res = Inl (ErrKeySize 0) \<and>
    fst (decode_batch now (map ((!) (sent_wires ps (CompleteHandshake t cid key s1))) arr)
      (connected t d cid key)) = []"
proof -
  let ?s = "CompleteHandshake t cid key (advance 1 (NewSession t d))" and ?r = "connected t d cid key"
  have enc: "EncodeOutgoing p 0 (NewSession t d) = (Inl (ErrKeySize 0), advance 1 (NewSession t d))"
    by (simp add: EncodeOutgoing_eq NewSession_def EncodeDataFrame_bad_key aes_key_ok_def)
  have s: "aes_key_ok (s_SessionKey ?s)" "s_sendSequence ?s = word_of_nat 1" "peers ?s ?r"
    using assms(1) by (simp_all add: CompleteHandshake_def advance_def NewSession_def peers_def)
  have rr: "recv_repr (\<lambda>i. ps ! (i - 1)) {} 1 ?r {}"
    using connected_recv [of "\<lambda>i. ps ! (i - 1)" t d cid key] by (simp add: recv_repr_def frame_set_def)
  have "mex (frame_set {} 1 (set arr)) = mex {}" by (rule mex_frame_set_gap) simp_all
  then have "fst (decode_batch now (map ((!) (wires_of ps ?s)) arr) ?r) = []"
    using epoch_delivery(1) [OF s(1,3) rr _ s(2) _ _ _ assms(4,5), of now] assms(2,3)
    by (simp add: list_all_iff seq_bound_def)
  then show ?thesis using s(1) by (simp add: enc sent_wires_of)
qed

theorem early_send_stalls_stream_witness:
  "let (res, s1) = EncodeOutgoing [9] 0 (NewSession 0 7) in
    res = Inl (ErrKeySize 0) \<and>
    fst (decode_batch 0 (map ((!) (sent_wires [[1], [2]] (CompleteHandshake 0 1 (replicate 32 5) s1))) [0, 1])
      (connected 0 7 1 (replicate 32 5))) = []"
  by (rule early_send_stalls_stream) (auto simp: aes_key_ok_def)

end
