(* ===== verification/GoLib.thy ===== *)
theory GoLib
  imports Prelude
begin

text \<open>
  The functions of the Go standard library that the HTTP endpoints call: \<open>encoding/hex\<close>,
  \<open>strings.TrimSpace\<close>, \<open>net.SplitHostPort\<close>, \<open>io.ReadAll\<close> over a limited reader, and the
  parts of \<open>net/http\<close> requests and responses the handlers and the client read and write.
\<close>

section \<open>encoding/hex\<close>

definition hextable :: string where "hextable = ''0123456789abcdef''"

fun hex_EncodeToString :: "bytes \<Rightarrow> string" where
  "hex_EncodeToString [] = []"
| "hex_EncodeToString (b # bs) =
     hextable ! (unat b div 16) # hextable ! (unat b mod 16) # hex_EncodeToString bs"

definition fromHexChar :: "char \<Rightarrow> nat option" where
  "fromHexChar c =
     (let n = of_char c :: nat
      in if 48 \<le> n \<and> n \<le> 57 then Some (n - 48)
         else if 97 \<le> n \<and> n \<le> 102 then Some (n - 97 + 10)
         else if 65 \<le> n \<and> n \<le> 70 then Some (n - 65 + 10)
         else None)"

fun hex_DecodeString :: "string \<Rightarrow> bytes option" where
  "hex_DecodeString [] = Some []"
| "hex_DecodeString [c] = None"
| "hex_DecodeString (c # d # cs) =
     (case (fromHexChar c, fromHexChar d, hex_DecodeString cs) of
        (Some x, Some y, Some bs) \<Rightarrow> Some (word_of_nat (16 * x + y) # bs)
      | _ \<Rightarrow> None)"

lemma fromHexChar_hextable: "n < 16 \<Longrightarrow> fromHexChar (hextable ! n) = Some n"
proof -
  assume "n < 16"
  then have "n \<in> set [0..<16]" by simp
  moreover have "\<forall>n \<in> set [0..<16]. fromHexChar (hextable ! n) = Some n" by code_simp
  ultimately show ?thesis by blast
qed

lemma hex_Decode_Encode [simp]: "hex_DecodeString (hex_EncodeToString bs) = Some bs"
proof (induction bs)
  case (Cons b bs)
  have "unat b < 256" using unsigned_less [of b, where 'a = nat] by simp
  then have "unat b div 16 < 16" "unat b mod 16 < 16" by simp_all
  then show ?case using Cons by (simp add: fromHexChar_hextable)
qed simp

lemma length_hex_Encode [simp]: "length (hex_EncodeToString bs) = 2 * length bs"
  by (induction bs) simp_all

lemma length_hex_Decode: "hex_DecodeString s = Some bs \<Longrightarrow> length s = 2 * length bs"
  by (induction s arbitrary: bs rule: hex_DecodeString.induct) (auto split: option.splits)

section \<open>strings.TrimSpace\<close>

text \<open>The UTF-8 encodings of the code points with Unicode property White\_Space.\<close>

definition space_encodings :: "bytes list" where
  "space_encodings =
     [[9], [10], [11], [12], [13], [32], [0xC2, 0x85], [0xC2, 0xA0], [0xE1, 0x9A, 0x80],
      [0xE2, 0x80, 0x80], [0xE2, 0x80, 0x81], [0xE2, 0x80, 0x82], [0xE2, 0x80, 0x83],
      [0xE2, 0x80, 0x84], [0xE2, 0x80, 0x85], [0xE2, 0x80, 0x86], [0xE2, 0x80, 0x87],
      [0xE2, 0x80, 0x88], [0xE2, 0x80, 0x89], [0xE2, 0x80, 0x8A], [0xE2, 0x80, 0xA8],
      [0xE2, 0x80, 0xA9], [0xE2, 0x80, 0xAF], [0xE2, 0x81, 0x9F], [0xE3, 0x80, 0x80]]"

text \<open>The length of the first of the given sequences that \<open>b\<close> starts with, or 0.\<close>

fun prefix_len :: "bytes list \<Rightarrow> bytes \<Rightarrow> nat" where
  "prefix_len [] b = 0"
| "prefix_len (p # ps) b = (if take (length p) b = p then length p else prefix_len ps b)"

function strip :: "bytes list \<Rightarrow> bytes \<Rightarrow> bytes" where
  "strip ps b =
     (let n = prefix_len ps b in if n = 0 \<or> b = [] then b else strip ps (drop n b))"
  by pat_completeness auto
termination
  by (relation "measure (\<lambda>(ps, b). length b)") (auto simp: Let_def)

declare strip.simps [simp del]

definition TrimSpace :: "bytes \<Rightarrow> bytes" where
  "TrimSpace b = rev (strip (map rev space_encodings) (rev (strip space_encodings b)))"

section \<open>net.SplitHostPort\<close>

datatype addr_reason =
    MissingPort | TooManyColons | MissingBracket | UnexpectedOpen | UnexpectedClose

fun addr_reason_text :: "addr_reason \<Rightarrow> string" where
  "addr_reason_text MissingPort = ''missing port in address''"
| "addr_reason_text TooManyColons = ''too many colons in address''"
| "addr_reason_text MissingBracket = ''missing ']' in address''"
| "addr_reason_text UnexpectedOpen = ''unexpected '[' in address''"
| "addr_reason_text UnexpectedClose = ''unexpected ']' in address''"

text \<open>\<open>net.AddrError.Error\<close>\<close>

definition AddrError_Error :: "string \<Rightarrow> addr_reason \<Rightarrow> string" where
  "AddrError_Error addr why =
     (if addr \<noteq> [] then ''address '' @ addr @ '': '' @ addr_reason_text why
      else addr_reason_text why)"

fun index_of :: "'a \<Rightarrow> 'a list \<Rightarrow> nat option" where
  "index_of c [] = None"
| "index_of c (x # xs) = (if x = c then Some 0 else map_option Suc (index_of c xs))"

definition last_index_of :: "'a \<Rightarrow> 'a list \<Rightarrow> nat option" where
  "last_index_of c xs = map_option (\<lambda>i. length xs - 1 - i) (index_of c (rev xs))"

definition check_brackets ::
  "string \<Rightarrow> nat \<Rightarrow> nat \<Rightarrow> nat \<Rightarrow> string \<Rightarrow> addr_reason + string \<times> string" where
  "check_brackets hostport i j k host =
     (if CHR ''['' \<in> set (drop j hostport) then Inl UnexpectedOpen
      else if CHR '']'' \<in> set (drop k hostport) then Inl UnexpectedClose
      else Inr (host, drop (i + 1) hostport))"

definition SplitHostPort :: "string \<Rightarrow> addr_reason + string \<times> string" where
  "SplitHostPort hostport =
     (case last_index_of (CHR '':'') hostport of
        None \<Rightarrow> Inl MissingPort
      | Some i \<Rightarrow>
          if hd hostport = CHR ''['' then
            (case index_of (CHR '']'') hostport of
               None \<Rightarrow> Inl MissingBracket
             | Some e \<Rightarrow>
                 if e + 1 = length hostport then Inl MissingPort
                 else if e + 1 = i then check_brackets hostport i 1 (e + 1) (slice 1 e hostport)
                 else if hostport ! (e + 1) = CHR '':'' then Inl TooManyColons
                 else Inl MissingPort)
          else
            let host = take i hostport
            in if CHR '':'' \<in> set host then Inl TooManyColons
               else check_brackets hostport i 0 0 host)"

section \<open>net/http\<close>

text \<open>
  \<open>Header.Get\<close> of a missing header is the empty string. \<open>rq_broken\<close>: reading the body fails
  after \<open>rq_body\<close>.
\<close>

record request =
  rq_method :: string
  rq_path :: string
  rq_header :: "string \<Rightarrow> string"
  rq_body :: bytes
  rq_broken :: bool

record response =
  rs_status :: nat
  rs_header :: "(string \<times> string) list"
  rs_body :: bytes
  rs_broken :: bool

text \<open>\<open>io.ReadAll (io.LimitReader body n)\<close>: a limited reader that has given its \<open>n\<close> bytes ends.\<close>

definition ReadAll_limited :: "nat \<Rightarrow> bytes \<Rightarrow> bool \<Rightarrow> bytes option" where
  "ReadAll_limited n body broken =
     (if n \<le> length body then Some (take n body) else if broken then None else Some body)"

definition ReadAll :: "bytes \<Rightarrow> bool \<Rightarrow> bytes option" where
  "ReadAll body broken = (if broken then None else Some body)"

definition http_reply :: "(string \<times> string) list \<Rightarrow> nat \<Rightarrow> bytes \<Rightarrow> response" where
  "http_reply hdr status body =
     \<lparr>rs_status = status, rs_header = hdr, rs_body = body, rs_broken = False\<rparr>"

text \<open>\<open>http.Error\<close> on a response whose headers so far are \<open>hdr\<close>, and \<open>http.NotFound\<close>.\<close>

definition http_Error :: "(string \<times> string) list \<Rightarrow> string \<Rightarrow> nat \<Rightarrow> response" where
  "http_Error hdr msg status =
     http_reply (hdr @ [(''Content-Type'', ''text/plain; charset=utf-8''),
                        (''X-Content-Type-Options'', ''nosniff'')])
       status (bytes_of msg @ [10])"

definition http_NotFound :: "(string \<times> string) list \<Rightarrow> response" where
  "http_NotFound hdr = http_Error hdr ''404 page not found'' 404"

lemma http_reply_sel [simp]:
  "rs_status (http_reply h n b) = n" "rs_body (http_reply h n b) = b"
  "rs_broken (http_reply h n b) = False" "rs_header (http_reply h n b) = h"
  by (simp_all add: http_reply_def)

lemma http_NotFound_status [simp]: "rs_status (http_NotFound h) = 404"
  by (simp add: http_NotFound_def http_Error_def)

lemma http_Error_status [simp]: "rs_status (http_Error h m n) = n"
  by (simp add: http_Error_def)

section \<open>Length-prefixed frames\<close>

text \<open>
  The loop that \<open>handlePush\<close> and \<open>Pull\<close> run over a body, as the list of frames it visits: it
  stops at a truncated frame. \<open>join_frames\<close> writes them, with the length in 16 bits.
\<close>

function split_frames :: "bytes \<Rightarrow> bytes list" where
  "split_frames body =
     (if 2 \<le> length body
      then let frameLen = unat (get16 (take 2 body)); rest = drop 2 body
           in if frameLen > length rest then []
              else take frameLen rest # split_frames (drop frameLen rest)
      else [])"
  by pat_completeness auto
termination by (relation "measure length") auto

declare split_frames.simps [simp del]

definition put_frame :: "bytes \<Rightarrow> bytes" where
  "put_frame wire = put16 (word_of_nat (length wire)) @ wire"

definition join_frames :: "bytes list \<Rightarrow> bytes" where
  "join_frames wires = concat (map put_frame wires)"

lemma split_frames_Nil [simp]: "split_frames [] = []"
  by (subst split_frames.simps) simp

lemma split_frames_put:
  "length w < 65536 \<Longrightarrow> split_frames (put_frame w @ rest) = w # split_frames rest"
  by (subst split_frames.simps) (simp add: put_frame_def Let_def unat_of_nat16)

lemma split_join_frames:
  "\<forall>w \<in> set wires. length w < 65536 \<Longrightarrow> split_frames (join_frames wires) = wires"
  by (induction wires) (simp_all add: join_frames_def split_frames_put)

text \<open>A body cut short loses whole frames at the end and nothing else.\<close>

lemma split_frames_cut:
  assumes "length w < 65536" "k < length (put_frame w)"
  shows "split_frames (take k (put_frame w)) = []"
proof (cases "2 \<le> k")
  case True
  have len: "length (put16 (word_of_nat (length w))) = 2" by simp
  have "take k (put_frame w) = put16 (word_of_nat (length w)) @ take (k - 2) w"
    using True by (simp add: put_frame_def)
  moreover have "min (k - 2) (length w) < length w"
    using assms(2) True by (auto simp: put_frame_def)
  ultimately show ?thesis
    using assms(1) by (subst split_frames.simps) (simp add: Let_def unat_of_nat16)
next
  case False
  then show ?thesis by (subst split_frames.simps) simp
qed

lemma split_join_prefix:
  "\<forall>w \<in> set wires. length w < 65536 \<Longrightarrow>
   split_frames (join_frames wires @ rest) = wires @ split_frames rest"
  by (induction wires) (simp_all add: join_frames_def split_frames_put)

section \<open>Properties\<close>

text \<open>The frame loop of \<open>handlePush\<close> and \<open>Pull\<close> recovers exactly the frames that were written,
  in order, and from a body cut inside a frame all the frames before it.\<close>

theorem framing_roundtrip:
  assumes "list_all (\<lambda>w. length w < 65536) (wires @ [w])" "k < length (put_frame w)"
  shows "split_frames (join_frames wires) = wires \<and>
    split_frames (join_frames wires @ take k (put_frame w)) = wires"
  using split_join_frames [of wires] split_join_prefix [of wires] split_frames_cut [of w k] assms
  by (simp add: list_all_iff)

theorem framing_roundtrip_witness:
  "split_frames (join_frames [[1, 2], [], [3]]) = [[1, 2], [], [3]] \<and>
   split_frames (join_frames [[1, 2], [], [3]] @ take 3 (put_frame [8, 9])) = [[1, 2], [], [3]]"
  by (rule framing_roundtrip) (simp_all add: put_frame_def)

end
