(* ===== verification/Client.thy ===== *)
theory Client
  imports Session GoLib
begin

text \<open>
  \<open>client/client.go\<close>: handshake, upload and polling download of the client. The HTTP client is
  the parameter \<open>rt\<close>: it takes a request in a world of type \<open>'w\<close> (the network and the server)
  to a response or a failure, and the world after it. Each operation returns its error or value,
  the client and the world.
\<close>

section \<open>Model\<close>

record client_request =
  cq_method :: string
  cq_url :: string
  cq_header :: "string \<Rightarrow> string"
  cq_body :: bytes

text \<open>\<open>http.NewRequest\<close> refuses the URL, or \<open>HTTPClient.Do\<close> fails.\<close>

datatype http_failure = BadURL | Unreachable

type_synonym 'w round_trip = "client_request \<Rightarrow> 'w \<Rightarrow> (http_failure + response) \<times> 'w"

datatype client_error =
    ErrNoPriorSession
  | ErrEphemeralKeypair proto_error
  | ErrEncodeHandshake proto_error
  | ErrEncodeOutgoing proto_error
  | ErrRequest http_failure
  | ErrRejected nat
  | ErrMalformedResponse
  | ErrReadBody

definition client_HKDFInfo :: string where
  "client_HKDFInfo = ''turboflare-transport-v1''"
definition client_HeaderProvisionToken :: string where
  "client_HeaderProvisionToken = ''X-Provision-Token''"
definition client_HeaderConnectionID :: string where
  "client_HeaderConnectionID = ''X-Connection-Id''"

record Client =
  cl_ServerStaticPub :: bytes
  cl_DeviceID :: u64
  cl_Token :: string
  cl_BaseURL :: string
  cl_Session :: Session

definition client_New :: "nanos \<Rightarrow> string \<Rightarrow> bytes \<Rightarrow> u64 \<Rightarrow> string \<Rightarrow> Client" where
  "client_New now baseURL serverStaticPub deviceID token =
     \<lparr>cl_ServerStaticPub = serverStaticPub, cl_DeviceID = deviceID, cl_Token = token,
      cl_BaseURL = baseURL, cl_Session = NewSession now deviceID\<rparr>"

definition connIDBytes :: "u32 \<Rightarrow> bytes" where
  "connIDBytes cid = put32 cid"

definition octet_stream :: "(string \<Rightarrow> string) \<Rightarrow> string \<Rightarrow> string" where
  "octet_stream h = h(''Content-Type'' := ''application/octet-stream'')"

definition no_header :: "string \<Rightarrow> string" where
  "no_header = (\<lambda>_. [])"

definition doHandshake ::
  "x25519 \<Rightarrow> 'w round_trip \<Rightarrow> bytes option \<Rightarrow> nanos \<Rightarrow> u32 \<Rightarrow> Client \<Rightarrow> 'w \<Rightarrow>
   (client_error + unit) \<times> Client \<times> 'w" where
  "doHandshake dh rt entropy now connectionID c w =
     (case GenerateEphemeralKeypair entropy of
        Inl e \<Rightarrow> (Inl (ErrEphemeralKeypair e), c, w)
      | Inr ephPriv \<Rightarrow>
          let plaintext = \<lparr>hp_DeviceID = cl_DeviceID c, hp_ConnectionID = connectionID,
                           hp_Flags = FlagOpen\<rparr>
          in case EncodeHandshake dh ephPriv (cl_ServerStaticPub c) 0 plaintext client_HKDFInfo of
               Inl e \<Rightarrow> (Inl (ErrEncodeHandshake e), c, w)
             | Inr (wire, sessionKey) \<Rightarrow>
                 let req = \<lparr>cq_method = ''POST'', cq_url = cl_BaseURL c @ ''/api/v1/open'',
                            cq_header = octet_stream
                              (no_header(client_HeaderProvisionToken := cl_Token c)),
                            cq_body = wire\<rparr>
                 in case rt req w of
                      (Inl e, w1) \<Rightarrow> (Inl (ErrRequest e), c, w1)
                    | (Inr resp, w1) \<Rightarrow>
                        if rs_status resp \<noteq> 200 then (Inl (ErrRejected (rs_status resp)), c, w1)
                        else case ReadAll_limited 5 (rs_body resp) (rs_broken resp) of
                               None \<Rightarrow> (Inl ErrMalformedResponse, c, w1)
                             | Some body \<Rightarrow>
                                 if length body \<noteq> 5 then (Inl ErrMalformedResponse, c, w1)
                                 else
                                   let assignedConnID = get32 (slice 0 4 body);
                                       respFlags = body ! 4;
                                       s1 = CompleteHandshake now assignedConnID sessionKey (cl_Session c);
                                       s2 = (if respFlags AND FlagKeyConfirmed \<noteq> 0
                                             then s1\<lparr>s_Reconnect := ConfirmKey (s_Reconnect s1)\<rparr>
                                             else s1)
                                   in (Inr (), c\<lparr>cl_Session := s2\<rparr>, w1))"

definition client_Open ::
  "x25519 \<Rightarrow> 'w round_trip \<Rightarrow> bytes option \<Rightarrow> nanos \<Rightarrow> Client \<Rightarrow> 'w \<Rightarrow>
   (client_error + unit) \<times> Client \<times> 'w" where
  "client_Open dh rt entropy now c w = doHandshake dh rt entropy now 0 c w"

definition client_Reconnect ::
  "x25519 \<Rightarrow> 'w round_trip \<Rightarrow> bytes option \<Rightarrow> nanos \<Rightarrow> Client \<Rightarrow> 'w \<Rightarrow>
   (client_error + unit) \<times> Client \<times> 'w" where
  "client_Reconnect dh rt entropy now c w =
     (if s_ConnectionID (cl_Session c) = 0 then (Inl ErrNoPriorSession, c, w)
      else
        let s = cl_Session c;
            c1 = c\<lparr>cl_Session := s\<lparr>s_Reconnect := StartGrace now (s_Reconnect s)\<rparr>\<rparr>
        in doHandshake dh rt entropy now (s_ConnectionID (cl_Session c1)) c1 w)"

definition conn_header :: "Client \<Rightarrow> string \<Rightarrow> string" where
  "conn_header c = no_header(client_HeaderConnectionID :=
     hex_EncodeToString (connIDBytes (s_ConnectionID (cl_Session c))))"

definition doPush ::
  "'w round_trip \<Rightarrow> bytes \<Rightarrow> Client \<Rightarrow> 'w \<Rightarrow> (client_error + unit) \<times> 'w" where
  "doPush rt body c w =
     (let req = \<lparr>cq_method = ''POST'', cq_url = cl_BaseURL c @ ''/api/v1/push'',
                 cq_header = octet_stream (conn_header c), cq_body = body\<rparr>
      in case rt req w of
           (Inl e, w1) \<Rightarrow> (Inl (ErrRequest e), w1)
         | (Inr resp, w1) \<Rightarrow>
             if rs_status resp \<noteq> 200 then (Inl (ErrRejected (rs_status resp)), w1)
             else (Inr (), w1))"

fun push_loop ::
  "'w round_trip \<Rightarrow> nat \<Rightarrow> bytes \<Rightarrow> Client \<Rightarrow> 'w \<Rightarrow> (client_error + unit) \<times> Client \<times> 'w" where
  "push_loop rt 0 body c w = (Inr (), c, w)"
| "push_loop rt (Suc n) body c w =
     (case doPush rt body c w of
        (Inl e, w1) \<Rightarrow> (Inl e, c, w1)
      | (Inr _, w1) \<Rightarrow>
          let s = cl_Session c;
              c1 = (if ShouldSendRedundant (s_Reconnect s)
                    then c\<lparr>cl_Session := s\<lparr>s_Reconnect := MarkRedundantSent (s_Reconnect s)\<rparr>\<rparr>
                    else c)
          in push_loop rt n body c1 w1)"

definition Push ::
  "'w round_trip \<Rightarrow> bytes \<Rightarrow> Client \<Rightarrow> 'w \<Rightarrow> (client_error + unit) \<times> Client \<times> 'w" where
  "Push rt payload c w =
     (case EncodeOutgoing payload 0 (cl_Session c) of
        (Inl e, s1) \<Rightarrow> (Inl (ErrEncodeOutgoing e), c\<lparr>cl_Session := s1\<rparr>, w)
      | (Inr wire, s1) \<Rightarrow>
          let c1 = c\<lparr>cl_Session := s1\<rparr>;
              buf = put16 (word_of_nat (length wire)) @ wire;
              sends = (if ShouldSendRedundant (s_Reconnect s1) then 1 else 1)
          in push_loop rt sends buf c1 w)"

definition Pull ::
  "'w round_trip \<Rightarrow> nanos \<Rightarrow> Client \<Rightarrow> 'w \<Rightarrow> (client_error + bytes list) \<times> Client \<times> 'w" where
  "Pull rt now c w =
     (let req = \<lparr>cq_method = ''GET'', cq_url = cl_BaseURL c @ ''/api/v1/pull'',
                 cq_header = conn_header c, cq_body = []\<rparr>
      in case rt req w of
           (Inl e, w1) \<Rightarrow> (Inl (ErrRequest e), c, w1)
         | (Inr resp, w1) \<Rightarrow>
             if rs_status resp \<noteq> 200 then (Inl (ErrRejected (rs_status resp)), c, w1)
             else case ReadAll (rs_body resp) (rs_broken resp) of
                    None \<Rightarrow> (Inl ErrReadBody, c, w1)
                  | Some body \<Rightarrow>
                      (case decode_batch now (split_frames body) (cl_Session c) of
                         (out, s1) \<Rightarrow> (Inr out, c\<lparr>cl_Session := s1\<rparr>, w1)))"

section \<open>Single operations\<close>

lemma push_loop_once:
  "push_loop rt 1 body c w =
     (case doPush rt body c w of
        (Inl e, w1) \<Rightarrow> (Inl e, c, w1)
      | (Inr _, w1) \<Rightarrow>
          (Inr (), (if ShouldSendRedundant (s_Reconnect (cl_Session c))
             then c\<lparr>cl_Session := (cl_Session c)
               \<lparr>s_Reconnect := MarkRedundantSent (s_Reconnect (cl_Session c))\<rparr>\<rparr> else c), w1))"
  by (simp add: Let_def split: sum.split prod.split)

text \<open>Push makes one request, grace period or not.\<close>

lemma Push_wire:
  assumes "aes_key_ok (s_SessionKey (cl_Session c))"
  shows "Push rt payload c w =
     push_loop rt 1 (put_frame (out_wire 0 (cl_Session c) 0 payload))
       (c\<lparr>cl_Session := advance 1 (cl_Session c)\<rparr>) w"
  by (simp only: Push_def EncodeOutgoing_wire [OF assms] prod.case sum.case Let_def put_frame_def
      if_cancel)

text \<open>A network that records the requests and answers 200 to each.\<close>

definition record_request :: "client_request list round_trip" where
  "record_request rq reqs = (Inr (http_reply [] 200 []), reqs @ [rq])"

lemma EncodeHandshake_key:
  "EncodeHandshake dh a pub n pt info = Inr (wire, key) \<Longrightarrow> length key = 32"
  using DeriveSessionKey_length by (auto simp: EncodeHandshake_def Let_def bindR_eq_Inr)

lemma doHandshake_outcome:
  "case doHandshake dh rt entropy now cid c w of (res, c', w') \<Rightarrow>
     (case res of
        Inl e \<Rightarrow> c' = c
      | Inr _ \<Rightarrow> GetState (cl_Session c') = StateActive \<and> s_sendCounter (cl_Session c') = 0 \<and>
          s_replay (cl_Session c') = replay_Reset (s_replay (cl_Session c)) \<and>
          length (s_SessionKey (cl_Session c')) = 32 \<and>
          s_sendSequence (cl_Session c') = s_sendSequence (cl_Session c))"
  using EncodeHandshake_key
  by (auto simp: doHandshake_def Let_def GetState_def CompleteHandshake_def
      split: sum.splits prod.splits option.splits if_splits)

section \<open>Properties\<close>

text \<open>C38: \<open>Open\<close> either fails and leaves the client as it was, or ends with an active session: counter
  at zero, an empty replay window, a 32-byte key.\<close>

theorem open_all_or_nothing:
  "case client_Open dh rt entropy now c w of (res, c', w') \<Rightarrow>
     (case res of
        Inl e \<Rightarrow> c' = c
      | Inr _ \<Rightarrow> GetState (cl_Session c') = StateActive \<and> s_sendCounter (cl_Session c') = 0 \<and>
          s_replay (cl_Session c') = replay_Reset (s_replay (cl_Session c)) \<and>
          length (s_SessionKey (cl_Session c')) = 32 \<and>
          s_sendSequence (cl_Session c') = s_sendSequence (cl_Session c))"
  unfolding client_Open_def by (rule doHandshake_outcome)

text \<open>In a grace period \<open>Push\<close> makes one request, like any other time, yet counts it as a redundant
  copy: three pushes use the budget up without a single copy having been sent.\<close>

theorem push_never_duplicates:
  assumes "aes_key_ok (s_SessionKey (cl_Session c))" "ShouldSendRedundant (s_Reconnect (cl_Session c))"
  shows "case Push record_request payload c reqs of (res, c', reqs') \<Rightarrow>
    res = Inr () \<and> length reqs' = length reqs + 1 \<and>
    redundantSent (s_Reconnect (cl_Session c')) = redundantSent (s_Reconnect (cl_Session c)) + 1"
  using assms
  by (simp add: Push_wire push_loop_once doPush_def record_request_def Let_def advance_def
      MarkRedundantSent_def)

theorem push_never_duplicates_witness:
  "case Push record_request [65] \<lparr>cl_ServerStaticPub = [], cl_DeviceID = 1, cl_Token = ''t'',
      cl_BaseURL = ''u'', cl_Session = (connected 0 1 1 (replicate 32 0))
        \<lparr>s_Reconnect := StartGrace 0 NewReconnectState\<rparr>\<rparr> [] of (res, c', reqs') \<Rightarrow>
    res = Inr () \<and> length reqs' = 1 \<and> redundantSent (s_Reconnect (cl_Session c')) = 1"
  using push_never_duplicates [where c = "\<lparr>cl_ServerStaticPub = [], cl_DeviceID = 1, cl_Token = ''t'',
      cl_BaseURL = ''u'', cl_Session = (connected 0 1 1 (replicate 32 0))
        \<lparr>s_Reconnect := StartGrace 0 NewReconnectState\<rparr>\<rparr>"
    and payload = "[65]" and reqs = "[]"]
  by (simp add: aes_key_ok_def StartGrace_def NewReconnectState_def ShouldSendRedundant_def
      DefaultRedundantCount_def)

text \<open>When the request of a \<open>Push\<close> fails, the caller gets the error, and the counter and sequence
  number of the frame are gone: the frame is not kept, and the next one has the next number.\<close>

theorem failed_push_skips_number:
  assumes "aes_key_ok (s_SessionKey (cl_Session c))" "\<And>rq. rt rq w = (Inl Unreachable, w)"
  shows "case Push rt payload c w of (res, c', w') \<Rightarrow>
    res = Inl (ErrRequest Unreachable) \<and> w' = w \<and>
    s_sendSequence (cl_Session c') = s_sendSequence (cl_Session c) + 1 \<and>
    s_sendCounter (cl_Session c') = s_sendCounter (cl_Session c) + 1 \<and>
    s_reorder (cl_Session c') = s_reorder (cl_Session c)"
  using assms by (simp add: Push_wire push_loop_once doPush_def Let_def advance_def)

theorem failed_push_skips_number_witness:
  "case Push (\<lambda>rq w. (Inl Unreachable, w)) [65] \<lparr>cl_ServerStaticPub = [], cl_DeviceID = 1,
      cl_Token = ''t'', cl_BaseURL = ''u'', cl_Session = connected 0 1 1 (replicate 32 0)\<rparr> (0 :: nat) of
    (res, c', w') \<Rightarrow> res = Inl (ErrRequest Unreachable) \<and> s_sendSequence (cl_Session c') = 1"
  using failed_push_skips_number [where c = "\<lparr>cl_ServerStaticPub = [], cl_DeviceID = 1,
      cl_Token = ''t'', cl_BaseURL = ''u'', cl_Session = connected 0 1 1 (replicate 32 0)\<rparr>"
    and rt = "\<lambda>rq w. (Inl Unreachable, w)" and w = "0 :: nat" and payload = "[65]"]
  by (simp add: aes_key_ok_def split_beta)

end
