(* ===== verification/ClientEnv.thy ===== *)
theory ClientEnv
  imports Client
begin

text \<open>
  What the programs that use a client have around it: the HTTP client, the random source, the clock
  and \<open>time.Sleep\<close>, all on a world of type \<open>'w\<close>. The operations of \<open>client/client.go\<close> in such a
  world, and the setup of a client from a hexadecimal configuration, which the bridge and the VPN
  tunnel write out in the same words.
\<close>

section \<open>Model\<close>

record 'w client_env =
  ce_dh :: x25519
  ce_rt :: "'w round_trip"
  ce_rand :: "'w \<Rightarrow> bytes option \<times> 'w"
  ce_clock :: "'w \<Rightarrow> nanos"
  ce_sleep :: "nanos \<Rightarrow> 'w \<Rightarrow> 'w"

text \<open>An operation reads the clock once, when it starts.\<close>

definition open_at ::
  "'w client_env \<Rightarrow> Client \<Rightarrow> 'w \<Rightarrow> (client_error + unit) \<times> Client \<times> 'w" where
  "open_at env c w =
     (case ce_rand env w of (e, w1) \<Rightarrow>
        client_Open (ce_dh env) (ce_rt env) e (ce_clock env w1) c w1)"

definition reconnect_at ::
  "'w client_env \<Rightarrow> Client \<Rightarrow> 'w \<Rightarrow> (client_error + unit) \<times> Client \<times> 'w" where
  "reconnect_at env c w =
     (case ce_rand env w of (e, w1) \<Rightarrow>
        client_Reconnect (ce_dh env) (ce_rt env) e (ce_clock env w1) c w1)"

definition push_at ::
  "'w client_env \<Rightarrow> bytes \<Rightarrow> Client \<Rightarrow> 'w \<Rightarrow> (client_error + unit) \<times> Client \<times> 'w" where
  "push_at env payload c w = Push (ce_rt env) payload c w"

definition pull_at ::
  "'w client_env \<Rightarrow> Client \<Rightarrow> 'w \<Rightarrow> (client_error + bytes list) \<times> Client \<times> 'w" where
  "pull_at env c w = Pull (ce_rt env) (ce_clock env w) c w"

section \<open>A client from its configuration\<close>

datatype setup_error =
    InvalidPubHex
  | LoadPub proto_error
  | InvalidDeviceHex

definition device_id_of :: "bytes \<Rightarrow> u64" where
  "device_id_of raw = foldl (\<lambda>d b. push_bit 8 d OR ucast b) 0 raw"

definition setup_client ::
  "string \<Rightarrow> string \<Rightarrow> string \<Rightarrow> string \<Rightarrow> nanos \<Rightarrow> setup_error + Client" where
  "setup_client baseURL pubHex deviceIDHex token now =
     (case hex_DecodeString pubHex of
        None \<Rightarrow> Inl InvalidPubHex
      | Some pubRaw \<Rightarrow>
          if length pubRaw \<noteq> X25519KeySize then Inl InvalidPubHex
          else case LoadX25519PublicKey pubRaw of
                 Inl e \<Rightarrow> Inl (LoadPub e)
               | Inr pub \<Rightarrow>
                   (case hex_DecodeString deviceIDHex of
                      None \<Rightarrow> Inl InvalidDeviceHex
                    | Some deviceIDRaw \<Rightarrow>
                        if length deviceIDRaw \<noteq> 8 then Inl InvalidDeviceHex
                        else Inr (client_New now baseURL pub (device_id_of deviceIDRaw) token)))"

text \<open>The fold reads the identifier in big-endian order.\<close>

lemma device_id_of_get64:
  assumes "length raw = 8"
  shows "device_id_of raw = get64 raw"
proof -
  obtain a b c d e f g h where "raw = [a, b, c, d, e, f, g, h]"
    using assms by (auto simp: length_Suc_conv numeral_eq_Suc)
  then show ?thesis
    by (simp add: device_id_of_def get64_def push_bit_or push_bit_push_bit or.assoc or.left_commute
        or.commute numeral_eq_Suc [of "num.One"])
qed

lemma setup_client_Inr:
  "setup_client base pubHex devHex tok now = Inr c \<longleftrightarrow>
   (\<exists>pub dev. hex_DecodeString pubHex = Some pub \<and> length pub = 32 \<and>
      hex_DecodeString devHex = Some dev \<and> length dev = 8 \<and>
      c = client_New now base pub (get64 dev) tok)"
  by (auto simp: setup_client_def LoadX25519PublicKey_def X25519KeySize_def device_id_of_get64
      split: option.splits)

lemma setup_client_encoded:
  "length pub = 32 \<Longrightarrow>
   setup_client base (hex_EncodeToString pub) (hex_EncodeToString (put64 d)) tok now =
     Inr (client_New now base pub d tok)"
  by (simp add: setup_client_Inr)

lemma pull_at_error: "pull_at env c w = (Inl e, c', w') \<Longrightarrow> c' = c"
  by (auto simp: pull_at_def Pull_def Let_def split: sum.splits prod.splits option.splits if_splits)

text \<open>A handshake depends on the network through the answer to its one request.\<close>

lemma doHandshake_lift:
  assumes "\<And>rq. rt' rq w' = (fst (rt rq w), g (snd (rt rq w)))"
    "doHandshake dh rt e now cid c w = (Inr (), c', w1)"
  shows "doHandshake dh rt' e now cid c w' = (Inr (), c', g w1)"
proof (cases "GenerateEphemeralKeypair e")
  case g: (Inr eph)
  let ?pt = "\<lparr>hp_DeviceID = cl_DeviceID c, hp_ConnectionID = cid, hp_Flags = FlagOpen\<rparr>"
  show ?thesis
  proof (cases "EncodeHandshake dh eph (cl_ServerStaticPub c) 0 ?pt client_HKDFInfo")
    case h: (Inr wk)
    obtain wire key where wk: "wk = (wire, key)" by (cases wk)
    let ?rq = "\<lparr>cq_method = ''POST'', cq_url = cl_BaseURL c @ ''/api/v1/open'',
      cq_header = octet_stream (no_header(client_HeaderProvisionToken := cl_Token c)),
      cq_body = wire\<rparr>"
    obtain ans w2 where r: "rt ?rq w = (ans, w2)" by (cases "rt ?rq w")
    have r': "rt' ?rq w' = (ans, g w2)" by (simp add: assms(1) r)
    show ?thesis
      using assms(2) unfolding doHandshake_def g h wk Let_def sum.case prod.case r r'
      by (cases ans) (auto split: if_splits option.splits)
  qed (use assms(2) in \<open>simp add: doHandshake_def g\<close>)
qed (use assms(2) in \<open>simp add: doHandshake_def\<close>)

section \<open>Time\<close>

text \<open>
  A world in which time passes: no round trip takes no time at all, and a sleep lasts as long as
  asked. \<open>tick\<close> is the resolution of the clock.
\<close>

locale timed =
  fixes env :: "'w client_env" and tick :: nanos
  assumes tick_pos: "0 < tick"
    and rt_time: "ce_clock env w + tick \<le> ce_clock env (snd (ce_rt env rq w))"
    and sleep_time: "0 \<le> d \<Longrightarrow> ce_clock env w + d \<le> ce_clock env (ce_sleep env d w)"
begin

lemma pull_world:
  "snd (snd (pull_at env c w)) = snd (ce_rt env \<lparr>cq_method = ''GET'',
     cq_url = cl_BaseURL c @ ''/api/v1/pull'', cq_header = conn_header c, cq_body = []\<rparr> w)"
  by (simp add: pull_at_def Pull_def Let_def split: sum.split prod.split option.split)

lemma pull_time: "ce_clock env w + tick \<le> ce_clock env (snd (snd (pull_at env c w)))"
  unfolding pull_world by (rule rt_time)

lemma pull_then_sleep:
  "0 \<le> d \<Longrightarrow>
   ce_clock env w + tick + d \<le> ce_clock env (ce_sleep env d (snd (snd (pull_at env c w))))"
  using pull_time [of w c] sleep_time [of d "snd (snd (pull_at env c w))"] by linarith

end

end
