(* ===== verification/GoFmt.thy ===== *)
theory GoFmt
  imports GoLib
begin

text \<open>
  The verbs of \<open>fmt.Sprintf\<close> that the sources use on integers: \<open>%d\<close> on a number that is not
  negative, and \<open>%08x\<close> on a \<open>uint32\<close>. The second is what \<open>encoding/hex\<close> makes of the big-endian
  bytes, so that both ways of printing a connection id agree.
\<close>

section \<open>Digits\<close>

fun decimal :: "nat \<Rightarrow> string" where
  "decimal n =
     (if n < 10 then [char_of (48 + n)] else decimal (n div 10) @ [char_of (48 + n mod 10)])"

fun hex_digits :: "nat \<Rightarrow> string" where
  "hex_digits n =
     (if n < 16 then [hextable ! n] else hex_digits (n div 16) @ [hextable ! (n mod 16)])"

declare decimal.simps [simp del] hex_digits.simps [simp del]

definition format_08x :: "u32 \<Rightarrow> string" where
  "format_08x v =
     (let d = hex_digits (unat v) in replicate (8 - length d) (CHR ''0'') @ d)"

text \<open>The last \<open>k\<close> hexadecimal digits, leading zeros included.\<close>

primrec low_digits :: "nat \<Rightarrow> nat \<Rightarrow> string" where
  "low_digits 0 n = []"
| "low_digits (Suc k) n = low_digits k (n div 16) @ [hextable ! (n mod 16)]"

lemma low_digits_zero: "low_digits k 0 = replicate k (CHR ''0'')"
  by (induction k) (simp_all add: hextable_def replicate_append_same)

lemma pad_hex_digits:
  "n < 16 ^ k \<Longrightarrow> 0 < k \<Longrightarrow>
   replicate (k - length (hex_digits n)) (CHR ''0'') @ hex_digits n = low_digits k n"
proof (induction k arbitrary: n)
  case (Suc k)
  show ?case
  proof (cases "n < 16")
    case True
    then show ?thesis by (simp add: hex_digits.simps [of n] low_digits_zero)
  next
    case False
    have "n div 16 < 16 ^ k" using Suc.prems(1) by (simp add: less_mult_imp_div_less mult.commute)
    moreover have "0 < k" using False Suc.prems(1) by (cases k) auto
    ultimately show ?thesis
      using Suc.IH [of "n div 16"] False by (simp add: hex_digits.simps [of n])
  qed
qed simp

text \<open>Two digits are a byte.\<close>

lemma low_digits_byte:
  "low_digits (Suc (Suc k)) n =
   low_digits k (n div 256) @ [hextable ! (n mod 256 div 16), hextable ! (n mod 256 mod 16)]"
proof -
  have "n mod 256 div 16 = n div 16 mod 16" "n mod 256 mod 16 = n mod 16"
    using mod_mult2_eq [of n 16 16] by simp_all
  then show ?thesis by (simp add: div_mult2_eq [symmetric])
qed

lemma unat_byte_at: "unat (ucast (drop_bit k (v :: u32)) :: byte) = unat v div 2 ^ k mod 256"
  using unsigned_drop_bit_eq [of k v, where 'a = nat] unsigned_less [of v, where 'a = nat]
  by (simp add: unsigned_ucast_eq drop_bit_eq_div take_bit_eq_mod)

lemma format_08x_hex: "format_08x v = hex_EncodeToString (put32 v)"
proof -
  have "unat v < 16 ^ 8" using unsigned_less [of v, where 'a = nat] by simp
  then have "format_08x v = low_digits 8 (unat v)"
    unfolding format_08x_def Let_def by (rule pad_hex_digits) simp
  also have "8 = Suc (Suc (Suc (Suc (Suc (Suc (Suc (Suc 0)))))))" by simp
  finally show ?thesis
    using unat_byte_at [of 24 v] unat_byte_at [of 16 v] unat_byte_at [of 8 v] unat_byte_at [of 0 v]
    by (simp only: low_digits_byte low_digits.simps(1) append_Nil append_Cons put32_def
        hex_EncodeToString.simps div_mult2_eq [symmetric] drop_bit_0 id_apply) simp
qed

end
