(* ===== verification/VpnTunnel.thy ===== *)
theory VpnTunnel
  imports ClientEnv GoFmt
begin

text \<open>
  \<open>android/vpntun/tunnel.go\<close>: the VPN tunnel of the Android application. Every intercepted TCP flow
  gets a session of its own: handshake, CONNECT, and two pumps. DNS queries go through one session
  that lasts as long as the tunnel. gVisor's network stack is not part of the repository: what its
  calls return is input, and the calls made on it are recorded.
\<close>

section \<open>Opening a session to a target\<close>

definition DNSUpstream :: string where "DNSUpstream = ''1.1.1.1:53''"

record Config =
  cfg_BaseURL :: string
  cfg_ServerPubHex :: string
  cfg_DeviceIDHex :: string
  cfg_Token :: string

text \<open>
  The loop over the payloads of one poll: \<open>Some True\<close> when the server confirmed, \<open>Some False\<close> when
  it reported an error. The payloads behind the one that decided are not looked at.
\<close>

fun scan_payloads :: "bytes list \<Rightarrow> bool option" where
  "scan_payloads [] = None"
| "scan_payloads (p # ps) =
     (let s = string_of p
      in if 12 \<le> length s \<and> take 12 s = ''OK CONNECTED'' then Some True
         else if 5 \<le> length s \<and> take 5 s = ''ERROR'' then Some False
         else scan_payloads ps)"

fun wait_loop :: "'w client_env \<Rightarrow> nat \<Rightarrow> Client \<Rightarrow> 'w \<Rightarrow> bool \<times> Client \<times> 'w" where
  "wait_loop env 0 c w = (False, c, w)"
| "wait_loop env (Suc n) c w =
     (case pull_at env c w of (res, c1, w1) \<Rightarrow>
        (case res of
           Inl e \<Rightarrow> (False, c1, w1)
         | Inr payloads \<Rightarrow>
             (case scan_payloads payloads of
                Some b \<Rightarrow> (b, c1, w1)
              | None \<Rightarrow> wait_loop env n c1 (ce_sleep env (300 * millisecond) w1))))"

definition waitForConnected :: "'w client_env \<Rightarrow> Client \<Rightarrow> 'w \<Rightarrow> bool \<times> Client \<times> 'w" where
  "waitForConnected env c w = wait_loop env 50 c w"

datatype flow_error =
    FlowConfig setup_error
  | FlowHandshake client_error
  | FlowConnect client_error
  | FlowNotConfirmed

text \<open>What \<open>handleFlow\<close> and \<open>openDNSSession\<close> do up to the confirmation.\<close>

definition connect_flow ::
  "'w client_env \<Rightarrow> Config \<Rightarrow> string \<Rightarrow> 'w \<Rightarrow> (flow_error + Client) \<times> 'w" where
  "connect_flow env cfg target w =
     (case setup_client (cfg_BaseURL cfg) (cfg_ServerPubHex cfg) (cfg_DeviceIDHex cfg)
             (cfg_Token cfg) (ce_clock env w) of
        Inl e \<Rightarrow> (Inl (FlowConfig e), w)
      | Inr c \<Rightarrow>
          (case open_at env c w of (opened, c1, w1) \<Rightarrow>
             (case opened of
                Inl e \<Rightarrow> (Inl (FlowHandshake e), w1)
              | Inr _ \<Rightarrow>
                  (case push_at env (bytes_of target) c1 w1 of (pushed, c2, w2) \<Rightarrow>
                     (case pushed of
                        Inl e \<Rightarrow> (Inl (FlowConnect e), w2)
                      | Inr _ \<Rightarrow>
                          (case waitForConnected env c2 w2 of (ok, c3, w3) \<Rightarrow>
                             if ok then (Inr c3, w3) else (Inl FlowNotConfirmed, w3)))))))"

definition openDNSSession :: "'w client_env \<Rightarrow> Config \<Rightarrow> 'w \<Rightarrow> (flow_error + Client) \<times> 'w" where
  "openDNSSession env cfg w = connect_flow env cfg DNSUpstream w"

section \<open>The two pumps of a flow\<close>

text \<open>
  \<open>fl_up\<close> and \<open>fl_down\<close>: the pump is running. \<open>fl_done\<close>: the channel \<open>done\<close> is closed. \<open>fl_closed\<close>:
  \<open>handleFlow\<close> returned and closed the application's connection. \<open>fl_out\<close>: what was written to it.
  A step is one round of a pump or the end of \<open>handleFlow\<close>; \<open>wr\<close> tells whether a write succeeds.
\<close>

record 'w flow =
  fl_client :: Client
  fl_world :: 'w
  fl_up :: bool
  fl_down :: bool
  fl_done :: bool
  fl_closed :: nat
  fl_out :: "bytes list"

datatype flow_event =
    AppRead bytes bool        \<comment> \<open>\<open>conn.Read\<close>: the bytes read, whether \<open>err\<close> is set\<close>
  | DownRound
  | MainReturn

definition start_flow :: "Client \<Rightarrow> 'w \<Rightarrow> 'w flow" where
  "start_flow c w = \<lparr>fl_client = c, fl_world = w, fl_up = True, fl_down = True, fl_done = False,
     fl_closed = 0, fl_out = []\<rparr>"

fun write_payloads ::
  "(bytes list \<Rightarrow> bytes \<Rightarrow> bool) \<Rightarrow> bytes list \<Rightarrow> 'w flow \<Rightarrow> 'w flow" where
  "write_payloads wr [] f = f"
| "write_payloads wr (p # ps) f =
     (if wr (fl_out f) p then write_payloads wr ps (f\<lparr>fl_out := fl_out f @ [p]\<rparr>)
      else f\<lparr>fl_done := True, fl_down := False\<rparr>)"

fun flow_step ::
  "'w client_env \<Rightarrow> (bytes list \<Rightarrow> bytes \<Rightarrow> bool) \<Rightarrow> 'w flow \<Rightarrow> flow_event \<Rightarrow> 'w flow" where
  "flow_step env wr f (AppRead chunk err) =
     (if \<not> fl_up f then f
      else
        let (pushed, f1) =
              (if length chunk > 0 then
                 (case push_at env chunk (fl_client f) (fl_world f) of (res, c, w) \<Rightarrow>
                    (res, f\<lparr>fl_client := c, fl_world := w\<rparr>))
               else (Inr (), f))
        in case pushed of
             Inl e \<Rightarrow> f1\<lparr>fl_done := True, fl_up := False\<rparr>
           | Inr _ \<Rightarrow> if err then f1\<lparr>fl_done := True, fl_up := False\<rparr> else f1)"
| "flow_step env wr f DownRound =
     (if \<not> fl_down f then f
      else if fl_done f then f\<lparr>fl_down := False\<rparr>
      else
        case pull_at env (fl_client f) (fl_world f) of (res, c, w) \<Rightarrow>
          (let f1 = f\<lparr>fl_client := c, fl_world := w\<rparr>
           in case res of
                Inl e \<Rightarrow> f1\<lparr>fl_done := True, fl_down := False\<rparr>
              | Inr payloads \<Rightarrow>
                  if length payloads = 0
                  then f1\<lparr>fl_world := ce_sleep env (100 * millisecond) w\<rparr>
                  else write_payloads wr payloads f1))"
| "flow_step env wr f MainReturn =
     (if fl_done f \<and> fl_closed f = 0 then f\<lparr>fl_closed := 1\<rparr> else f)"

declare flow_step.simps [simp del]

text \<open>\<open>handleFlow\<close>: a flow whose session was not set up has its connection closed at once.\<close>

definition handleFlow :: "'w client_env \<Rightarrow> Config \<Rightarrow> string \<Rightarrow> 'w \<Rightarrow> (flow_error + 'w flow) \<times> 'w" where
  "handleFlow env cfg target w =
     (case connect_flow env cfg target w of
        (Inl e, w1) \<Rightarrow> (Inl e, w1)
      | (Inr c, w1) \<Rightarrow> (Inr (start_flow c w1), w1))"

section \<open>The forwarders\<close>

definition tcp_target :: "string \<Rightarrow> u16 \<Rightarrow> string" where
  "tcp_target localAddress localPort = localAddress @ '':'' @ decimal (unat localPort)"

definition udp_relayed :: "u16 \<Rightarrow> bool" where
  "udp_relayed localPort \<longleftrightarrow> \<not> (localPort \<noteq> 53)"

section \<open>The log buffer\<close>

definition logBufCap :: nat where "logBufCap = 500"

definition logf :: "string \<Rightarrow> string list \<Rightarrow> string list" where
  "logf line buf =
     (let buf1 = buf @ [line]
      in if length buf1 > logBufCap then drop (length buf1 - logBufCap) buf1 else buf1)"

fun join_lines :: "string list \<Rightarrow> string" where
  "join_lines [] = []"
| "join_lines [l] = l"
| "join_lines (l # ls) = l @ [CHR 0x0A] @ join_lines ls"

definition DrainLogs :: "string list \<Rightarrow> string \<times> string list" where
  "DrainLogs buf = (if length buf = 0 then ([], buf) else (join_lines buf, []))"

section \<open>Runs of a flow\<close>

lemma write_payloads_keeps [simp]:
  "fl_client (write_payloads wr ps f) = fl_client f" "fl_world (write_payloads wr ps f) = fl_world f"
  "fl_closed (write_payloads wr ps f) = fl_closed f" "fl_up (write_payloads wr ps f) = fl_up f"
  "fl_done f \<Longrightarrow> fl_done (write_payloads wr ps f)"
  by (induction ps arbitrary: f) auto

lemma write_payloads_done:
  "fl_down f \<Longrightarrow> \<not> fl_down (write_payloads wr ps f) \<Longrightarrow> fl_done (write_payloads wr ps f)"
  by (induction ps arbitrary: f) auto

lemma write_payloads_ok:
  "(\<And>out p. wr out p) \<Longrightarrow> write_payloads wr ps f = f\<lparr>fl_out := fl_out f @ ps\<rparr>"
  by (induction ps arbitrary: f) simp_all

text \<open>
  The channel is closed as soon as a pump has ended, and the connection is closed at most once and
  only then.
\<close>

definition flow_inv :: "'w flow \<Rightarrow> bool" where
  "flow_inv f \<longleftrightarrow> (\<not> fl_up f \<or> \<not> fl_down f \<longrightarrow> fl_done f) \<and>
     fl_closed f \<le> 1 \<and> (fl_closed f = 1 \<longrightarrow> fl_done f)"

lemma flow_inv_step: "flow_inv f \<Longrightarrow> flow_inv (flow_step env wr f e)"
  by (cases e) (auto simp: flow_step.simps flow_inv_def Let_def intro: write_payloads_done
      split: prod.split sum.split)

interpretation flows: invariant_machine "flow_step env wr" flow_inv "\<lambda>_. True"
  by unfold_locales (rule flow_inv_step)

lemma flow_done_stays: "fl_done f \<Longrightarrow> fl_done (flow_step env wr f e)"
  by (cases e) (auto simp: flow_step.simps Let_def split: prod.split sum.split)

lemma flow_closed_stays: "fl_closed f = 1 \<Longrightarrow> fl_closed (flow_step env wr f e) = 1"
  by (cases e) (auto simp: flow_step.simps Let_def split: prod.split sum.split)

lemma flow_closed_run: "fl_closed f = 1 \<Longrightarrow> fl_closed (foldl (flow_step env wr) f es) = 1"
  by (induction es arbitrary: f) (simp_all add: flow_closed_stays)

section \<open>Waiting for the confirmation\<close>

lemma scan_confirmed: "scan_payloads (bytes_of ''OK CONNECTED'' # ps) = Some True"
  by simp

section \<open>The log buffer over many calls\<close>

definition keep_last :: "nat \<Rightarrow> 'a list \<Rightarrow> 'a list" where
  "keep_last k xs = drop (length xs - k) xs"

lemma keep_last_append: "keep_last k (keep_last k xs @ ys) = keep_last k (xs @ ys)"
  by (cases "length xs \<le> k") (simp_all add: keep_last_def add.commute)

lemma logf_keep: "logf l buf = keep_last logBufCap (buf @ [l])"
  by (simp add: logf_def keep_last_def Let_def)

lemma logf_last:
  "length buf \<le> logBufCap \<Longrightarrow> fold logf lines buf = keep_last logBufCap (buf @ lines)"
proof (induction lines rule: rev_induct)
  case Nil
  then show ?case by (simp add: keep_last_def)
next
  case (snoc l ls)
  then show ?case using keep_last_append [of logBufCap "buf @ ls" "[l]"] by (simp add: logf_keep)
qed

section \<open>Properties\<close>

text \<open>C30: However the rounds of the two pumps interleave and whatever fails in them: once one of them
  has ended, \<open>handleFlow\<close> returns, and the application's connection has been closed exactly once from
  then on.\<close>

theorem flow_ends_once:
  assumes "\<not> fl_up (foldl (flow_step env wr) (start_flow c w) es) \<or>
    \<not> fl_down (foldl (flow_step env wr) (start_flow c w) es)"
  shows "fl_closed (foldl (flow_step env wr) (start_flow c w) (es @ MainReturn # fs)) = 1"
proof -
  let ?f = "foldl (flow_step env wr) (start_flow c w) es"
  have "flow_inv ?f" by (rule flows.inv_run) (simp_all add: start_flow_def flow_inv_def list_all_iff)
  then have "fl_closed (flow_step env wr ?f MainReturn) = 1"
    using assms by (auto simp: flow_inv_def flow_step.simps)
  then show ?thesis by (simp add: flow_closed_run)
qed

theorem flow_ends_once_witness:
  "fl_closed (foldl (flow_step \<lparr>ce_dh = map2 (+), ce_rt = record_request, ce_rand = \<lambda>w. (None, w),
      ce_clock = \<lambda>w. 0, ce_sleep = \<lambda>d w. w\<rparr> (\<lambda>out p. True))
      (start_flow (client_New 0 [] [] 1 []) []) ([AppRead [] True] @ MainReturn # [MainReturn])) = 1"
  by (rule flow_ends_once) (simp add: start_flow_def flow_step.simps)

text \<open>The log buffer holds the last 500 lines since it was drained, in order, and draining it
  gives them joined by newlines and leaves it empty.\<close>

theorem drained_logs:
  "DrainLogs (fold logf lines []) = (join_lines (drop (length lines - 500) lines), []) \<and>
   length (fold logf lines []) \<le> 500"
proof -
  have "length lines \<le> length lines - 500 \<longleftrightarrow> length lines = 0" by arith
  then show ?thesis
    using logf_last [of "[]" lines] by (auto simp: DrainLogs_def keep_last_def logBufCap_def)
qed

end
