(* ===== verification/VpnDNS.thy ===== *)
theory VpnDNS
  imports VpnTunnel
begin

text \<open>
  The DNS relay of \<open>android/vpntun/tunnel.go\<close>: one session to the resolver, on which queries and
  answers are framed with a 2-byte length (RFC 1035, 4.2.2). The loop of \<open>resolve\<close> runs on the
  clock of the world, so it is a partial function: \<open>None\<close> means that it does not return. It returns
  in every world in which time passes.
\<close>

section \<open>Model\<close>

record dnsRelay =
  dr_c :: Client
  dr_cfg :: Config

datatype resolve_error =
    PushQuery client_error
  | PullResponse client_error
  | TimedOut

definition newDNSRelay :: "'w client_env \<Rightarrow> Config \<Rightarrow> 'w \<Rightarrow> (flow_error + dnsRelay) \<times> 'w" where
  "newDNSRelay env cfg w =
     (case openDNSSession env cfg w of
        (Inl e, w1) \<Rightarrow> (Inl e, w1)
      | (Inr c, w1) \<Rightarrow> (Inr \<lparr>dr_c = c, dr_cfg = cfg\<rparr>, w1))"

text \<open>A session that cannot be opened leaves the old one in place.\<close>

definition reopen :: "'w client_env \<Rightarrow> dnsRelay \<Rightarrow> 'w \<Rightarrow> dnsRelay \<times> 'w" where
  "reopen env d w =
     (case openDNSSession env (dr_cfg d) w of
        (Inl e, w1) \<Rightarrow> (d, w1)
      | (Inr c, w1) \<Rightarrow> (d\<lparr>dr_c := c\<rparr>, w1))"

text \<open>The first message of the buffer, when it is complete.\<close>

definition complete_message :: "bytes \<Rightarrow> bytes option" where
  "complete_message buf =
     (if 2 \<le> length buf then
        let msgLen = unat (get16 (slice 0 2 buf))
        in if length buf \<ge> 2 + msgLen then Some (slice 2 (2 + msgLen) buf) else None
      else None)"

partial_function (option) resolve_loop ::
  "'w client_env \<Rightarrow> nanos \<Rightarrow> bytes \<Rightarrow> Client \<Rightarrow> 'w \<Rightarrow>
   ((resolve_error + bytes) \<times> Client \<times> 'w) option" where
  "resolve_loop env deadline buf c w =
     (if ce_clock env w < deadline then
        (case complete_message buf of
           Some r \<Rightarrow> Some (Inr r, c, w)
         | None \<Rightarrow>
             (case pull_at env c w of (res, c1, w1) \<Rightarrow>
                (case res of
                   Inl e \<Rightarrow> Some (Inl (PullResponse e), c1, w1)
                 | Inr payloads \<Rightarrow>
                     resolve_loop env deadline (buf @ concat payloads) c1
                       (if length payloads = 0 then ce_sleep env (50 * millisecond) w1 else w1))))
      else Some (Inl TimedOut, c, w))"

definition resolve ::
  "'w client_env \<Rightarrow> bytes \<Rightarrow> nanos \<Rightarrow> dnsRelay \<Rightarrow> 'w \<Rightarrow>
   ((resolve_error + bytes) \<times> dnsRelay \<times> 'w) option" where
  "resolve env query timeout d w =
     (let framed = put16 (word_of_nat (length query)) @ query in
      case push_at env framed (dr_c d) w of (pushed, c1, w1) \<Rightarrow>
        (case pushed of
           Inl e \<Rightarrow>
             (case reopen env (d\<lparr>dr_c := c1\<rparr>) w1 of (d2, w2) \<Rightarrow> Some (Inl (PushQuery e), d2, w2))
         | Inr _ \<Rightarrow>
             (case resolve_loop env (ce_clock env w1 + timeout) [] c1 w1 of
                None \<Rightarrow> None
              | Some (res, c2, w2) \<Rightarrow>
                  (case res of
                     Inr r \<Rightarrow> Some (Inr r, d\<lparr>dr_c := c2\<rparr>, w2)
                   | Inl e \<Rightarrow>
                       (case reopen env (d\<lparr>dr_c := c2\<rparr>) w2 of (d3, w3) \<Rightarrow>
                          Some (Inl e, d3, w3))))))"

text \<open>
  \<open>handleDNSFlow\<close>: up to ten attempts to read the datagram (\<open>rd\<close> is what each read returns, cut to
  the buffer of 4096 bytes), then the answer that is written back, if any.
\<close>

fun read_query ::
  "'w client_env \<Rightarrow> (nat \<Rightarrow> bytes option) \<Rightarrow> nat \<Rightarrow> nat \<Rightarrow> 'w \<Rightarrow> bytes option \<times> 'w" where
  "read_query env rd attempt 0 w = (None, w)"
| "read_query env rd attempt (Suc left) w =
     (case rd attempt of
        Some datagram \<Rightarrow> (Some (take 4096 datagram), w)
      | None \<Rightarrow> read_query env rd (attempt + 1) left (ce_sleep env (30 * millisecond) w))"

definition handleDNSFlow ::
  "'w client_env \<Rightarrow> (nat \<Rightarrow> bytes option) \<Rightarrow> dnsRelay \<Rightarrow> 'w \<Rightarrow>
   (bytes option \<times> dnsRelay \<times> 'w) option" where
  "handleDNSFlow env rd relay w =
     (case read_query env rd 0 10 w of
        (None, w1) \<Rightarrow> Some (None, relay, w1)
      | (Some query, w1) \<Rightarrow>
          (case resolve env query (5 * second) relay w1 of
             None \<Rightarrow> None
           | Some (Inl e, d, w2) \<Rightarrow> Some (None, d, w2)
           | Some (Inr resp, d, w2) \<Rightarrow> Some (Some resp, d, w2)))"

section \<open>The loop returns\<close>

context timed
begin

lemma loop_returns: "\<exists>r. resolve_loop env deadline buf c w = Some r"
proof (induction "nat (deadline - ce_clock env w)" arbitrary: buf c w rule: less_induct)
  case less
  obtain res c1 w1 where p: "pull_at env c w = (res, c1, w1)" by (cases "pull_at env c w")
  have "ce_clock env w + tick \<le> ce_clock env w1"
    "ce_clock env w + tick \<le> ce_clock env (ce_sleep env (50 * millisecond) w1)"
    using pull_time [of w c] pull_then_sleep [of "50 * millisecond" w c] p by simp_all
  then have "\<exists>r. resolve_loop env deadline (buf @ concat ps) c1
      (if length ps = 0 then ce_sleep env (50 * millisecond) w1 else w1) = Some r"
    if "ce_clock env w < deadline" for ps
    using tick_pos that by (intro less.hyps) auto
  then show ?case
    by (subst resolve_loop.simps) (auto simp: p split: option.split sum.split)
qed

lemma resolve_returns: "\<exists>r. resolve env query timeout d w = Some r"
proof -
  obtain pushed c1 w1 where p:
    "push_at env (put16 (word_of_nat (length query)) @ query) (dr_c d) w = (pushed, c1, w1)"
    by (metis prod_cases3)
  obtain res c2 w2 where l:
    "resolve_loop env (ce_clock env w1 + timeout) [] c1 w1 = Some (res, c2, w2)"
    using loop_returns by (metis prod_cases3)
  show ?thesis by (simp add: resolve_def Let_def p l split: sum.split prod.split)
qed

end

section \<open>Reassembly of the answer\<close>

text \<open>Polls that succeed while there is time, with the payloads of each.\<close>

inductive dns_polls ::
  "'w client_env \<Rightarrow> nanos \<Rightarrow> Client \<Rightarrow> 'w \<Rightarrow> bytes list list \<Rightarrow> Client \<Rightarrow> 'w \<Rightarrow> bool" where
  polls_none: "dns_polls env deadline c w [] c w"
| polls_more: "ce_clock env w < deadline \<Longrightarrow> pull_at env c w = (Inr ps, c1, w1) \<Longrightarrow>
    dns_polls env deadline c1 (if length ps = 0 then ce_sleep env (50 * millisecond) w1 else w1)
      pss c2 w2 \<Longrightarrow>
    dns_polls env deadline c w (ps # pss) c2 w2"

inductive_simps polls_Nil [simp]: "dns_polls env deadline c w [] c2 w2"
inductive_simps polls_Cons: "dns_polls env deadline c w (ps # pss) c2 w2"

lemma complete_message_frame:
  "length r < 65536 \<Longrightarrow> complete_message (put_frame r @ extra) = Some r"
  by (simp add: complete_message_def put_frame_def slice_def Let_def unat_of_nat16)

lemma complete_message_partial:
  assumes "length r < 65536" "buf @ rest = put_frame r @ extra" "length buf < length (put_frame r)"
  shows "complete_message buf = None"
proof (cases "2 \<le> length buf")
  case True
  have "buf = take (length buf) (put_frame r)"
    using assms(2,3) by (metis append_eq_conv_conj less_imp_le take_append take_all_iff
        append_Nil2 diff_is_0_eq take_0)
  then have "take 2 buf = put16 (word_of_nat (length r))"
    using True by (metis length_put(1) min.absorb1 order_refl put_frame_def take_append_exact take_take)
  then show ?thesis
    using assms(1,3) True
    by (simp add: complete_message_def slice_def Let_def unat_of_nat16 put_frame_def)
qed (simp add: complete_message_def)

lemma loop_reassembles:
  assumes "dns_polls env deadline c w pss c2 w2" "length r < 65536"
    "buf @ concat (concat pss) = put_frame r @ extra"
    "\<And>k. k < length pss \<Longrightarrow> length (buf @ concat (concat (take k pss))) < length (put_frame r)"
    "ce_clock env w2 < deadline" "pss = [] \<longrightarrow> complete_message buf = Some r"
  shows "resolve_loop env deadline buf c w = Some (Inr r, c2, w2)"
  using assms
proof (induction arbitrary: buf rule: dns_polls.induct)
  case (polls_none env deadline c w)
  then show ?case by (subst resolve_loop.simps) simp
next
  case (polls_more env w deadline c ps c1 w1 pss c2 w2)
  have part: "complete_message buf = None"
    using complete_message_partial [OF polls_more.prems(1,2)] polls_more.prems(3) [of 0] by simp
  have short: "length ((buf @ concat ps) @ concat (concat (take k pss))) < length (put_frame r)"
    if "k < length pss" for k
    using polls_more.prems(3) [of "Suc k"] that by simp
  have last: "pss = [] \<longrightarrow> complete_message (buf @ concat ps) = Some r"
    using polls_more.prems(2) complete_message_frame [OF polls_more.prems(1), of extra] by auto
  have "resolve_loop env deadline (buf @ concat ps) c1
      (if length ps = 0 then ce_sleep env (50 * millisecond) w1 else w1) = Some (Inr r, c2, w2)"
    by (rule polls_more.IH) (use polls_more.prems short last in simp_all)
  then show ?case
    using polls_more.hyps(1,2) part by (subst resolve_loop.simps) simp
qed

text \<open>
  The answer does not depend on how the stream of the resolver is cut into payloads and polls: once
  the framed answer is complete, \<open>resolve\<close> returns exactly it, and what came behind it in the same
  poll is dropped.
\<close>

lemma resolve_reassembles:
  assumes "push_at env (put_frame query) (dr_c d) w = (Inr (), c1, w1)"
    "dns_polls env (ce_clock env w1 + timeout) c1 w1 pss c2 w2"
    "concat (concat pss) = put_frame r @ extra" "length r < 65536"
    "length (concat (concat (butlast pss))) < length (put_frame r)"
    "ce_clock env w2 < ce_clock env w1 + timeout"
  shows "resolve env query timeout d w = Some (Inr r, d\<lparr>dr_c := c2\<rparr>, w2)"
proof -
  have pre: "length (concat (concat (take k pss))) \<le> length (concat (concat (butlast pss)))"
    if "k < length pss" for k
  proof -
    have "take k pss = take k (butlast pss)" using that by (simp add: take_butlast)
    then obtain zs where "butlast pss = take k pss @ zs" by (metis append_take_drop_id)
    then show ?thesis by simp
  qed
  have "resolve_loop env (ce_clock env w1 + timeout) [] c1 w1 = Some (Inr r, c2, w2)"
  proof (rule loop_reassembles [OF assms(2,4)])
    show "length ([] @ concat (concat (take k pss))) < length (put_frame r)" if "k < length pss" for k
      using pre [OF that] assms(5) by simp
    show "pss = [] \<longrightarrow> complete_message [] = Some r"
      using assms(3) by (auto simp: put_frame_def put16_def)
  qed (use assms(3,6) in simp_all)
  then show ?thesis using assms(1) by (simp add: resolve_def Let_def put_frame_def)
qed

section \<open>Properties\<close>

text \<open>C26: In a world in which a round trip takes at least a tick of the clock and a sleep at least its
  duration, \<open>handleDNSFlow\<close> returns for every query, whatever the server answers and however long it
  keeps sending.\<close>

theorem dns_flow_returns:
  assumes "0 < tick" "\<And>rq w. ce_clock env w + tick \<le> ce_clock env (snd (ce_rt env rq w))"
    "\<And>d w. 0 \<le> d \<Longrightarrow> ce_clock env w + d \<le> ce_clock env (ce_sleep env d w)"
  shows "\<exists>r. handleDNSFlow env rd relay w = Some r"
proof -
  have "timed env tick" using assms by unfold_locales
  then have "\<exists>r. resolve env q t d w' = Some r" for q t d w' by (rule timed.resolve_returns)
  then show ?thesis
    by (auto simp: handleDNSFlow_def split: prod.split option.split sum.split)
      (metis option.distinct(1))
qed

theorem dns_flow_returns_witness:
  "\<exists>r. handleDNSFlow \<lparr>ce_dh = map2 (+), ce_rt = (\<lambda>rq w. (Inr (http_reply [] 200 []), w + 1)),
      ce_rand = \<lambda>w. (None, w), ce_clock = \<lambda>w. w, ce_sleep = \<lambda>d w. w + d\<rparr> (\<lambda>i. Some [1, 2])
      \<lparr>dr_c = client_New 0 [] [] 1 [], dr_cfg = \<lparr>cfg_BaseURL = [], cfg_ServerPubHex = [],
        cfg_DeviceIDHex = [], cfg_Token = []\<rparr>\<rparr> 0 = Some r"
  by (rule dns_flow_returns [where tick = 1]) simp_all

end
