(* ===== verification/Binding.thy ===== *)
theory Binding
  imports Prelude
begin

text \<open>
  \<open>server/binding.go\<close>: the store that binds a provisioning token to one device. A token maps
  to \<open>None\<close> once it is registered and free, and to its binding while a device owns it. Each
  method holds the store's mutex, so it is one step; the clock is the argument \<open>now\<close>.
\<close>

section \<open>Model\<close>

record Binding =
  b_DeviceID :: u64
  b_BoundAt :: nanos
  b_LastSeen :: nanos

record TokenStore =
  bindings :: "string \<rightharpoonup> Binding option"
  InactivityTTL :: nanos

definition DefaultInactivityTTL :: nanos where
  "DefaultInactivityTTL = 30 * 24 * hour"

definition NewTokenStore :: TokenStore where
  "NewTokenStore = \<lparr>bindings = Map.empty, InactivityTTL = DefaultInactivityTTL\<rparr>"

datatype BindResult = BindAccepted | BindRejected | BindUnknownToken

definition RegisterToken :: "string \<Rightarrow> TokenStore \<Rightarrow> TokenStore" where
  "RegisterToken token s =
     (case bindings s token of
        Some _ \<Rightarrow> s
      | None \<Rightarrow> s\<lparr>bindings := (bindings s)(token \<mapsto> None)\<rparr>)"

definition TryBind :: "nanos \<Rightarrow> string \<Rightarrow> u64 \<Rightarrow> TokenStore \<Rightarrow> BindResult \<times> TokenStore" where
  "TryBind now token deviceID s =
     (let fresh = \<lparr>b_DeviceID = deviceID, b_BoundAt = now, b_LastSeen = now\<rparr>
      in case bindings s token of
           None \<Rightarrow> (BindUnknownToken, s)
         | Some None \<Rightarrow>
             (BindAccepted, s\<lparr>bindings := (bindings s)(token \<mapsto> Some fresh)\<rparr>)
         | Some (Some existing) \<Rightarrow>
             if b_DeviceID existing = deviceID then
               (BindAccepted,
                s\<lparr>bindings := (bindings s)(token \<mapsto> Some (existing\<lparr>b_LastSeen := now\<rparr>))\<rparr>)
             else if now - b_LastSeen existing > InactivityTTL s then
               (BindAccepted, s\<lparr>bindings := (bindings s)(token \<mapsto> Some fresh)\<rparr>)
             else (BindRejected, s))"

definition Touch :: "nanos \<Rightarrow> string \<Rightarrow> TokenStore \<Rightarrow> TokenStore" where
  "Touch now token s =
     (case bindings s token of
        Some (Some b) \<Rightarrow> s\<lparr>bindings := (bindings s)(token \<mapsto> Some (b\<lparr>b_LastSeen := now\<rparr>))\<rparr>
      | _ \<Rightarrow> s)"

definition Revoke :: "string \<Rightarrow> TokenStore \<Rightarrow> TokenStore" where
  "Revoke token s =
     (case bindings s token of
        Some _ \<Rightarrow> s\<lparr>bindings := (bindings s)(token \<mapsto> None)\<rparr>
      | None \<Rightarrow> s)"

section \<open>Ownership\<close>

text \<open>The device that owns a token, and the last time it was seen.\<close>

definition owner :: "TokenStore \<Rightarrow> string \<Rightarrow> (u64 \<times> nanos) option" where
  "owner s token =
     (case bindings s token of
        Some (Some b) \<Rightarrow> Some (b_DeviceID b, b_LastSeen b)
      | _ \<Rightarrow> None)"

definition issued :: "TokenStore \<Rightarrow> string \<Rightarrow> bool" where
  "issued s token \<longleftrightarrow> bindings s token \<noteq> None"

text \<open>The rule of the documentation: one active device per token.\<close>

definition may_bind :: "nanos \<Rightarrow> TokenStore \<Rightarrow> string \<Rightarrow> u64 \<Rightarrow> bool" where
  "may_bind now s token d \<longleftrightarrow> issued s token \<and>
     (case owner s token of
        None \<Rightarrow> True
      | Some (d', seen) \<Rightarrow> d' = d \<or> now - seen > InactivityTTL s)"

lemmas binding_defs = RegisterToken_def TryBind_def Touch_def Revoke_def
declare binding_defs [op_defs]

lemma TryBind_cases:
  obtains "\<not> issued s token" "TryBind now token d s = (BindUnknownToken, s)"
  | "issued s token" "\<not> may_bind now s token d" "TryBind now token d s = (BindRejected, s)"
  | s' where "may_bind now s token d" "TryBind now token d s = (BindAccepted, s')"
    "owner s' = (owner s)(token \<mapsto> (d, now))" "issued s' = issued s"
    "InactivityTTL s' = InactivityTTL s"
proof (cases "bindings s token")
  case None
  then show ?thesis using that(1) by (simp add: issued_def TryBind_def)
next
  case (Some entry)
  show ?thesis
  proof (cases "may_bind now s token d")
    case True
    let ?s' = "snd (TryBind now token d s)"
    have "TryBind now token d s = (BindAccepted, ?s') \<and> InactivityTTL ?s' = InactivityTTL s \<and>
        owner ?s' = (owner s)(token \<mapsto> (d, now)) \<and> issued ?s' = issued s"
      using True Some
      by (cases entry)
        (auto simp: may_bind_def TryBind_def owner_def issued_def fun_eq_iff Let_def split: if_splits)
    then show ?thesis using True that(3) [of ?s'] by simp
  next
    case False
    then show ?thesis using Some that(2)
      by (cases entry) (auto simp: may_bind_def TryBind_def owner_def issued_def split: if_splits)
  qed
qed

lemma owner_RegisterToken: "owner (RegisterToken t s) = owner s"
  by (auto simp: RegisterToken_def owner_def fun_eq_iff split: option.splits)

lemma owner_Touch:
  "owner (Touch now t s) = (case owner s t of None \<Rightarrow> owner s
     | Some (d, _) \<Rightarrow> (owner s)(t \<mapsto> (d, now)))"
  by (auto simp: Touch_def owner_def fun_eq_iff split: option.splits)

lemma owner_Revoke: "owner (Revoke t s) = (owner s)(t := None)"
  by (auto simp: Revoke_def owner_def fun_eq_iff split: option.splits)

lemma issued_keeps [simp]:
  "issued (Touch now t s) = issued s" "issued (Revoke t s) = issued s"
  "InactivityTTL (Touch now t s) = InactivityTTL s" "InactivityTTL (Revoke t s) = InactivityTTL s"
  "InactivityTTL (RegisterToken t s) = InactivityTTL s"
  by (auto simp: Touch_def Revoke_def RegisterToken_def issued_def fun_eq_iff split: option.splits)

section \<open>Runs\<close>

datatype bind_event =
    EvRegister string
  | EvBind nanos string u64
  | EvTouch nanos string
  | EvRevoke string

fun bind_step :: "TokenStore \<Rightarrow> bind_event \<Rightarrow> TokenStore" where
  "bind_step s (EvRegister t) = RegisterToken t s"
| "bind_step s (EvBind now t d) = snd (TryBind now t d s)"
| "bind_step s (EvTouch now t) = Touch now t s"
| "bind_step s (EvRevoke t) = Revoke t s"

text \<open>
  \<open>holds\<close>: device \<open>d\<close> owns the token and was seen at \<open>t0\<close> or later. It can only be lost to a
  revocation or to a binding attempt after the inactivity period.
\<close>

definition holds :: "string \<Rightarrow> u64 \<Rightarrow> nanos \<Rightarrow> TokenStore \<Rightarrow> bool" where
  "holds t d t0 s \<longleftrightarrow> (\<exists>seen. owner s t = Some (d, seen) \<and> t0 \<le> seen)"

fun within :: "string \<Rightarrow> nanos \<Rightarrow> nanos \<Rightarrow> bind_event \<Rightarrow> bool" where
  "within t t0 ttl (EvRegister u) = True"
| "within t t0 ttl (EvBind now u d) = (u = t \<longrightarrow> t0 \<le> now \<and> now - t0 \<le> ttl)"
| "within t t0 ttl (EvTouch now u) = (u = t \<longrightarrow> t0 \<le> now)"
| "within t t0 ttl (EvRevoke u) = (u \<noteq> t)"

lemma holds_step:
  assumes "holds t d t0 s \<and> InactivityTTL s = ttl" "within t t0 ttl e"
  shows "holds t d t0 (bind_step s e) \<and> InactivityTTL (bind_step s e) = ttl"
proof (cases e)
  case (EvBind now u d')
  show ?thesis
  proof (cases rule: TryBind_cases [of s u now d'])
    case (3 s')
    show ?thesis
    proof (cases "u = t")
      case True
      then have "d' = d" using 3(1) assms EvBind by (auto simp: may_bind_def holds_def)
      then show ?thesis using 3 assms EvBind True by (auto simp: holds_def)
    next
      case False
      then show ?thesis using 3 assms EvBind by (auto simp: holds_def)
    qed
  qed (use assms EvBind in simp_all)
qed (use assms in \<open>auto simp: holds_def owner_RegisterToken owner_Touch owner_Revoke
       split: option.splits\<close>)

interpretation binding: invariant_machine bind_step
    "\<lambda>s. holds t d t0 s \<and> InactivityTTL s = ttl" "within t t0 ttl"
  by unfold_locales (rule holds_step)

section \<open>Properties\<close>

text \<open>\<open>TryBind\<close> on every branch: an unknown token is reported as such, a device is accepted
  exactly when the token is free, its own, or its owner has been silent for more than the TTL; only
  an accepted attempt changes the store, and then the device owns the token as of now.\<close>

theorem TryBind_outcome:
  "case TryBind now token d s of (res, s') \<Rightarrow>
     (res = BindUnknownToken \<longleftrightarrow> \<not> issued s token) \<and>
     (res = BindAccepted \<longleftrightarrow> may_bind now s token d) \<and>
     (res = BindAccepted \<or> s' = s) \<and> issued s' = issued s \<and>
     owner s' = (if may_bind now s token d then (owner s)(token \<mapsto> (d, now)) else owner s)"
  by (rule TryBind_cases [of s token now d]) (auto simp: may_bind_def)

text \<open>C32: Once a device is bound, no other device gets the token within the inactivity period, as long
  as the token is not revoked: whatever other tokens are registered, bound, touched or revoked, and
  whatever the devices try in between.\<close>

theorem binding_exclusive:
  assumes "TryBind t0 token d s = (BindAccepted, s1)"
    "list_all (within token t0 (InactivityTTL s)) es" "d' \<noteq> d" "now - t0 \<le> InactivityTTL s"
  shows "fst (TryBind now token d' (foldl bind_step s1 es)) = BindRejected"
proof -
  let ?s = "foldl bind_step s1 es"
  have "holds token d t0 s1 \<and> InactivityTTL s1 = InactivityTTL s"
    using assms(1) by (cases rule: TryBind_cases [of s token t0 d]) (auto simp: holds_def)
  then have "holds token d t0 ?s \<and> InactivityTTL ?s = InactivityTTL s"
    using assms(2) by (rule binding.inv_run)
  then have "issued ?s token" "\<not> may_bind now ?s token d'"
    using assms(3,4) by (auto simp: holds_def may_bind_def issued_def owner_def split: option.splits)
  then show ?thesis by (cases rule: TryBind_cases [of ?s token now d']) simp_all
qed

theorem binding_exclusive_witness:
  "fst (TryBind (5 * hour) ''tok'' 2 (foldl bind_step
      (snd (TryBind 0 ''tok'' 1 (RegisterToken ''tok'' NewTokenStore)))
      [EvBind hour ''tok'' 2, EvTouch (2 * hour) ''tok'', EvRevoke ''other''])) = BindRejected"
proof -
  let ?s = "RegisterToken ''tok'' NewTokenStore"
  have "TryBind 0 ''tok'' 1 ?s = (BindAccepted, snd (TryBind 0 ''tok'' 1 ?s))"
    by (simp add: TryBind_def RegisterToken_def NewTokenStore_def)
  then show ?thesis
    by (rule binding_exclusive)
      (simp_all add: RegisterToken_def NewTokenStore_def DefaultInactivityTTL_def)
qed

text \<open>A revoked token is free at once: the next device that asks gets it, and a token that was
  never issued stays unknown.\<close>

theorem revoke_frees_token:
  "fst (TryBind now token d (Revoke token s)) =
     (if issued s token then BindAccepted else BindUnknownToken)"
  by (simp add: TryBind_def Revoke_def issued_def split: option.split)

end
