(* ===== verification/Server.thy ===== *)
theory Server
  imports Session GoLib Binding
begin

text \<open>
  \<open>server/server.go\<close>: the origin's HTTP handlers, its table of connections, the outbound TCP
  sockets and the goroutines that dial and read them. This theory has the sequential model: a handler, and a
  round of a goroutine, is one step on the record \<open>Server\<close>, as when no other call runs meanwhile.
  Where a handler releases a mutex in between (\<open>handleOpen\<close> before \<open>CompleteHandshake\<close>,
  \<open>forwardPayload\<close> before the write), \<open>ServerThreads\<close> cuts it, and what holds under interleaving is
  proved there and in \<open>ServerSessions\<close>. Pointers to \<open>connState\<close> are indices of
  \<open>sv_heap\<close>, so that a goroutine keeps the connection it was started for. What the sockets do
  (a dial that fails, the bytes read, whether a write succeeds) is input; \<open>sv_io\<close> records the
  calls made on them.
\<close>

section \<open>State\<close>

record connState =
  cs_sess :: Session
  cs_outbound :: "nat option"       \<comment> \<open>\<open>net.Conn\<close>, by number of the successful dial\<close>
  cs_connecting :: bool
  cs_targetAddr :: string

datatype net_event =
    NetWrite nat bytes bool         \<comment> \<open>socket, data, whether the write succeeded\<close>
  | NetClose nat

text \<open>
  The control points of the goroutine of \<open>dialAndPumpAsync\<close>: before the dial, after the error
  was queued, after the socket was stored, in the read loop.
\<close>

datatype goroutine =
    GDial u32 nat string
  | GFailed u32 nat
  | GConnected u32 nat nat
  | GPump u32 nat nat

datatype go_input =
    DialOk
  | DialError string
  | ReadResult bytes bool           \<comment> \<open>the bytes read, whether \<open>err\<close> is set\<close>

record Server =
  sv_StaticPriv :: bytes
  sv_Tokens :: TokenStore
  sv_conns :: "u32 \<rightharpoonup> nat"
  sv_heap :: "connState list"
  sv_outbox :: "u32 \<Rightarrow> bytes list"
  sv_nextConnID :: u32
  sv_AllowedTargets :: "(string \<times> bool) list"
  sv_gos :: "goroutine list"
  sv_dialled :: nat
  sv_io :: "net_event list"

text \<open>The parameters: the X25519 function, \<open>strconv.Quote\<close>, and the outcome of socket writes.\<close>

record server_env =
  env_dh :: x25519
  env_quote :: "string \<Rightarrow> string"
  env_write_ok :: "net_event list \<Rightarrow> nat \<Rightarrow> bytes \<Rightarrow> bool"

definition HKDFInfo :: string where "HKDFInfo = ''turboflare-transport-v1''"
definition HeaderProvisionToken :: string where "HeaderProvisionToken = ''X-Provision-Token''"
definition HeaderConnectionID :: string where "HeaderConnectionID = ''X-Connection-Id''"

definition server_New :: "bytes \<Rightarrow> TokenStore \<Rightarrow> Server" where
  "server_New staticPriv tokens =
     \<lparr>sv_StaticPriv = staticPriv, sv_Tokens = tokens, sv_conns = Map.empty, sv_heap = [],
      sv_outbox = (\<lambda>_. []), sv_nextConnID = 1, sv_AllowedTargets = [], sv_gos = [],
      sv_dialled = 0, sv_io = []\<rparr>"

definition upd_cs :: "nat \<Rightarrow> (connState \<Rightarrow> connState) \<Rightarrow> Server \<Rightarrow> Server" where
  "upd_cs r f s = s\<lparr>sv_heap := (sv_heap s)[r := f (sv_heap s ! r)]\<rparr>"

section \<open>Outgoing data and the outbound socket\<close>

definition queueOutgoing :: "u32 \<Rightarrow> nat \<Rightarrow> bytes \<Rightarrow> Server \<Rightarrow> Server" where
  "queueOutgoing connID r payload s =
     (case EncodeOutgoing payload 0 (cs_sess (sv_heap s ! r)) of (res, sess) \<Rightarrow>
        let s1 = upd_cs r (\<lambda>cs. cs\<lparr>cs_sess := sess\<rparr>) s
        in case res of
             Inl e \<Rightarrow> s1
           | Inr wire \<Rightarrow> s1\<lparr>sv_outbox := (sv_outbox s1)(connID := sv_outbox s1 connID @ [wire])\<rparr>)"

definition closeOutbound :: "u32 \<Rightarrow> nat \<Rightarrow> Server \<Rightarrow> Server" where
  "closeOutbound connID r s =
     (let conn = cs_outbound (sv_heap s ! r);
          s1 = upd_cs r (\<lambda>cs. cs\<lparr>cs_outbound := None\<rparr>) s
      in case conn of None \<Rightarrow> s1 | Some h \<Rightarrow> s1\<lparr>sv_io := sv_io s1 @ [NetClose h]\<rparr>)"

datatype target_error = InvalidTarget string addr_reason | NotInAllowlist string

fun target_error_text :: "(string \<Rightarrow> string) \<Rightarrow> target_error \<Rightarrow> string" where
  "target_error_text quote (InvalidTarget t why) =
     ''invalid target '' @ quote t @ '': '' @ AddrError_Error t why"
| "target_error_text quote (NotInAllowlist t) = ''target '' @ quote t @ '' not in allowlist''"

definition validateTarget :: "string \<Rightarrow> Server \<Rightarrow> target_error + unit" where
  "validateTarget target s =
     (if length (sv_AllowedTargets s) = 0 then Inr ()
      else case SplitHostPort target of
             Inl why \<Rightarrow> Inl (InvalidTarget target why)
           | Inr (host, port) \<Rightarrow>
               if map_of (sv_AllowedTargets s) host \<noteq> Some True \<and>
                  map_of (sv_AllowedTargets s) target \<noteq> Some True
               then Inl (NotInAllowlist target) else Inr ())"

definition dialAndPumpAsync :: "u32 \<Rightarrow> nat \<Rightarrow> string \<Rightarrow> Server \<Rightarrow> Server" where
  "dialAndPumpAsync connID r target s = s\<lparr>sv_gos := sv_gos s @ [GDial connID r target]\<rparr>"

definition forwardPayload :: "server_env \<Rightarrow> u32 \<Rightarrow> nat \<Rightarrow> bytes \<Rightarrow> Server \<Rightarrow> Server" where
  "forwardPayload env connID r payload s =
     (case cs_outbound (sv_heap s ! r) of
        None \<Rightarrow>
          if cs_connecting (sv_heap s ! r) then s
          else
            let target = string_of (TrimSpace payload);
                s1 = upd_cs r (\<lambda>cs. cs\<lparr>cs_connecting := True, cs_targetAddr := target\<rparr>) s
            in dialAndPumpAsync connID r target s1
      | Some h \<Rightarrow>
          let ok = env_write_ok env (sv_io s) h payload;
              s1 = s\<lparr>sv_io := sv_io s @ [NetWrite h payload ok]\<rparr>
          in if ok then s1 else closeOutbound connID r s1)"

definition forward_all :: "server_env \<Rightarrow> u32 \<Rightarrow> nat \<Rightarrow> bytes list \<Rightarrow> Server \<Rightarrow> Server" where
  "forward_all env connID r ps s = fold (forwardPayload env connID r) ps s"

text \<open>
  One step of a goroutine: the state after it, and what is left of the goroutine. The read
  loop of \<open>pumpOutboundToSession\<close> is the case \<open>GPump\<close>, one step a round.
\<close>

fun go_step :: "server_env \<Rightarrow> goroutine \<Rightarrow> go_input \<Rightarrow> Server \<Rightarrow> Server \<times> goroutine option" where
  "go_step env (GDial c r target) inp s =
     (case validateTarget target s of
        Inl e \<Rightarrow>
          (queueOutgoing c r (bytes_of (''ERROR: '' @ target_error_text (env_quote env) e)) s,
           Some (GFailed c r))
      | Inr _ \<Rightarrow>
          (case inp of
             DialError text \<Rightarrow>
               (queueOutgoing c r (bytes_of (''ERROR: dial failed: '' @ text)) s,
                Some (GFailed c r))
           | DialOk \<Rightarrow>
               (let h = sv_dialled s
                in ((upd_cs r (\<lambda>cs. cs\<lparr>cs_outbound := Some h, cs_connecting := False\<rparr>) s)
                      \<lparr>sv_dialled := h + 1\<rparr>,
                    Some (GConnected c r h)))
           | ReadResult _ _ \<Rightarrow> (s, Some (GDial c r target))))"
| "go_step env (GFailed c r) inp s = (upd_cs r (\<lambda>cs. cs\<lparr>cs_connecting := False\<rparr>) s, None)"
| "go_step env (GConnected c r h) inp s =
     (queueOutgoing c r (bytes_of ''OK CONNECTED'') s, Some (GPump c r h))"
| "go_step env (GPump c r h) inp s =
     (case inp of
        ReadResult chunk err \<Rightarrow>
          (let s1 = (if length chunk > 0 then queueOutgoing c r chunk s else s)
           in if err then (closeOutbound c r s1, None) else (s1, Some (GPump c r h)))
      | _ \<Rightarrow> (s, Some (GPump c r h)))"

section \<open>Handlers\<close>

definition no_store :: "(string \<times> string) list" where
  "no_store = [(''Cache-Control'', ''no-store'')]"

definition handleHealth :: "request \<Rightarrow> response" where
  "handleHealth rq =
     (if rq_path rq = ''/'' \<or> rq_path rq = ''/health''
      then http_reply no_store 200 (bytes_of ''OK'')
      else http_NotFound [])"

definition connStateFromRequest :: "request \<Rightarrow> Server \<Rightarrow> (u32 \<times> nat) option" where
  "connStateFromRequest rq s =
     (let raw = rq_header rq HeaderConnectionID
      in if length raw \<noteq> 8 then None
         else case hex_DecodeString raw of
                None \<Rightarrow> None
              | Some idBytes \<Rightarrow>
                  let connID = get32 idBytes
                  in case sv_conns s connID of None \<Rightarrow> None | Some r \<Rightarrow> Some (connID, r))"

text \<open>
  The part of \<open>handleOpen\<close> under the server's mutex: the live connection the handshake names,
  if it belongs to the device, or a new entry under the next id.
\<close>

definition find_conn :: "HandshakePlaintext \<Rightarrow> Server \<Rightarrow> nat option" where
  "find_conn pt s =
     (if hp_ConnectionID pt \<noteq> 0 then
        (case sv_conns s (hp_ConnectionID pt) of
           Some r \<Rightarrow>
             if s_DeviceID (cs_sess (sv_heap s ! r)) = hp_DeviceID pt then Some r else None
         | None \<Rightarrow> None)
      else None)"

definition open_conn :: "nanos \<Rightarrow> HandshakePlaintext \<Rightarrow> Server \<Rightarrow> (u32 \<times> nat \<times> bool) \<times> Server" where
  "open_conn now pt s =
     (case find_conn pt s of
        Some r \<Rightarrow> ((hp_ConnectionID pt, r, True), s)
      | None \<Rightarrow>
          let connID = sv_nextConnID s;
              r = length (sv_heap s);
              cs = \<lparr>cs_sess = NewSession now (hp_DeviceID pt), cs_outbound = None,
                    cs_connecting = False, cs_targetAddr = []\<rparr>
          in ((connID, r, False),
              s\<lparr>sv_nextConnID := connID + 1, sv_heap := sv_heap s @ [cs],
                sv_conns := (sv_conns s)(connID \<mapsto> r)\<rparr>))"

definition handleOpen :: "server_env \<Rightarrow> nanos \<Rightarrow> request \<Rightarrow> Server \<Rightarrow> response \<times> Server" where
  "handleOpen env now rq s =
     (if rq_method rq \<noteq> ''POST'' then (http_Error [] ''method not allowed'' 405, s)
      else
        let notFound = (http_NotFound no_store, s);
            token = rq_header rq HeaderProvisionToken
        in if token = [] then notFound
           else case ReadAll_limited HandshakeWireSize (rq_body rq) (rq_broken rq) of
                  None \<Rightarrow> notFound
                | Some body \<Rightarrow>
                    if length body \<noteq> HandshakeWireSize then notFound
                    else case DecodeHandshake (env_dh env) body (sv_StaticPriv s) HKDFInfo of
                           Inl e \<Rightarrow> notFound
                         | Inr (plaintext, sessionKey, _) \<Rightarrow>
                             (case TryBind now token (hp_DeviceID plaintext) (sv_Tokens s) of
                                (BindAccepted, tokens) \<Rightarrow>
                                  let s1 = s\<lparr>sv_Tokens := Touch now token tokens\<rparr>
                                  in (case open_conn now plaintext s1 of
                                        ((connID, r, confirmed), s2) \<Rightarrow>
                                          let s3 = upd_cs r (\<lambda>cs. cs\<lparr>cs_sess :=
                                                CompleteHandshake now connID sessionKey (cs_sess cs)\<rparr>) s2;
                                              flag = (if confirmed then FlagKeyConfirmed else 0)
                                          in (http_reply no_store 200 (put32 connID @ [flag]), s3))
                              | (_, tokens) \<Rightarrow> (http_NotFound no_store, s\<lparr>sv_Tokens := tokens\<rparr>)))"

definition handlePush :: "server_env \<Rightarrow> nanos \<Rightarrow> request \<Rightarrow> Server \<Rightarrow> response \<times> Server" where
  "handlePush env now rq s =
     (if rq_method rq \<noteq> ''POST'' then (http_Error [] ''method not allowed'' 405, s)
      else case connStateFromRequest rq s of
             None \<Rightarrow> (http_NotFound no_store, s)
           | Some (connID, r) \<Rightarrow>
               (case ReadAll_limited (8 * 2 ^ 20) (rq_body rq) (rq_broken rq) of
                  None \<Rightarrow> (http_Error no_store ''read error'' 502, s)
                | Some body \<Rightarrow>
                    (case decode_batch now (split_frames body) (cs_sess (sv_heap s ! r)) of
                       (delivered, sess) \<Rightarrow>
                         let s1 = upd_cs r (\<lambda>cs. cs\<lparr>cs_sess := sess\<rparr>) s
                         in (http_reply no_store 200 [], forward_all env connID r delivered s1))))"

definition handlePull :: "request \<Rightarrow> Server \<Rightarrow> response \<times> Server" where
  "handlePull rq s =
     (if rq_method rq \<noteq> ''GET'' then (http_Error [] ''method not allowed'' 405, s)
      else case connStateFromRequest rq s of
             None \<Rightarrow> (http_NotFound no_store, s)
           | Some (connID, r) \<Rightarrow>
               let frames = sv_outbox s connID;
                   s1 = s\<lparr>sv_outbox := (sv_outbox s)(connID := [])\<rparr>
               in (http_reply no_store 200 (join_frames frames), s1))"

text \<open>The routes of the mux; paths it would redirect to their canonical form are not modelled.\<close>

definition Handler :: "server_env \<Rightarrow> nanos \<Rightarrow> request \<Rightarrow> Server \<Rightarrow> response \<times> Server" where
  "Handler env now rq s =
     (if rq_path rq = ''/api/v1/open'' then handleOpen env now rq s
      else if rq_path rq = ''/api/v1/push'' then handlePush env now rq s
      else if rq_path rq = ''/api/v1/pull'' then handlePull rq s
      else (handleHealth rq, s))"

section \<open>Runs\<close>

datatype server_event = EvRequest nanos request | EvGo nat go_input

definition run_go :: "server_env \<Rightarrow> nat \<Rightarrow> go_input \<Rightarrow> Server \<Rightarrow> Server" where
  "run_go env i inp s =
     (if i < length (sv_gos s)
      then (case go_step env (sv_gos s ! i) inp s of
              (s1, g) \<Rightarrow> s1\<lparr>sv_gos := take i (sv_gos s1) @
                 (case g of None \<Rightarrow> [] | Some g' \<Rightarrow> [g']) @ drop (i + 1) (sv_gos s1)\<rparr>)
      else s)"

fun server_step :: "server_env \<Rightarrow> Server \<Rightarrow> server_event \<Rightarrow> Server" where
  "server_step env s (EvRequest now rq) = snd (Handler env now rq s)"
| "server_step env s (EvGo i inp) = run_go env i inp s"

definition server_run :: "server_env \<Rightarrow> Server \<Rightarrow> server_event list \<Rightarrow> Server" where
  "server_run env = foldl (server_step env)"

section \<open>Updates of one connection\<close>

lemma upd_cs_sel [simp]:
  "sv_StaticPriv (upd_cs r f s) = sv_StaticPriv s" "sv_Tokens (upd_cs r f s) = sv_Tokens s"
  "sv_conns (upd_cs r f s) = sv_conns s" "sv_outbox (upd_cs r f s) = sv_outbox s"
  "sv_nextConnID (upd_cs r f s) = sv_nextConnID s" "sv_gos (upd_cs r f s) = sv_gos s"
  "sv_AllowedTargets (upd_cs r f s) = sv_AllowedTargets s"
  "sv_dialled (upd_cs r f s) = sv_dialled s" "sv_io (upd_cs r f s) = sv_io s"
  "length (sv_heap (upd_cs r f s)) = length (sv_heap s)"
  by (simp_all add: upd_cs_def)

lemma upd_cs_heap [simp]:
  "r < length (sv_heap s) \<Longrightarrow> sv_heap (upd_cs r f s) ! r = f (sv_heap s ! r)"
  "q \<noteq> r \<Longrightarrow> sv_heap (upd_cs r f s) ! q = sv_heap s ! q"
  by (simp_all add: upd_cs_def)

lemma map_update_same:
  "g y = g (xs ! r) \<Longrightarrow> map g (xs[r := y]) = map g xs"
  by (cases "r < length xs") (auto simp: map_update list_update_same_conv list_update_beyond)

text \<open>The sockets that were closed, and the bytes written to a socket.\<close>

fun closed_of :: "net_event list \<Rightarrow> nat list" where
  "closed_of [] = []"
| "closed_of (NetClose h # es) = h # closed_of es"
| "closed_of (NetWrite h p ok # es) = closed_of es"

fun written_to :: "nat \<Rightarrow> net_event list \<Rightarrow> bytes" where
  "written_to h [] = []"
| "written_to h (NetClose k # es) = written_to h es"
| "written_to h (NetWrite k p ok # es) = (if k = h \<and> ok then p else []) @ written_to h es"

lemma closed_of_append [simp]: "closed_of (es @ fs) = closed_of es @ closed_of fs"
  by (induction es rule: closed_of.induct) simp_all

lemma written_to_append [simp]: "written_to h (es @ fs) = written_to h es @ written_to h fs"
  by (induction es rule: closed_of.induct) simp_all

lemma closed_of_writes [simp]: "closed_of (map (\<lambda>p. NetWrite h p (ok p)) ps) = []"
  by (induction ps) simp_all

lemma written_to_writes [simp]: "written_to h (map (\<lambda>p. NetWrite h p True) ps) = concat ps"
  by (induction ps) simp_all

section \<open>What the operations leave alone\<close>

lemma EncodeOutgoing_keeps:
  "s_ConnectionID (snd (EncodeOutgoing p fl s)) = s_ConnectionID s"
  "s_SessionKey (snd (EncodeOutgoing p fl s)) = s_SessionKey s"
  by (simp_all add: EncodeOutgoing_eq)

lemma DecodeIncoming_keeps:
  "s_ConnectionID (snd (DecodeIncoming now w s)) = s_ConnectionID s"
  "s_SessionKey (snd (DecodeIncoming now w s)) = s_SessionKey s"
  by (auto simp: DecodeIncoming_def Let_def split: sum.splits prod.splits bool.splits)

lemma queueOutgoing_shape:
  "\<exists>x ob. queueOutgoing c r p s = (upd_cs r (\<lambda>cs. cs\<lparr>cs_sess := x\<rparr>) s)\<lparr>sv_outbox := ob\<rparr> \<and>
     s_ConnectionID x = s_ConnectionID (cs_sess (sv_heap s ! r)) \<and>
     s_SessionKey x = s_SessionKey (cs_sess (sv_heap s ! r))"
proof -
  obtain res x where e: "EncodeOutgoing p 0 (cs_sess (sv_heap s ! r)) = (res, x)"
    by (cases "EncodeOutgoing p 0 (cs_sess (sv_heap s ! r))")
  have "s_ConnectionID x = s_ConnectionID (cs_sess (sv_heap s ! r)) \<and>
      s_SessionKey x = s_SessionKey (cs_sess (sv_heap s ! r))"
    using EncodeOutgoing_keeps [of p 0 "cs_sess (sv_heap s ! r)"] e by simp
  moreover have "queueOutgoing c r p s =
      (upd_cs r (\<lambda>cs. cs\<lparr>cs_sess := x\<rparr>) s)\<lparr>sv_outbox := sv_outbox (queueOutgoing c r p s)\<rparr>"
    by (cases res) (simp_all add: queueOutgoing_def e Let_def)
  ultimately show ?thesis by blast
qed

lemma queueOutgoing_sel [simp]:
  "sv_gos (queueOutgoing c r p s) = sv_gos s" "sv_io (queueOutgoing c r p s) = sv_io s"
  "sv_conns (queueOutgoing c r p s) = sv_conns s" "sv_dialled (queueOutgoing c r p s) = sv_dialled s"
  "sv_AllowedTargets (queueOutgoing c r p s) = sv_AllowedTargets s"
  "length (sv_heap (queueOutgoing c r p s)) = length (sv_heap s)"
  "sv_nextConnID (queueOutgoing c r p s) = sv_nextConnID s"
  "sv_Tokens (queueOutgoing c r p s) = sv_Tokens s"
  "sv_StaticPriv (queueOutgoing c r p s) = sv_StaticPriv s"
  using queueOutgoing_shape [of c r p s] by (auto simp: upd_cs_def)

lemma closeOutbound_sel [simp]:
  "sv_gos (closeOutbound c r s) = sv_gos s" "sv_conns (closeOutbound c r s) = sv_conns s"
  "length (sv_heap (closeOutbound c r s)) = length (sv_heap s)"
  "sv_outbox (closeOutbound c r s) = sv_outbox s"
  by (simp_all add: closeOutbound_def Let_def split: option.split)

lemma forwardPayload_sel [simp]:
  "sv_conns (forwardPayload env c r p s) = sv_conns s"
  "length (sv_heap (forwardPayload env c r p s)) = length (sv_heap s)"
  "sv_outbox (forwardPayload env c r p s) = sv_outbox s"
  by (simp_all add: forwardPayload_def dialAndPumpAsync_def Let_def split: option.split)

section \<open>Requests\<close>

lemma connStateFromRequest_Some:
  assumes "connStateFromRequest rq s = Some (c, r)"
  shows "sv_conns s c = Some r"
  using assms by (auto simp: connStateFromRequest_def Let_def split: if_splits option.splits)

lemma connStateFromRequest_hex:
  assumes "rq_header rq HeaderConnectionID = hex_EncodeToString (put32 c)"
  shows "connStateFromRequest rq s = map_option (Pair c) (sv_conns s c)"
  using assms by (simp add: connStateFromRequest_def Let_def split: option.split)

text \<open>What an open request can lead to: a refusal that changes nothing, or a session.\<close>

definition install :: "nanos \<Rightarrow> bytes \<Rightarrow> (u32 \<times> nat \<times> bool) \<times> Server \<Rightarrow> Server" where
  "install now key opened = (case opened of ((c, r, known), s) \<Rightarrow>
     upd_cs r (\<lambda>cs. cs\<lparr>cs_sess := CompleteHandshake now c key (cs_sess cs)\<rparr>) s)"

definition open_reply :: "(u32 \<times> nat \<times> bool) \<times> Server \<Rightarrow> response" where
  "open_reply opened = (case opened of ((c, r, known), s) \<Rightarrow>
     http_reply no_store 200 (put32 c @ [if known then FlagKeyConfirmed else 0]))"

lemma handleOpen_cases:
  obtains "rq_method rq = ''POST''"
      "handleOpen env now rq s = (http_NotFound no_store, s)"
  | "rq_method rq \<noteq> ''POST''"
      "handleOpen env now rq s = (http_Error [] ''method not allowed'' 405, s)"
  | body pt key eph tokens where "rq_method rq = ''POST''" "rq_header rq HeaderProvisionToken \<noteq> []"
      "ReadAll_limited 69 (rq_body rq) (rq_broken rq) = Some body"
      "DecodeHandshake (env_dh env) body (sv_StaticPriv s) HKDFInfo = Inr (pt, key, eph)"
      "TryBind now (rq_header rq HeaderProvisionToken) (hp_DeviceID pt) (sv_Tokens s) =
         (BindAccepted, tokens)"
      "handleOpen env now rq s =
         (let opened = open_conn now pt
            (s\<lparr>sv_Tokens := Touch now (rq_header rq HeaderProvisionToken) tokens\<rparr>)
          in (open_reply opened, install now key opened))"
proof -
  note defs = handleOpen_def Let_def HandshakeWireSize_69
  show thesis
  proof (cases "rq_method rq = ''POST'' \<and> rq_header rq HeaderProvisionToken \<noteq> []")
    case False
    then show thesis using that(1,2) by (cases "rq_method rq = ''POST''") (auto simp: defs)
  next
    case True
    show thesis
    proof (cases "ReadAll_limited 69 (rq_body rq) (rq_broken rq)")
      case None
      then show thesis using that(1) True by (simp add: defs)
    next
      case (Some body)
      show thesis
      proof (cases "DecodeHandshake (env_dh env) body (sv_StaticPriv s) HKDFInfo")
        case (Inl e)
        then show thesis using that(1) True Some by (simp add: defs)
      next
        case (Inr res)
        obtain pt key eph where res: "res = (pt, key, eph)" by (cases res)
        have len: "length body = 69" using DecodeHandshake_key(1) Inr res by blast
        show thesis
        proof (cases rule: TryBind_cases [of "sv_Tokens s" "rq_header rq HeaderProvisionToken" now
              "hp_DeviceID pt"])
          case (3 tokens)
          then show thesis using that(3) True Some Inr res len
            by (simp add: defs open_reply_def install_def split_beta)
        qed (use that(1) True Some Inr res len in \<open>simp_all add: defs\<close>)
      qed
    qed
  qed
qed

section \<open>Goroutines\<close>

definition set_gos :: "nat \<Rightarrow> goroutine option \<Rightarrow> Server \<Rightarrow> Server" where
  "set_gos i g s = s\<lparr>sv_gos := take i (sv_gos s) @ (case g of None \<Rightarrow> [] | Some g' \<Rightarrow> [g']) @
     drop (i + 1) (sv_gos s)\<rparr>"

lemma run_go_eq:
  "run_go env i inp s =
     (if i < length (sv_gos s)
      then (case go_step env (sv_gos s ! i) inp s of (s1, g) \<Rightarrow> set_gos i g s1) else s)"
  by (simp add: run_go_def set_gos_def)

section \<open>Connection ids\<close>

text \<open>
  Ids are handed out in sequence from 1; below \<open>2 ^ 32 - 1\<close> opens none is 0 and none is given twice.
\<close>

definition ids_inv :: "Server \<Rightarrow> bool" where
  "ids_inv s \<longleftrightarrow> sv_nextConnID s = word_of_nat (Suc (length (sv_heap s))) \<and>
     (\<forall>c r. sv_conns s c = Some r \<longrightarrow> c = word_of_nat (Suc r) \<and> r < length (sv_heap s))"

lemma nextConnID_keeps [simp]:
  "sv_nextConnID (closeOutbound c r s) = sv_nextConnID s"
  "sv_nextConnID (forwardPayload env c r p s) = sv_nextConnID s"
  by (simp_all add: closeOutbound_def forwardPayload_def dialAndPumpAsync_def Let_def
      split: option.split)

lemma forward_all_sel [simp]:
  "sv_nextConnID (forward_all env c r ps s) = sv_nextConnID s"
  "sv_conns (forward_all env c r ps s) = sv_conns s"
  "sv_outbox (forward_all env c r ps s) = sv_outbox s"
  "length (sv_heap (forward_all env c r ps s)) = length (sv_heap s)"
  by (induction ps arbitrary: s) (simp_all add: forward_all_def)

lemma ids_open_conn:
  assumes "ids_inv s" "open_conn now pt s = (x, s')"
  shows "ids_inv s'"
proof (cases "find_conn pt s")
  case None
  then have s': "sv_nextConnID s' = sv_nextConnID s + 1" "length (sv_heap s') = Suc (length (sv_heap s))"
    "sv_conns s' = (sv_conns s)(sv_nextConnID s \<mapsto> length (sv_heap s))"
    using assms(2) by (auto simp: open_conn_def Let_def)
  show ?thesis using assms(1) by (auto simp: ids_inv_def s' less_SucI split: if_splits)
qed (use assms in \<open>simp add: open_conn_def\<close>)

lemma ids_handleOpen: "ids_inv s \<Longrightarrow> ids_inv (snd (handleOpen env now rq s))"
proof (cases rule: handleOpen_cases [of rq env now s])
  case (3 body pt key eph tokens)
  assume inv: "ids_inv s"
  let ?s1 = "s\<lparr>sv_Tokens := Touch now (rq_header rq HeaderProvisionToken) tokens\<rparr>"
  obtain c r known s2 where o: "open_conn now pt ?s1 = ((c, r, known), s2)"
    by (metis prod.exhaust)
  have "ids_inv ?s1" using inv by (simp add: ids_inv_def)
  then have "ids_inv s2" using o by (rule ids_open_conn)
  then show ?thesis using 3 o by (simp add: install_def Let_def ids_inv_def)
qed simp_all

lemma ids_Handler: "ids_inv s \<Longrightarrow> ids_inv (snd (Handler env now rq s))"
  using ids_handleOpen [where env = env and now = now and rq = rq and s = s]
  by (auto simp: Handler_def handlePush_def handlePull_def Let_def ids_inv_def
      split: option.split prod.split)

lemma go_step_frame:
  "case go_step env g inp s of (s', g') \<Rightarrow> sv_nextConnID s' = sv_nextConnID s \<and>
     sv_conns s' = sv_conns s \<and> length (sv_heap s') = length (sv_heap s)"
  by (cases g) (auto simp: Let_def split: sum.split go_input.split)

lemma ids_run_go: "ids_inv s \<Longrightarrow> ids_inv (run_go env i inp s)"
  using go_step_frame [where env = env and g = "sv_gos s ! i" and inp = inp and s = s]
  by (auto simp: run_go_def ids_inv_def split: prod.split)

interpretation ids: invariant_machine "server_step env" ids_inv "\<lambda>_. True"
proof unfold_locales
  show "ids_inv (server_step env s e)" if "ids_inv s" for s e
    using that by (cases e) (simp_all add: ids_Handler ids_run_go)
qed

lemma ids_inv_run: "ids_inv (server_run env (server_New priv tokens) es)"
proof -
  have "ids_inv (server_New priv tokens)" by (simp add: ids_inv_def server_New_def)
  then show ?thesis using ids.inv_run by (simp add: server_run_def list_all_iff)
qed

section \<open>One connection at a time\<close>

lemma closeOutbound_other: "q \<noteq> r \<Longrightarrow> sv_heap (closeOutbound c r s) ! q = sv_heap s ! q"
  by (simp add: closeOutbound_def Let_def split: option.split)

lemma forwardPayload_other: "q \<noteq> r \<Longrightarrow> sv_heap (forwardPayload env c r p s) ! q = sv_heap s ! q"
  by (simp add: forwardPayload_def dialAndPumpAsync_def closeOutbound_other Let_def split: option.split)

lemma forward_all_other: "q \<noteq> r \<Longrightarrow> sv_heap (forward_all env c r ps s) ! q = sv_heap s ! q"
  by (induction ps arbitrary: s) (simp_all add: forward_all_def forwardPayload_other)

lemma forward_while_connecting:
  "cs_outbound (sv_heap s ! r) = None \<Longrightarrow> cs_connecting (sv_heap s ! r) \<Longrightarrow>
   forward_all env c r ps s = s"
  by (induction ps) (simp_all add: forward_all_def forwardPayload_def)

lemma forward_all_writes:
  "cs_outbound (sv_heap s ! r) = Some h \<Longrightarrow> (\<And>io p. env_write_ok env io h p) \<Longrightarrow>
   forward_all env c r ps s = s\<lparr>sv_io := sv_io s @ map (\<lambda>p. NetWrite h p True) ps\<rparr>"
  by (induction ps arbitrary: s) (simp_all add: forward_all_def forwardPayload_def Let_def)

text \<open>A reconnect handshake, as the server sees it.\<close>

definition valid_reconnect :: "server_env \<Rightarrow> nanos \<Rightarrow> request \<Rightarrow> HandshakePlaintext \<Rightarrow> bytes \<Rightarrow> nat \<Rightarrow> Server \<Rightarrow> bool" where
  "valid_reconnect env now rq pt key r s \<longleftrightarrow> rq_method rq = ''POST'' \<and>
     rq_header rq HeaderProvisionToken \<noteq> [] \<and>
     (\<exists>body eph. ReadAll_limited 69 (rq_body rq) (rq_broken rq) = Some body \<and>
        DecodeHandshake (env_dh env) body (sv_StaticPriv s) HKDFInfo = Inr (pt, key, eph)) \<and>
     fst (TryBind now (rq_header rq HeaderProvisionToken) (hp_DeviceID pt) (sv_Tokens s)) = BindAccepted \<and>
     find_conn pt s = Some r"

lemma find_conn_Tokens: "find_conn pt (s\<lparr>sv_Tokens := t\<rparr>) = find_conn pt s"
  by (simp add: find_conn_def split: option.split)

lemma handleOpen_reconnect:
  assumes "valid_reconnect env now rq pt key r s"
  shows "handleOpen env now rq s =
    (http_reply no_store 200 (put32 (hp_ConnectionID pt) @ [FlagKeyConfirmed]),
     upd_cs r (\<lambda>cs. cs\<lparr>cs_sess := CompleteHandshake now (hp_ConnectionID pt) key (cs_sess cs)\<rparr>)
       (s\<lparr>sv_Tokens := Touch now (rq_header rq HeaderProvisionToken)
          (snd (TryBind now (rq_header rq HeaderProvisionToken) (hp_DeviceID pt) (sv_Tokens s)))\<rparr>))"
proof -
  obtain body eph where b: "ReadAll_limited 69 (rq_body rq) (rq_broken rq) = Some body"
    "DecodeHandshake (env_dh env) body (sv_StaticPriv s) HKDFInfo = Inr (pt, key, eph)"
    using assms by (auto simp: valid_reconnect_def)
  obtain tk where tk: "TryBind now (rq_header rq HeaderProvisionToken) (hp_DeviceID pt) (sv_Tokens s) =
      (BindAccepted, tk)"
    using assms by (metis prod.collapse valid_reconnect_def)
  have f: "find_conn pt (s\<lparr>sv_Tokens := Touch now (rq_header rq HeaderProvisionToken) tk\<rparr>) = Some r"
    using assms by (simp add: valid_reconnect_def find_conn_Tokens)
  have "length body = 69" using DecodeHandshake_key(1) b(2) by blast
  then show ?thesis
    using assms b tk f
    by (simp add: valid_reconnect_def handleOpen_def HandshakeWireSize_69 open_conn_def Let_def)
qed

text \<open>The device owns the token then, so that the same request is valid at any later time.\<close>

lemma TryBind_again:
  assumes "fst (TryBind t1 token d s) = BindAccepted"
  shows "fst (TryBind t2 token d (Touch t1 token (snd (TryBind t1 token d s)))) = BindAccepted"
proof (cases rule: TryBind_cases [of s token t1 d])
  case (3 s')
  let ?s = "Touch t1 token s'"
  have "issued ?s token" "owner ?s token = Some (d, t1)"
    using 3 by (simp_all add: may_bind_def owner_Touch)
  then have "may_bind t2 ?s token d" by (simp add: may_bind_def)
  then show ?thesis using 3 by (cases rule: TryBind_cases [of ?s token t2 d]) (auto simp: may_bind_def)
qed (use assms in simp_all)

lemma upd_cs_beyond: "\<not> r < length (sv_heap s) \<Longrightarrow> upd_cs r f s = s"
  by (simp add: upd_cs_def not_less list_update_beyond)

lemma queueOutgoing_DeviceID:
  "s_DeviceID (cs_sess (sv_heap (queueOutgoing c r p s) ! q)) = s_DeviceID (cs_sess (sv_heap s ! q))"
proof (cases "r < length (sv_heap s)")
  case True
  then show ?thesis
    by (cases "q = r")
      (simp_all add: queueOutgoing_def EncodeOutgoing_eq advance_def Let_def split: sum.split)
next
  case False
  then show ?thesis
    by (simp add: queueOutgoing_def upd_cs_beyond Let_def split: prod.split sum.split)
qed

lemma valid_reconnect_again:
  assumes "valid_reconnect env t1 rq pt key r s"
  shows "valid_reconnect env t2 rq pt key r
    (queueOutgoing (hp_ConnectionID pt) r p (snd (handleOpen env t1 rq s)))"
proof -
  let ?s = "queueOutgoing (hp_ConnectionID pt) r p (snd (handleOpen env t1 rq s))"
  have ho: "sv_conns ?s = sv_conns s" "sv_StaticPriv ?s = sv_StaticPriv s"
    "sv_Tokens ?s = Touch t1 (rq_header rq HeaderProvisionToken)
      (snd (TryBind t1 (rq_header rq HeaderProvisionToken) (hp_DeviceID pt) (sv_Tokens s)))"
    by (simp_all add: handleOpen_reconnect [OF assms])
  have dev: "s_DeviceID (cs_sess (sv_heap ?s ! q)) = s_DeviceID (cs_sess (sv_heap s ! q))" for q
    by (cases "r < length (sv_heap s)"; cases "q = r")
      (simp_all add: queueOutgoing_DeviceID handleOpen_reconnect [OF assms] CompleteHandshake_def
        upd_cs_beyond)
  have "find_conn pt ?s = find_conn pt s"
    unfolding find_conn_def ho(1) dev ..
  then show ?thesis
    using assms TryBind_again unfolding valid_reconnect_def ho by simp
qed

text \<open>A server with one connection, number 1, for the concrete instances below.\<close>

definition sample_server :: "nat option \<Rightarrow> goroutine list \<Rightarrow> Server" where
  "sample_server ob gs = (server_New [] NewTokenStore)
     \<lparr>sv_conns := [1 \<mapsto> 0], sv_nextConnID := 2, sv_dialled := 5, sv_gos := gs,
      sv_heap := [\<lparr>cs_sess = connected 0 7 1 (replicate 32 5), cs_outbound = ob,
        cs_connecting = False, cs_targetAddr = []\<rparr>]\<rparr>"

definition sample_env :: server_env where
  "sample_env = \<lparr>env_dh = map2 (+), env_quote = (\<lambda>t. t), env_write_ok = (\<lambda>io h p. True)\<rparr>"

section \<open>Properties\<close>

text \<open>C31: An open request either gets a session, answered with status 200 and five bytes, or leaves the
  whole server as it was; every refusal of a POST, for whatever reason, is the same response.\<close>

theorem refused_open_is_opaque:
  "case handleOpen env now rq s of (resp, s') \<Rightarrow>
     (rs_status resp = 200 \<and> length (rs_body resp) = 5) \<or>
     (s' = s \<and> resp = (if rq_method rq = ''POST'' then http_NotFound no_store
        else http_Error [] ''method not allowed'' 405))"
proof (cases rule: handleOpen_cases [of rq env now s])
  case (3 body pt key eph tokens)
  then show ?thesis by (simp add: open_reply_def Let_def split: prod.split)
qed simp_all

text \<open>The \<open>k\<close>-th session a server creates has the id \<open>k\<close> modulo \<open>2 ^ 32\<close>, and the table holds
  no other ids: below \<open>2 ^ 32 - 1\<close> sessions the reserved id 0 is not used and none is reused.\<close>

theorem connection_ids_sequential:
  "let s = server_run env (server_New priv tokens) es in
   sv_nextConnID s = word_of_nat (Suc (length (sv_heap s))) \<and>
   dom (sv_conns s) \<subseteq> (\<lambda>r. word_of_nat (Suc r)) ` {..<length (sv_heap s)}"
  using ids_inv_run [of env priv tokens es] by (fastforce simp: ids_inv_def Let_def)

text \<open>A push concerns one connection: the sessions and sockets of all others, the table and every
  outbox stay as they were.\<close>

theorem push_is_isolated:
  assumes "connStateFromRequest rq s = Some (c, r)" "q \<noteq> r"
  shows "let s' = snd (handlePush env now rq s) in
    sv_heap s' ! q = sv_heap s ! q \<and> sv_conns s' = sv_conns s \<and> sv_outbox s' = sv_outbox s"
  using assms
  by (auto simp: Let_def handlePush_def forward_all_other split: option.split prod.split)

theorem push_is_isolated_witness:
  "let s = sample_server None []; rq = \<lparr>rq_method = ''POST'', rq_path = ''/api/v1/push'',
      rq_header = (\<lambda>_. ''00000001''), rq_body = [0, 0], rq_broken = False\<rparr>;
     s' = snd (handlePush sample_env 0 rq s) in
    sv_heap s' ! 1 = sv_heap s ! 1 \<and> sv_conns s' = sv_conns s \<and> sv_outbox s' = sv_outbox s"
proof -
  have "''00000001'' = hex_EncodeToString (put32 1)" by code_simp
  then have "connStateFromRequest \<lparr>rq_method = ''POST'', rq_path = ''/api/v1/push'',
      rq_header = (\<lambda>_. ''00000001''), rq_body = [0, 0], rq_broken = False\<rparr> (sample_server None []) =
      Some (1, 0)"
    by (subst connStateFromRequest_hex [where c = 1]) (simp_all add: sample_server_def)
  from push_is_isolated [OF this, of 1 sample_env 0] show ?thesis by (simp add: Let_def)
qed

text \<open>A poll hands out the frames of the outbox, in order, and forgets them: the same poll again
  gets nothing, so that frames in a response that is lost cannot be fetched a second time.\<close>

theorem pull_hands_out_once:
  assumes "rq_method rq = ''GET''" "connStateFromRequest rq s = Some (c, r)"
    "list_all (\<lambda>w. length w < 65536) (sv_outbox s c)"
  shows "case handlePull rq s of (resp, s') \<Rightarrow>
    rs_status resp = 200 \<and> split_frames (rs_body resp) = sv_outbox s c \<and>
    handlePull rq s' = (http_reply no_store 200 [], s')"
proof -
  have "connStateFromRequest rq (s\<lparr>sv_outbox := ob\<rparr>) = Some (c, r)" for ob
    using assms(2) by (auto simp: connStateFromRequest_def Let_def split: if_splits option.splits)
  then show ?thesis
    using assms split_join_frames [of "sv_outbox s c"]
    by (simp add: handlePull_def Let_def list_all_iff join_frames_def)
qed

theorem pull_hands_out_once_witness:
  "case handlePull \<lparr>rq_method = ''GET'', rq_path = ''/api/v1/pull'', rq_header = (\<lambda>_. ''00000001''),
      rq_body = [], rq_broken = False\<rparr> ((sample_server None [])\<lparr>sv_outbox := (\<lambda>_. [[1], [2, 3]])\<rparr>)
    of (resp, s') \<Rightarrow> rs_status resp = 200 \<and> split_frames (rs_body resp) = [[1], [2, 3]] \<and>
      handlePull \<lparr>rq_method = ''GET'', rq_path = ''/api/v1/pull'', rq_header = (\<lambda>_. ''00000001''),
      rq_body = [], rq_broken = False\<rparr> s' = (http_reply no_store 200 [], s')"
proof -
  have hex: "''00000001'' = hex_EncodeToString (put32 1)" by code_simp
  have "connStateFromRequest \<lparr>rq_method = ''GET'', rq_path = ''/api/v1/pull'',
      rq_header = (\<lambda>_. ''00000001''), rq_body = [], rq_broken = False\<rparr>
      ((sample_server None [])\<lparr>sv_outbox := (\<lambda>_. [[1], [2, 3]])\<rparr>) = Some (1, 0)"
    by (subst connStateFromRequest_hex [where c = 1]) (simp_all add: sample_server_def hex)
  from pull_hands_out_once [OF _ this] show ?thesis by simp
qed

text \<open>The first payload of a session starts one dial; payloads delivered with it, or later while
  the dial is under way, are dropped.\<close>

theorem data_with_connect_dropped:
  assumes "r < length (sv_heap s)" "cs_outbound (sv_heap s ! r) = None"
    "\<not> cs_connecting (sv_heap s ! r)"
  shows "forward_all env c r (target # ps) s = forward_all env c r [target] s \<and>
    sv_gos (forward_all env c r (target # ps) s) =
      sv_gos s @ [GDial c r (string_of (TrimSpace target))] \<and>
    sv_io (forward_all env c r (target # ps) s) = sv_io s"
proof -
  have step: "forward_all env c r (target # ps) s = forward_all env c r ps (forwardPayload env c r target s)"
    "forward_all env c r [target] s = forwardPayload env c r target s"
    by (simp_all add: forward_all_def)
  have first: "forwardPayload env c r target s =
      (upd_cs r (\<lambda>cs. cs\<lparr>cs_connecting := True, cs_targetAddr := string_of (TrimSpace target)\<rparr>) s)
        \<lparr>sv_gos := sv_gos s @ [GDial c r (string_of (TrimSpace target))]\<rparr>"
    using assms(2,3) by (simp add: forwardPayload_def dialAndPumpAsync_def Let_def)
  have "forward_all env c r ps (forwardPayload env c r target s) = forwardPayload env c r target s"
    using assms by (intro forward_while_connecting) (simp_all add: first)
  then show ?thesis unfolding step by (simp add: first)
qed

theorem data_with_connect_dropped_witness:
  "sv_gos (forward_all sample_env 1 0 [bytes_of '' host:80'', [1, 2, 3]] (sample_server None [])) =
    [GDial 1 0 ''host:80'']"
proof -
  have "string_of (TrimSpace (bytes_of '' host:80'')) = ''host:80''" by code_simp
  moreover have "sv_gos (forward_all sample_env 1 0 [bytes_of '' host:80'', [1, 2, 3]] (sample_server None [])) =
      sv_gos (sample_server None []) @ [GDial 1 0 (string_of (TrimSpace (bytes_of '' host:80'')))]"
    by (rule data_with_connect_dropped [THEN conjunct2, THEN conjunct1])
      (simp_all add: sample_server_def)
  ultimately show ?thesis by (simp only:) (simp add: sample_server_def)
qed

text \<open>After the outbound socket was closed, on end of file or a write error, the next payload of
  the stream is taken for a new target and dialled, although the session had its target already.\<close>

theorem data_after_close_is_dialled:
  assumes "r < length (sv_heap s)" "\<not> cs_connecting (sv_heap s ! r)"
  shows "sv_gos (forwardPayload env c r payload (closeOutbound c r s)) =
      sv_gos s @ [GDial c r (string_of (TrimSpace payload))] \<and>
    cs_targetAddr (sv_heap (forwardPayload env c r payload (closeOutbound c r s)) ! r) =
      string_of (TrimSpace payload)"
proof -
  let ?s = "closeOutbound c r s"
  have "cs_outbound (sv_heap ?s ! r) = None" "cs_connecting (sv_heap ?s ! r) = cs_connecting (sv_heap s ! r)"
    using assms(1) by (simp_all add: closeOutbound_def Let_def split: option.split)
  then show ?thesis
    using assms by (simp add: forwardPayload_def dialAndPumpAsync_def Let_def)
qed

theorem data_after_close_is_dialled_witness:
  "sv_gos (forwardPayload sample_env 1 0 (bytes_of ''x'') (closeOutbound 1 0 (sample_server (Some 4) []))) =
    [GDial 1 0 ''x'']"
proof -
  have "string_of (TrimSpace (bytes_of ''x'')) = ''x''" by code_simp
  then show ?thesis
    using data_after_close_is_dialled [of 0 "sample_server (Some 4) []" sample_env 1 "bytes_of ''x''"]
    by (simp add: sample_server_def server_New_def)
qed

text \<open>The goroutine that read an earlier socket of the connection closes, when its read fails,
  whatever socket the connection has by then, and leaves the connection without one.\<close>

theorem stale_reader_closes_new_socket:
  assumes "i < length (sv_gos s)" "sv_gos s ! i = GPump c r old" "r < length (sv_heap s)"
    "cs_outbound (sv_heap s ! r) = Some new"
  shows "let s' = run_go env i (ReadResult [] True) s in
    sv_io s' = sv_io s @ [NetClose new] \<and> cs_outbound (sv_heap s' ! r) = None"
  using assms by (simp add: run_go_def closeOutbound_def Let_def)

theorem stale_reader_closes_new_socket_witness:
  "let s' = run_go sample_env 0 (ReadResult [] True) (sample_server (Some 4) [GPump 1 0 3]) in
    sv_io s' = [NetClose 4] \<and> cs_outbound (sv_heap s' ! 0) = None"
  using stale_reader_closes_new_socket [of 0 "sample_server (Some 4) [GPump 1 0 3]" 1 0 3 4 sample_env]
  by (simp add: sample_server_def server_New_def)

text \<open>C36: Nothing in the server recognises a reconnect handshake it has seen: the same request sent
  again takes the session back to counter 0 under the same key, with an empty replay window, so that
  the next payload the server sends shares its keystream with the first it sent before.\<close>

theorem replayed_handshake_reuses_nonces:
  assumes "valid_reconnect env t1 rq pt key r s" "r < length (sv_heap s)" "length p = length q"
  shows "let c = hp_ConnectionID pt;
      s1 = snd (handleOpen env t1 rq s); s2 = queueOutgoing c r p s1;
      s3 = snd (handleOpen env t2 rq s2); s4 = queueOutgoing c r q s3 in
    s_replay (cs_sess (sv_heap s3 ! r)) = replay_Reset (s_replay (cs_sess (sv_heap s2 ! r))) \<and>
    xor_bytes (slice 21 (21 + length p) (last (sv_outbox s2 c)))
      (slice 21 (21 + length q) (last (sv_outbox s4 c))) = xor_bytes p q"
proof -
  let ?c = "hp_ConnectionID pt"
  define s1 where "s1 = snd (handleOpen env t1 rq s)"
  define s2 where "s2 = queueOutgoing ?c r p s1"
  define s3 where "s3 = snd (handleOpen env t2 rq s2)"
  define s4 where "s4 = queueOutgoing ?c r q s3"
  have again: "valid_reconnect env t2 rq pt key r s2"
    unfolding s2_def s1_def by (rule valid_reconnect_again) (rule assms(1))
  have key: "aes_key_ok key" using assms(1) DecodeHandshake_key(3) by (fastforce simp: valid_reconnect_def)
  have len: "r < length (sv_heap s1)" "r < length (sv_heap s2)"
    using assms(2) by (simp_all add: s1_def s2_def handleOpen_reconnect [OF assms(1)])
  define x where "x = cs_sess (sv_heap s1 ! r)"
  define y where "y = cs_sess (sv_heap s3 ! r)"
  have xy: "s_SessionKey x = key" "s_ConnectionID x = ?c" "s_sendCounter x = 0"
    "s_SessionKey y = key" "s_ConnectionID y = ?c" "s_sendCounter y = 0"
    "s_replay y = replay_Reset (s_replay (cs_sess (sv_heap s2 ! r)))"
    using assms(2) len(2)
    by (simp_all add: x_def y_def s1_def s3_def handleOpen_reconnect [OF assms(1)]
        handleOpen_reconnect [OF again] CompleteHandshake_def)
  have out: "last (sv_outbox (queueOutgoing ?c r z t) ?c) = out_wire 0 (cs_sess (sv_heap t ! r)) 0 z"
    if "s_SessionKey (cs_sess (sv_heap t ! r)) = key" for z t
    using EncodeOutgoing_wire [of "cs_sess (sv_heap t ! r)" z 0] that key
    by (simp add: queueOutgoing_def Let_def)
  have "last (sv_outbox s2 ?c) = out_wire 0 x 0 p" "last (sv_outbox s4 ?c) = out_wire 0 y 0 q"
    using out [of s1 p] out [of s3 q] xy(1,4) by (simp_all add: s2_def s4_def x_def y_def)
  moreover have "xor_bytes (slice 21 (21 + length p) (out_wire 0 x 0 p))
      (slice 21 (21 + length q) (out_wire 0 y 0 q)) = xor_bytes p q"
    by (rule shared_counter_leak) (simp_all add: key xy assms(3))
  ultimately show ?thesis
    using xy(7) by (simp add: Let_def s1_def [symmetric] s2_def [symmetric] s3_def [symmetric]
        s4_def [symmetric] y_def [symmetric])
qed

theorem replayed_handshake_reuses_nonces_witness:
  "\<exists>rq (pt :: HandshakePlaintext). let s = (sample_server None [])\<lparr>sv_StaticPriv := replicate 32 5,
        sv_Tokens := RegisterToken ''t'' NewTokenStore\<rparr>;
      c = hp_ConnectionID pt;
      s1 = snd (handleOpen sample_env 0 rq s); s2 = queueOutgoing c 0 [1, 2] s1;
      s3 = snd (handleOpen sample_env 9 rq s2); s4 = queueOutgoing c 0 [7, 7] s3 in
    xor_bytes (slice 21 23 (last (sv_outbox s2 c))) (slice 21 23 (last (sv_outbox s4 c))) = [6, 5]"
proof -
  let ?s = "(sample_server None [])\<lparr>sv_StaticPriv := replicate 32 5,
    sv_Tokens := RegisterToken ''t'' NewTokenStore\<rparr>"
  let ?pt = "\<lparr>hp_DeviceID = 7, hp_ConnectionID = 1, hp_Flags = FlagOpen\<rparr>"
  have "x25519_pair (map2 (+)) (replicate 32 3) (replicate 32 5)" by code_simp
  then obtain wire key where hs: "length wire = 69"
    "DecodeHandshake (map2 (+)) wire (replicate 32 5) HKDFInfo =
      Inr (?pt, key, ecdh_PublicKey (map2 (+)) (replicate 32 3))"
    using handshake_agrees [of "map2 (+)" "replicate 32 3" "replicate 32 5" 0 ?pt HKDFInfo] by metis
  let ?rq = "\<lparr>rq_method = ''POST'', rq_path = ''/api/v1/open'', rq_header = (\<lambda>_. ''t''),
    rq_body = wire, rq_broken = False\<rparr>"
  have "valid_reconnect sample_env 0 ?rq ?pt key 0 ?s"
    unfolding valid_reconnect_def
  proof (intro conjI)
    show "\<exists>body eph. ReadAll_limited 69 (rq_body ?rq) (rq_broken ?rq) = Some body \<and>
        DecodeHandshake (env_dh sample_env) body (sv_StaticPriv ?s) HKDFInfo = Inr (?pt, key, eph)"
      using hs by - (rule exI [of _ wire], rule exI [of _ "ecdh_PublicKey (map2 (+)) (replicate 32 3)"],
        auto simp: ReadAll_limited_def sample_env_def)
    show "find_conn ?pt ?s = Some 0"
      by (simp add: find_conn_def sample_server_def connected_def CompleteHandshake_def NewSession_def)
  qed (simp_all add: TryBind_def RegisterToken_def NewTokenStore_def)
  from replayed_handshake_reuses_nonces [OF this, of "[1, 2]" "[7, 7]" 9]
  show ?thesis
    by - (rule exI [of _ ?rq], rule exI [of _ ?pt], simp add: sample_server_def Let_def xor_bytes_def)
qed

text \<open>The API paths can be told from paths that do not exist: a GET of the open endpoint is answered
  405 and of an unknown path 404, and the refusal of an open request carries a header that the 404 of an
  unknown path lacks.\<close>

theorem endpoints_distinguishable:
  "let probe = (\<lambda>m p. fst (Handler env now \<lparr>rq_method = m, rq_path = p, rq_header = (\<lambda>_. []),
       rq_body = [], rq_broken = False\<rparr> s)) in
   rs_status (probe ''GET'' ''/api/v1/open'') = 405 \<and> rs_status (probe ''GET'' ''/x'') = 404 \<and>
   rs_status (probe ''POST'' ''/api/v1/open'') = 404 \<and>
   rs_body (probe ''POST'' ''/api/v1/open'') = rs_body (probe ''POST'' ''/x'') \<and>
   rs_header (probe ''POST'' ''/api/v1/open'') \<noteq> rs_header (probe ''POST'' ''/x'')"
  by (simp add: Handler_def handleOpen_def handleHealth_def Let_def http_NotFound_def http_Error_def
      no_store_def)

end
