(* ===== verification/EndToEnd.thy ===== *)
theory EndToEnd
  imports Client Server
begin

text \<open>
  The client running against the server: the round trip of the client is the server's handler,
  and a tunnel is one client, one server, and the goroutine that reads the outbound socket. The
  relation \<open>linked\<close> ties the two sessions, the outbox and the frames not yet polled.
\<close>

section \<open>The server as a round tripper\<close>

definition to_request :: "string \<Rightarrow> client_request \<Rightarrow> request" where
  "to_request base cq = \<lparr>rq_method = cq_method cq, rq_path = drop (length base) (cq_url cq),
     rq_header = cq_header cq, rq_body = cq_body cq, rq_broken = False\<rparr>"

definition serve :: "server_env \<Rightarrow> nanos \<Rightarrow> string \<Rightarrow> Server round_trip" where
  "serve env now base cq s =
     (if take (length base) (cq_url cq) = base
      then (case Handler env now (to_request base cq) s of (resp, s1) \<Rightarrow> (Inr resp, s1))
      else (Inl Unreachable, s))"

lemmas path_defs = Handler_def to_request_def serve_def

lemma constants_agree:
  "client_HKDFInfo = HKDFInfo" "client_HeaderProvisionToken = HeaderProvisionToken"
  "client_HeaderConnectionID = HeaderConnectionID"
  by (simp_all add: client_HKDFInfo_def HKDFInfo_def client_HeaderProvisionToken_def
      HeaderProvisionToken_def client_HeaderConnectionID_def HeaderConnectionID_def)

lemma header_names: "HeaderConnectionID \<noteq> ''Content-Type''" "HeaderProvisionToken \<noteq> ''Content-Type''"
  by (simp_all add: HeaderConnectionID_def HeaderProvisionToken_def)

text \<open>The server's answer to a push and to a poll of a client whose connection it knows.\<close>

lemma client_conn_id:
  assumes "sv_conns s (s_ConnectionID (cl_Session c)) = Some r"
    "rq_header rq = conn_header c \<or> rq_header rq = octet_stream (conn_header c)"
  shows "connStateFromRequest rq s = Some (s_ConnectionID (cl_Session c), r)"
proof -
  have "rq_header rq HeaderConnectionID =
      hex_EncodeToString (put32 (s_ConnectionID (cl_Session c)))"
    using assms(2) header_names
    by (auto simp: conn_header_def octet_stream_def constants_agree connIDBytes_def)
  then show ?thesis using assms(1) by (simp add: connStateFromRequest_hex)
qed

lemma serve_push:
  assumes "cl_BaseURL c = base" "sv_conns s (s_ConnectionID (cl_Session c)) = Some r"
    "length w < 65536"
    "decode_batch now [w] (cs_sess (sv_heap s ! r)) = (delivered, sess)"
  shows "doPush (serve env now base) (put_frame w) c s =
    (Inr (), forward_all env (s_ConnectionID (cl_Session c)) r delivered
       (upd_cs r (\<lambda>cs. cs\<lparr>cs_sess := sess\<rparr>) s))"
proof -
  let ?rq = "\<lparr>rq_method = ''POST'', rq_path = ''/api/v1/push'',
    rq_header = octet_stream (conn_header c), rq_body = put_frame w, rq_broken = False\<rparr>"
  have id: "connStateFromRequest ?rq s = Some (s_ConnectionID (cl_Session c), r)"
    by (rule client_conn_id [OF assms(2)]) simp
  have body: "ReadAll_limited (8 * 2 ^ 20) (put_frame w) False = Some (put_frame w)"
    using assms(3) by (simp add: ReadAll_limited_def put_frame_def)
  have split: "split_frames (put_frame w) = [w]"
    using split_frames_put [OF assms(3), of "[]"] by simp
  have "handlePush env now ?rq s = (http_reply no_store 200 [],
      forward_all env (s_ConnectionID (cl_Session c)) r delivered
        (upd_cs r (\<lambda>cs. cs\<lparr>cs_sess := sess\<rparr>) s))"
    unfolding handlePush_def using id body assms(4) by (simp add: split Let_def)
  then show ?thesis
    by (simp add: doPush_def path_defs assms(1) Let_def)
qed

lemma serve_pull:
  assumes "cl_BaseURL c = base" "sv_conns s (s_ConnectionID (cl_Session c)) = Some r"
    "\<forall>w \<in> set (sv_outbox s (s_ConnectionID (cl_Session c))). length w < 65536"
    "decode_batch now2 (sv_outbox s (s_ConnectionID (cl_Session c))) (cl_Session c) = (out, sess)"
  shows "Pull (serve env now base) now2 c s =
    (Inr out, c\<lparr>cl_Session := sess\<rparr>,
     s\<lparr>sv_outbox := (sv_outbox s)(s_ConnectionID (cl_Session c) := [])\<rparr>)"
proof -
  let ?rq = "\<lparr>rq_method = ''GET'', rq_path = ''/api/v1/pull'',
    rq_header = conn_header c, rq_body = [], rq_broken = False\<rparr>"
  have id: "connStateFromRequest ?rq s = Some (s_ConnectionID (cl_Session c), r)"
    by (rule client_conn_id [OF assms(2)]) simp
  have "handlePull ?rq s = (http_reply no_store 200
      (join_frames (sv_outbox s (s_ConnectionID (cl_Session c)))),
      s\<lparr>sv_outbox := (sv_outbox s)(s_ConnectionID (cl_Session c) := [])\<rparr>)"
    unfolding handlePull_def using id by (simp add: Let_def)
  then show ?thesis
    using split_join_frames [OF assms(3)] assms(4)
    by (simp add: Pull_def path_defs assms(1) Let_def ReadAll_def)
qed

section \<open>Linked sessions\<close>

definition same_sender :: "Session \<Rightarrow> Session \<Rightarrow> bool" where
  "same_sender a b \<longleftrightarrow> s_SessionKey a = s_SessionKey b \<and> s_ConnectionID a = s_ConnectionID b \<and>
     s_sendCounter a = s_sendCounter b \<and> s_sendSequence a = s_sendSequence b"

text \<open>
  The client sent \<open>n\<close> frames in this epoch and \<open>m\<close> in all, and the server delivered them; the
  client received \<open>n'\<close> and \<open>m'\<close>, and the payloads \<open>pend\<close> wait in the outbox.
\<close>

definition linked ::
  "nat \<Rightarrow> nat \<Rightarrow> nat \<Rightarrow> nat \<Rightarrow> bytes list \<Rightarrow> nat \<Rightarrow> Client \<Rightarrow> Server \<Rightarrow> bool" where
  "linked n m n' m' pend r c s \<longleftrightarrow>
     sv_conns s (s_ConnectionID (cl_Session c)) = Some r \<and> r < length (sv_heap s) \<and>
     in_step n m (cl_Session c) (cs_sess (sv_heap s ! r)) \<and>
     (\<exists>s0. in_step n' m' s0 (cl_Session c) \<and>
        same_sender (cs_sess (sv_heap s ! r)) (advance (length pend) s0) \<and>
        sv_outbox s (s_ConnectionID (cl_Session c)) = wires_of pend s0)"

lemma linked_key: "linked n m n' m' pend r c s \<Longrightarrow> aes_key_ok (s_SessionKey (cl_Session c))"
  by (auto simp: linked_def in_step_def)

lemma same_sender_batch:
  "same_sender (snd (decode_batch now ws a)) b = same_sender a b"
  by (simp add: same_sender_def decode_batch_sender)

lemma same_sender_advance: "same_sender a b \<Longrightarrow> same_sender (advance k a) (advance k b)"
  by (simp add: same_sender_def advance_def)

lemma wires_of_length:
  "aes_key_ok (s_SessionKey s) \<Longrightarrow> w \<in> set (wires_of ps s) \<Longrightarrow> \<exists>p \<in> set ps. length w = 37 + length p"
  by (auto simp: wires_of_def length_out_wire)

text \<open>An upload: one request, one payload delivered.\<close>

lemma linked_push:
  assumes link: "linked n m n' m' pend r c s" and base: "cl_BaseURL c = base"
    and p: "length p \<le> 65498" and m: "m < seq_bound"
  obtains c' s1 where
    "Push (serve env now base) p c s =
       (Inr (), c', forward_all env (s_ConnectionID (cl_Session c)) r [p] s1)"
    "linked (Suc n) (Suc m) n' m' pend r c' s1" "cl_BaseURL c' = base"
    "s_ConnectionID (cl_Session c') = s_ConnectionID (cl_Session c)"
    "\<exists>x. s1 = upd_cs r (\<lambda>cs. cs\<lparr>cs_sess := x\<rparr>) s"
proof -
  let ?cs = "cl_Session c" and ?ss = "cs_sess (sv_heap s ! r)"
  let ?w = "out_wire 0 ?cs 0 p"
  have key: "aes_key_ok (s_SessionKey ?cs)" using link by (rule linked_key)
  have st: "in_step n m ?cs ?ss" and conn: "sv_conns s (s_ConnectionID ?cs) = Some r"
    and r: "r < length (sv_heap s)"
    using link by (simp_all add: linked_def)
  obtain s0 where s0: "in_step n' m' s0 ?cs" "same_sender ?ss (advance (length pend) s0)"
    "sv_outbox s (s_ConnectionID ?cs) = wires_of pend s0"
    using link by (auto simp: linked_def)
  have len: "length ?w < 65536" using p key by (simp add: length_out_wire)
  have m': "m + length [p] \<le> seq_bound" "\<forall>q \<in> set [p]. length q < 65536" using m p by simp_all
  have one: "wires_of [p] ?cs = [?w]" by (simp add: wires_of_def)
  define sess where "sess = snd (decode_batch now [?w] ?ss)"
  have dec: "decode_batch now [?w] ?ss = ([p], sess)"
    "in_step (Suc n) (Suc m) (advance 1 ?cs) sess"
    using in_step_batch [OF st m'(2,1), of now] by (simp_all add: one sess_def prod_eq_iff)
  let ?c1 = "c\<lparr>cl_Session := advance 1 ?cs\<rparr>"
  let ?s1 = "upd_cs r (\<lambda>cs. cs\<lparr>cs_sess := sess\<rparr>) s"
  let ?c' = "if ShouldSendRedundant (s_Reconnect (cl_Session ?c1))
      then ?c1\<lparr>cl_Session := (cl_Session ?c1)
        \<lparr>s_Reconnect := MarkRedundantSent (s_Reconnect (cl_Session ?c1))\<rparr>\<rparr> else ?c1"
  have push: "Push (serve env now base) p c s =
      (Inr (), ?c', forward_all env (s_ConnectionID ?cs) r [p] ?s1)"
    using serve_push [of ?c1 base s r ?w now "[p]" sess env] base conn len dec(1)
    unfolding Push_wire [OF key] push_loop_once by simp
  have sel: "s_ConnectionID (cl_Session ?c') = s_ConnectionID ?cs" "cl_BaseURL ?c' = base"
    "in_step (Suc n) (Suc m) (cl_Session ?c') sess"
    "in_step n' m' s0 (cl_Session ?c')"
    using base dec(2) s0(1) in_step_sender [of "cl_Session ?c'" "advance 1 ?cs"]
      in_step_receiver [of "cl_Session ?c'" ?cs]
    by (auto simp: advance_def)
  have "same_sender sess (advance (length pend) s0)"
    using s0(2) unfolding sess_def by (simp only: same_sender_batch)
  then have "linked (Suc n) (Suc m) n' m' pend r ?c' ?s1"
    unfolding linked_def sel(1) using sel(3,4) conn r s0(3) by auto
  from that [OF push this sel(2,1)] show thesis by blast
qed

text \<open>A chunk read from the socket: one more payload in the outbox.\<close>

lemma linked_queue:
  assumes link: "linked n m n' m' pend r c s"
  shows "linked n m n' m' (pend @ [p]) r c (queueOutgoing (s_ConnectionID (cl_Session c)) r p s)"
proof -
  let ?cs = "cl_Session c" and ?ss = "cs_sess (sv_heap s ! r)"
  have st: "in_step n m ?cs ?ss" and conn: "sv_conns s (s_ConnectionID ?cs) = Some r"
    and r: "r < length (sv_heap s)"
    using link by (simp_all add: linked_def)
  obtain s0 where s0: "in_step n' m' s0 ?cs" "same_sender ?ss (advance (length pend) s0)"
    "sv_outbox s (s_ConnectionID ?cs) = wires_of pend s0"
    using link by (auto simp: linked_def)
  have key: "aes_key_ok (s_SessionKey ?ss)" using st by (simp add: in_step_def)
  have wire: "out_wire 0 ?ss 0 p = out_wire 0 s0 (length pend) p"
    using s0(2) by (simp add: same_sender_def out_wire_def out_frame_def advance_def Let_def)
  have q: "queueOutgoing (s_ConnectionID ?cs) r p s =
      (upd_cs r (\<lambda>cs. cs\<lparr>cs_sess := advance 1 ?ss\<rparr>) s)
        \<lparr>sv_outbox := (sv_outbox s)(s_ConnectionID ?cs := wires_of (pend @ [p]) s0)\<rparr>"
    using EncodeOutgoing_wire [OF key, of p 0] s0(3)
    by (simp add: queueOutgoing_def Let_def wires_of_snoc wire)
  have "same_sender (advance 1 ?ss) (advance (length (pend @ [p])) s0)"
    using same_sender_advance [OF s0(2), of 1] by (simp add: advance_add)
  then show ?thesis
    unfolding linked_def q using st conn r s0(1) by auto
qed

text \<open>A poll: everything that waited is delivered.\<close>

lemma linked_pull:
  assumes link: "linked n m n' m' pend r c s" and base: "cl_BaseURL c = base"
    and pend: "\<forall>p \<in> set pend. length p \<le> 65498" and m': "m' + length pend \<le> seq_bound"
  obtains c' where
    "Pull (serve env now base) now2 c s = (Inr pend, c',
       s\<lparr>sv_outbox := (sv_outbox s)(s_ConnectionID (cl_Session c) := [])\<rparr>)"
    "linked n m (n' + length pend) (m' + length pend) [] r c'
       (s\<lparr>sv_outbox := (sv_outbox s)(s_ConnectionID (cl_Session c) := [])\<rparr>)"
    "cl_BaseURL c' = base" "s_ConnectionID (cl_Session c') = s_ConnectionID (cl_Session c)"
proof -
  let ?cs = "cl_Session c" and ?ss = "cs_sess (sv_heap s ! r)"
  have st: "in_step n m ?cs ?ss" and conn: "sv_conns s (s_ConnectionID ?cs) = Some r"
    and r: "r < length (sv_heap s)"
    using link by (simp_all add: linked_def)
  obtain s0 where s0: "in_step n' m' s0 ?cs" "same_sender ?ss (advance (length pend) s0)"
    "sv_outbox s (s_ConnectionID ?cs) = wires_of pend s0"
    using link by (auto simp: linked_def)
  have key: "aes_key_ok (s_SessionKey s0)" using s0(1) by (simp add: in_step_def)
  have len: "\<forall>w \<in> set (wires_of pend s0). length w < 65536"
    using pend wires_of_length [OF key] by fastforce
  define sess where "sess = snd (decode_batch now2 (wires_of pend s0) ?cs)"
  have fits: "\<forall>p \<in> set pend. length p < 65536" using pend by auto
  have dec: "decode_batch now2 (wires_of pend s0) ?cs = (pend, sess)"
    "in_step (n' + length pend) (m' + length pend) (advance (length pend) s0) sess"
    using in_step_batch [OF s0(1) fits m', of now2] by (simp_all add: sess_def prod_eq_iff)
  let ?c' = "c\<lparr>cl_Session := sess\<rparr>"
  let ?s' = "s\<lparr>sv_outbox := (sv_outbox s)(s_ConnectionID ?cs := [])\<rparr>"
  have pull: "Pull (serve env now base) now2 c s = (Inr pend, ?c', ?s')"
    using serve_pull [of c base s r now2 pend sess env now] base conn len dec(1) s0(3) by simp
  have id: "s_ConnectionID sess = s_ConnectionID ?cs"
    using decode_batch_sender by (simp add: sess_def)
  have "in_step n m sess ?ss" using st by (simp add: sess_def)
  moreover have "same_sender ?ss (advance (length []) (advance (length pend) s0))"
    using s0(2) by (simp add: same_sender_def advance_def)
  ultimately have "linked n m (n' + length pend) (m' + length pend) [] r ?c' ?s'"
    unfolding linked_def using dec(2) conn r id by (auto simp: wires_of_def)
  from that [OF pull this] base id show thesis by simp
qed

section \<open>The handshake\<close>

definition hello :: "Client \<Rightarrow> u32 \<Rightarrow> HandshakePlaintext" where
  "hello c cid = \<lparr>hp_DeviceID = cl_DeviceID c, hp_ConnectionID = cid, hp_Flags = FlagOpen\<rparr>"

lemma FlagKeyConfirmed_bit:
  "FlagKeyConfirmed AND FlagKeyConfirmed \<noteq> 0" "0 AND FlagKeyConfirmed = 0" "FlagKeyConfirmed \<noteq> 0"
  by (simp_all add: FlagKeyConfirmed_def)

lemma serve_open:
  assumes pair: "x25519_pair (env_dh env) a (sv_StaticPriv s)"
    and pub: "cl_ServerStaticPub c = ecdh_PublicKey (env_dh env) (sv_StaticPriv s)"
    and base: "cl_BaseURL c = base" and tok: "cl_Token c \<noteq> []"
    and bind: "TryBind now (cl_Token c) (cl_DeviceID c) (sv_Tokens s) = (BindAccepted, tokens)"
    and opened: "open_conn now (hello c cid) (s\<lparr>sv_Tokens := Touch now (cl_Token c) tokens\<rparr>) =
      ((cid', r, known), s1)"
  obtains key where "length key = 32"
    "doHandshake (env_dh env) (serve env now base) (Some a) now2 cid c s =
      (Inr (),
       c\<lparr>cl_Session := (let s' = CompleteHandshake now2 cid' key (cl_Session c)
          in if known then s'\<lparr>s_Reconnect := ConfirmKey (s_Reconnect s')\<rparr> else s')\<rparr>,
       upd_cs r (\<lambda>cs. cs\<lparr>cs_sess := CompleteHandshake now cid' key (cs_sess cs)\<rparr>) s1)"
proof -
  obtain wire key where hs:
    "EncodeHandshake (env_dh env) a (cl_ServerStaticPub c) 0 (hello c cid) HKDFInfo = Inr (wire, key)"
    "length wire = 69" "length key = 32"
    "DecodeHandshake (env_dh env) wire (sv_StaticPriv s) HKDFInfo =
      Inr (hello c cid, key, ecdh_PublicKey (env_dh env) a)"
    using handshake_agrees [OF pair, of 0 "hello c cid" HKDFInfo] pub by metis
  let ?rq = "\<lparr>rq_method = ''POST'', rq_path = ''/api/v1/open'',
    rq_header = octet_stream (no_header(HeaderProvisionToken := cl_Token c)), rq_body = wire,
    rq_broken = False\<rparr>"
  have tk: "rq_header ?rq HeaderProvisionToken = cl_Token c"
    using header_names by (simp add: octet_stream_def)
  have ho: "handleOpen env now ?rq s =
      (http_reply no_store 200 (put32 cid' @ [if known then FlagKeyConfirmed else 0]),
       upd_cs r (\<lambda>cs. cs\<lparr>cs_sess := CompleteHandshake now cid' key (cs_sess cs)\<rparr>) s1)"
    unfolding handleOpen_def
    using tk hs(2,4) bind opened tok
    by (simp add: ReadAll_limited_def HandshakeWireSize_69 Let_def hello_def)
  have "doHandshake (env_dh env) (serve env now base) (Some a) now2 cid c s =
      (Inr (),
       c\<lparr>cl_Session := (let s' = CompleteHandshake now2 cid' key (cl_Session c)
          in if known then s'\<lparr>s_Reconnect := ConfirmKey (s_Reconnect s')\<rparr> else s')\<rparr>,
       upd_cs r (\<lambda>cs. cs\<lparr>cs_sess := CompleteHandshake now cid' key (cs_sess cs)\<rparr>) s1)"
    unfolding doHandshake_def GenerateEphemeralKeypair_def
    using hs(1) ho base
    by (simp add: Let_def constants_agree path_defs hello_def [symmetric] ReadAll_limited_def
        slice_def nth_append FlagKeyConfirmed_bit)
  from that [OF hs(3) this] show thesis .
qed

text \<open>Two new sessions that complete the same handshake.\<close>

lemma fresh_both:
  assumes key: "aes_key_ok key"
  shows "in_step 0 0 (CompleteHandshake t1 cid key (NewSession x1 d1)) (CompleteHandshake t2 cid key (NewSession x2 d2))"
proof -
  have "s_sendSequence (NewSession x y) = word_of_nat 0" "window_repr (s_replay (NewSession x y)) {}"
    "buffer_repr f (s_reorder (NewSession x y)) {..<0}" for x y f
    by (simp_all add: NewSession_def window_repr_New buffer_repr_New)
  from in_step_rekey [OF key _ this] show ?thesis by simp
qed

text \<open>A new client against any server that accepts its token.\<close>

lemma linked_open:
  assumes pair: "x25519_pair (env_dh env) a (sv_StaticPriv s)"
    and pub: "cl_ServerStaticPub c = ecdh_PublicKey (env_dh env) (sv_StaticPriv s)"
    and base: "cl_BaseURL c = base" and tok: "cl_Token c \<noteq> []"
    and bind: "TryBind now (cl_Token c) (cl_DeviceID c) (sv_Tokens s) = (BindAccepted, tokens)"
    and new: "cl_Session c = NewSession t d" and ob: "sv_outbox s (sv_nextConnID s) = []"
  obtains c' s' where
    "client_Open (env_dh env) (serve env now base) (Some a) now2 c s = (Inr (), c', s')"
    "linked 0 0 0 0 [] (length (sv_heap s)) c' s'" "cl_BaseURL c' = base"
    "s_ConnectionID (cl_Session c') = sv_nextConnID s"
    "sv_heap s' = sv_heap s @ [sv_heap s' ! length (sv_heap s)]"
    "cs_outbound (sv_heap s' ! length (sv_heap s)) = None"
    "\<not> cs_connecting (sv_heap s' ! length (sv_heap s))"
    "sv_gos s' = sv_gos s" "sv_io s' = sv_io s" "sv_dialled s' = sv_dialled s"
    "sv_AllowedTargets s' = sv_AllowedTargets s"
proof -
  let ?r = "length (sv_heap s)" and ?cid = "sv_nextConnID s"
  let ?cs = "\<lparr>cs_sess = NewSession now (cl_DeviceID c), cs_outbound = None,
    cs_connecting = False, cs_targetAddr = []\<rparr>"
  let ?s1 = "s\<lparr>sv_Tokens := Touch now (cl_Token c) tokens, sv_nextConnID := ?cid + 1,
    sv_heap := sv_heap s @ [?cs], sv_conns := (sv_conns s)(?cid \<mapsto> ?r)\<rparr>"
  have opened: "open_conn now (hello c 0) (s\<lparr>sv_Tokens := Touch now (cl_Token c) tokens\<rparr>) =
      ((?cid, ?r, False), ?s1)"
    by (simp add: open_conn_def find_conn_def hello_def Let_def)
  from serve_open [OF pair pub base tok bind opened, of now2] obtain key where
    key: "length key = 32" and run:
    "doHandshake (env_dh env) (serve env now base) (Some a) now2 0 c s =
      (Inr (), c\<lparr>cl_Session := CompleteHandshake now2 ?cid key (cl_Session c)\<rparr>,
       upd_cs ?r (\<lambda>cs. cs\<lparr>cs_sess := CompleteHandshake now ?cid key (cs_sess cs)\<rparr>) ?s1)"
    by (auto simp: Let_def)
  let ?c' = "c\<lparr>cl_Session := CompleteHandshake now2 ?cid key (cl_Session c)\<rparr>"
  define s' where
    "s' = upd_cs ?r (\<lambda>cs. cs\<lparr>cs_sess := CompleteHandshake now ?cid key (cs_sess cs)\<rparr>) ?s1"
  let ?ss = "CompleteHandshake now ?cid key (NewSession now (cl_DeviceID c))"
  have s': "sv_heap s' = sv_heap s @ [?cs\<lparr>cs_sess := ?ss\<rparr>]" "sv_conns s' = (sv_conns s)(?cid \<mapsto> ?r)"
    "sv_gos s' = sv_gos s" "sv_io s' = sv_io s" "sv_dialled s' = sv_dialled s"
    "sv_AllowedTargets s' = sv_AllowedTargets s" "sv_outbox s' = sv_outbox s"
    by (simp_all add: s'_def upd_cs_def)
  note both = fresh_both [OF aes_key_ok_32 [OF key]]
  have cid: "s_ConnectionID (cl_Session ?c') = ?cid" by (simp add: CompleteHandshake_def)
  have "linked 0 0 0 0 [] ?r ?c' s'"
    unfolding linked_def cid s' using both ob
    by (auto simp: new wires_of_def same_sender_def advance_def intro!: exI [of _ ?ss])
  then show thesis
    using that [of ?c' s'] run cid base s' by (simp add: client_Open_def s'_def)
qed

text \<open>Two sessions with nothing in flight that complete the same handshake.\<close>

lemma rekey_both:
  assumes up: "in_step n m a b" and down: "in_step n' m' s0 a" "same_sender b s0" and key: "aes_key_ok key"
  shows "in_step 0 m ((CompleteHandshake t1 cid key a)\<lparr>s_Reconnect := rc\<rparr>) (CompleteHandshake t2 cid key b)"
    "in_step 0 m' (CompleteHandshake t2 cid key b) ((CompleteHandshake t1 cid key a)\<lparr>s_Reconnect := rc\<rparr>)"
proof -
  have halves: "m \<le> seq_bound" "s_sendSequence a = word_of_nat m"
    "window_repr (s_replay b) (word_of_nat ` {..<n})" "buffer_repr (\<lambda>_. []) (s_reorder b) {..<m}"
    "m' \<le> seq_bound" "s_sendSequence b = word_of_nat m'"
    "window_repr (s_replay a) (word_of_nat ` {..<n'})" "buffer_repr (\<lambda>_. []) (s_reorder a) {..<m'}"
    using up down by (simp_all add: in_step_def same_sender_def)
  show "in_step 0 m ((CompleteHandshake t1 cid key a)\<lparr>s_Reconnect := rc\<rparr>) (CompleteHandshake t2 cid key b)"
    using in_step_rekey [OF key halves(1-4), of t1 cid t2] by (simp add: in_step_def)
  show "in_step 0 m' (CompleteHandshake t2 cid key b) ((CompleteHandshake t1 cid key a)\<lparr>s_Reconnect := rc\<rparr>)"
    using in_step_rekey [OF key halves(5-8), of t2 cid t1] by (simp add: in_step_def)
qed

text \<open>A reconnect of a client with nothing in flight.\<close>

lemma linked_reconnect:
  assumes pair: "x25519_pair (env_dh env) a (sv_StaticPriv s)"
    and pub: "cl_ServerStaticPub c = ecdh_PublicKey (env_dh env) (sv_StaticPriv s)"
    and base: "cl_BaseURL c = base" and tok: "cl_Token c \<noteq> []"
    and bind: "TryBind now (cl_Token c) (cl_DeviceID c) (sv_Tokens s) = (BindAccepted, tokens)"
    and link: "linked n m n' m' [] r c s"
    and dev: "s_DeviceID (cs_sess (sv_heap s ! r)) = cl_DeviceID c"
    and cid: "s_ConnectionID (cl_Session c) \<noteq> 0"
  obtains c' s' where
    "client_Reconnect (env_dh env) (serve env now base) (Some a) now2 c s = (Inr (), c', s')"
    "linked 0 m 0 m' [] r c' s'" "cl_BaseURL c' = base"
    "s_ConnectionID (cl_Session c') = s_ConnectionID (cl_Session c)"
    "keyConfirmed (s_Reconnect (cl_Session c'))" "\<not> inGrace (s_Reconnect (cl_Session c'))"
    "\<And>q. cs_outbound (sv_heap s' ! q) = cs_outbound (sv_heap s ! q)"
    "sv_gos s' = sv_gos s" "sv_io s' = sv_io s" "sv_conns s' = sv_conns s"
proof -
  let ?cs = "cl_Session c" and ?ss = "cs_sess (sv_heap s ! r)"
  let ?cid = "s_ConnectionID ?cs"
  let ?c1 = "c\<lparr>cl_Session := ?cs\<lparr>s_Reconnect := StartGrace now2 (s_Reconnect ?cs)\<rparr>\<rparr>"
  let ?s1 = "s\<lparr>sv_Tokens := Touch now (cl_Token c) tokens\<rparr>"
  have conn: "sv_conns s ?cid = Some r" and r: "r < length (sv_heap s)"
    and st: "in_step n m ?cs ?ss" and ob: "sv_outbox s ?cid = []"
    using link by (auto simp: linked_def wires_of_def)
  obtain s0 where s0: "in_step n' m' s0 ?cs" "same_sender ?ss s0"
    using link by (auto simp: linked_def same_sender_def advance_def)
  have opened: "open_conn now (hello ?c1 ?cid) (s\<lparr>sv_Tokens := Touch now (cl_Token ?c1) tokens\<rparr>) =
      ((?cid, r, True), ?s1)"
    using conn dev cid by (simp add: open_conn_def find_conn_def hello_def)
  from serve_open [OF pair _ _ _ _ opened, of base now2] obtain key where
    key: "length key = 32" and run:
    "doHandshake (env_dh env) (serve env now base) (Some a) now2 ?cid ?c1 s =
      (Inr (),
       ?c1\<lparr>cl_Session := (let s' = CompleteHandshake now2 ?cid key (cl_Session ?c1)
          in s'\<lparr>s_Reconnect := ConfirmKey (s_Reconnect s')\<rparr>)\<rparr>,
       upd_cs r (\<lambda>cs. cs\<lparr>cs_sess := CompleteHandshake now ?cid key (cs_sess cs)\<rparr>) ?s1)"
    using pub base tok bind by auto
  let ?d = "(CompleteHandshake now2 ?cid key (cl_Session ?c1))
     \<lparr>s_Reconnect := ConfirmKey (s_Reconnect (CompleteHandshake now2 ?cid key (cl_Session ?c1)))\<rparr>"
  let ?c' = "?c1\<lparr>cl_Session := ?d\<rparr>"
  define s' where
    "s' = upd_cs r (\<lambda>cs. cs\<lparr>cs_sess := CompleteHandshake now ?cid key (cs_sess cs)\<rparr>) ?s1"
  let ?e = "CompleteHandshake now ?cid key ?ss"
  note both = rekey_both [OF st s0 aes_key_ok_32 [OF key]]
  have "in_step 0 m ?d ?e" "in_step 0 m' ?e ?d"
    using both [where ?t1.0 = now2 and cid = ?cid and ?t2.0 = now]
    by (simp_all add: in_step_def CompleteHandshake_def)
  moreover have "s_ConnectionID ?d = ?cid" by (simp add: CompleteHandshake_def)
  moreover have s': "sv_heap s' = (sv_heap s)[r := (sv_heap s ! r)\<lparr>cs_sess := ?e\<rparr>]"
    "sv_conns s' = sv_conns s" "sv_outbox s' = sv_outbox s" "sv_gos s' = sv_gos s" "sv_io s' = sv_io s"
    by (simp_all add: s'_def upd_cs_def)
  ultimately have link': "linked 0 m 0 m' [] r ?c' s'"
    unfolding linked_def using conn r ob
    by (auto simp: wires_of_def same_sender_def advance_def intro!: exI [of _ ?e])
  have out: "cs_outbound (sv_heap s' ! q) = cs_outbound (sv_heap s ! q)" for q
    using r by (simp add: s' nth_list_update)
  have "client_Reconnect (env_dh env) (serve env now base) (Some a) now2 c s = (Inr (), ?c', s')"
    using run cid by (simp add: client_Reconnect_def Let_def s'_def)
  from that [OF this link' _ _ _ _ out s'(4,5,2)] base show thesis
    by (simp add: CompleteHandshake_def ConfirmKey_def)
qed

section \<open>A tunnel\<close>

text \<open>
  The client pushes and polls while goroutine \<open>i\<close> of the server reads the socket. \<open>tn_got\<close>
  collects what the polls returned; \<open>tn_ok\<close> stays true while no operation failed.
\<close>

record tunnel =
  tn_client :: Client
  tn_server :: Server
  tn_got :: "bytes list"
  tn_ok :: bool

datatype tunnel_event = Upload nanos bytes | Chunk bytes | Poll nanos nanos

fun tunnel_step :: "server_env \<Rightarrow> string \<Rightarrow> nat \<Rightarrow> tunnel \<Rightarrow> tunnel_event \<Rightarrow> tunnel" where
  "tunnel_step env base i t (Upload now p) =
     (case Push (serve env now base) p (tn_client t) (tn_server t) of (res, c, s) \<Rightarrow>
        \<lparr>tn_client = c, tn_server = s, tn_got = tn_got t, tn_ok = (tn_ok t \<and> res = Inr ())\<rparr>)"
| "tunnel_step env base i t (Chunk p) =
     t\<lparr>tn_server := run_go env i (ReadResult p False) (tn_server t)\<rparr>"
| "tunnel_step env base i t (Poll now now2) =
     (case Pull (serve env now base) now2 (tn_client t) (tn_server t) of (res, c, s) \<Rightarrow>
        (case res of
           Inl e \<Rightarrow> \<lparr>tn_client = c, tn_server = s, tn_got = tn_got t, tn_ok = False\<rparr>
         | Inr out \<Rightarrow> \<lparr>tn_client = c, tn_server = s, tn_got = tn_got t @ out, tn_ok = tn_ok t\<rparr>))"

declare tunnel_step.simps [simp del]

definition tunnel_run :: "server_env \<Rightarrow> string \<Rightarrow> nat \<Rightarrow> tunnel \<Rightarrow> tunnel_event list \<Rightarrow> tunnel" where
  "tunnel_run env base i = foldl (tunnel_step env base i)"

fun uploads :: "tunnel_event list \<Rightarrow> bytes list" where
  "uploads [] = []"
| "uploads (Upload now p # es) = p # uploads es"
| "uploads (Chunk p # es) = uploads es"
| "uploads (Poll now now2 # es) = uploads es"

fun chunks :: "tunnel_event list \<Rightarrow> bytes list" where
  "chunks [] = []"
| "chunks (Upload now p # es) = chunks es"
| "chunks (Chunk p # es) = p # chunks es"
| "chunks (Poll now now2 # es) = chunks es"

text \<open>Payloads that fit a frame; a read returns at least one byte.\<close>

fun event_fits :: "tunnel_event \<Rightarrow> bool" where
  "event_fits (Upload now p) = (length p \<le> 65498)"
| "event_fits (Chunk p) = (0 < length p \<and> length p \<le> 65498)"
| "event_fits (Poll now now2) = True"

definition tunnel_inv ::
  "string \<Rightarrow> nat \<Rightarrow> nat \<Rightarrow> nat \<Rightarrow> nat \<Rightarrow> bytes list \<Rightarrow> bytes \<Rightarrow> bytes list \<Rightarrow> tunnel \<Rightarrow> bool" where
  "tunnel_inv base i h m m' pend sent got t \<longleftrightarrow> tn_ok t \<and> cl_BaseURL (tn_client t) = base \<and>
     tn_got t = got \<and> written_to h (sv_io (tn_server t)) = sent \<and>
     list_all (\<lambda>p. length p \<le> 65498) pend \<and> i < length (sv_gos (tn_server t)) \<and>
     (\<exists>n n' r. linked n m n' m' pend r (tn_client t) (tn_server t) \<and>
        cs_outbound (sv_heap (tn_server t) ! r) = Some h \<and>
        sv_gos (tn_server t) ! i = GPump (s_ConnectionID (cl_Session (tn_client t))) r h)"

lemma forwardPayload_write:
  "cs_outbound (sv_heap s ! r) = Some h \<Longrightarrow> env_write_ok env (sv_io s) h p \<Longrightarrow>
   forwardPayload env c r p s = s\<lparr>sv_io := sv_io s @ [NetWrite h p True]\<rparr>"
  by (simp add: forwardPayload_def Let_def)

lemma linked_io [simp]: "linked n m n' m' pend r c (s\<lparr>sv_io := io\<rparr>) = linked n m n' m' pend r c s"
  by (simp add: linked_def)

lemma run_go_pump:
  assumes "i < length (sv_gos s)" "sv_gos s ! i = GPump c r h" "p \<noteq> []"
  shows "run_go env i (ReadResult p False) s = queueOutgoing c r p s"
proof -
  have "take i (sv_gos s) @ sv_gos s ! i # drop (Suc i) (sv_gos s) = sv_gos s"
    using assms(1) by (rule id_take_nth_drop [symmetric])
  then have "set_gos i (Some (GPump c r h)) (queueOutgoing c r p s) = queueOutgoing c r p s"
    using assms(2) by (simp add: set_gos_def)
  then show ?thesis using assms by (simp add: run_go_eq)
qed

lemma queueOutgoing_outbound:
  "cs_outbound (sv_heap (queueOutgoing c r p s) ! q) = cs_outbound (sv_heap s ! q)"
  using queueOutgoing_shape [of c r p s] by (auto simp: upd_cs_def nth_list_update list_update_beyond)
    (metis connState.select_convs(2) connState.surjective connState.update_convs(1) list_update_beyond
      not_less nth_list_update)

lemma tunnel_upload:
  assumes inv: "tunnel_inv base i h m m' pend sent got t" and p: "length p \<le> 65498"
    and m: "m < seq_bound" and ok: "\<And>io q. env_write_ok env io h q"
  shows "tunnel_inv base i h (Suc m) m' pend (sent @ p) got (tunnel_step env base i t (Upload now p))"
proof -
  obtain n n' r where l: "linked n m n' m' pend r (tn_client t) (tn_server t)"
    "cs_outbound (sv_heap (tn_server t) ! r) = Some h"
    "sv_gos (tn_server t) ! i = GPump (s_ConnectionID (cl_Session (tn_client t))) r h"
    using inv by (auto simp: tunnel_inv_def)
  have base: "cl_BaseURL (tn_client t) = base" using inv by (simp add: tunnel_inv_def)
  obtain c' s1 x where push:
    "Push (serve env now base) p (tn_client t) (tn_server t) =
       (Inr (), c', forward_all env (s_ConnectionID (cl_Session (tn_client t))) r [p] s1)"
    "linked (Suc n) (Suc m) n' m' pend r c' s1" "cl_BaseURL c' = base"
    "s_ConnectionID (cl_Session c') = s_ConnectionID (cl_Session (tn_client t))"
    "s1 = upd_cs r (\<lambda>cs. cs\<lparr>cs_sess := x\<rparr>) (tn_server t)"
    using linked_push [OF l(1) base p m, of env now] by blast
  have "r < length (sv_heap (tn_server t))" using l(1) by (simp add: linked_def)
  then have ob: "cs_outbound (sv_heap s1 ! r) = Some h" using l(2) push(5) by simp
  have fw: "forward_all env (s_ConnectionID (cl_Session (tn_client t))) r [p] s1 =
      s1\<lparr>sv_io := sv_io s1 @ [NetWrite h p True]\<rparr>"
    by (simp add: forward_all_def forwardPayload_write [OF ob ok])
  define s2 where "s2 = s1\<lparr>sv_io := sv_io s1 @ [NetWrite h p True]\<rparr>"
  have s2: "linked (Suc n) (Suc m) n' m' pend r c' s2" "cs_outbound (sv_heap s2 ! r) = Some h"
    "sv_gos s2 = sv_gos (tn_server t)" "written_to h (sv_io s2) = sent @ p"
    using push(2) ob inv by (simp_all add: s2_def push(5) tunnel_inv_def)
  have step: "tunnel_step env base i t (Upload now p) =
      \<lparr>tn_client = c', tn_server = s2, tn_got = tn_got t, tn_ok = tn_ok t\<rparr>"
    using push(1) by (simp add: tunnel_step.simps fw s2_def)
  have "\<exists>n n' r. linked n (Suc m) n' m' pend r c' s2 \<and> cs_outbound (sv_heap s2 ! r) = Some h \<and>
      sv_gos s2 ! i = GPump (s_ConnectionID (cl_Session c')) r h"
    using s2(1-3) l(3) push(4) by auto
  then show ?thesis
    using inv push(3) s2(3,4) by (simp add: step tunnel_inv_def)
qed

lemma tunnel_chunk:
  assumes inv: "tunnel_inv base i h m m' pend sent got t" and p: "0 < length p" "length p \<le> 65498"
  shows "tunnel_inv base i h m m' (pend @ [p]) sent got (tunnel_step env base i t (Chunk p))"
proof -
  obtain n n' r where l: "linked n m n' m' pend r (tn_client t) (tn_server t)"
    "cs_outbound (sv_heap (tn_server t) ! r) = Some h"
    "sv_gos (tn_server t) ! i = GPump (s_ConnectionID (cl_Session (tn_client t))) r h"
    "i < length (sv_gos (tn_server t))"
    using inv by (auto simp: tunnel_inv_def)
  have go: "run_go env i (ReadResult p False) (tn_server t) =
      queueOutgoing (s_ConnectionID (cl_Session (tn_client t))) r p (tn_server t)"
    using run_go_pump [OF l(4,3)] p(1) by simp
  show ?thesis
    using inv linked_queue [OF l(1), of p] l(2-4) p(2)
    by (auto simp: tunnel_inv_def tunnel_step.simps go queueOutgoing_outbound)
qed

lemma tunnel_poll:
  assumes inv: "tunnel_inv base i h m m' pend sent got t" and m': "m' + length pend \<le> seq_bound"
  shows "tunnel_inv base i h m (m' + length pend) [] sent (got @ pend)
    (tunnel_step env base i t (Poll now now2))"
proof -
  obtain n n' r where l: "linked n m n' m' pend r (tn_client t) (tn_server t)"
    "cs_outbound (sv_heap (tn_server t) ! r) = Some h"
    "sv_gos (tn_server t) ! i = GPump (s_ConnectionID (cl_Session (tn_client t))) r h"
    using inv by (auto simp: tunnel_inv_def)
  have base: "cl_BaseURL (tn_client t) = base" and fits: "\<forall>p \<in> set pend. length p \<le> 65498"
    using inv by (simp_all add: tunnel_inv_def list_all_iff)
  define s2 where "s2 = (tn_server t)\<lparr>sv_outbox := (sv_outbox (tn_server t))
    (s_ConnectionID (cl_Session (tn_client t)) := [])\<rparr>"
  obtain c' where pull:
    "Pull (serve env now base) now2 (tn_client t) (tn_server t) = (Inr pend, c', s2)"
    "linked n m (n' + length pend) (m' + length pend) [] r c' s2" "cl_BaseURL c' = base"
    "s_ConnectionID (cl_Session c') = s_ConnectionID (cl_Session (tn_client t))"
    using linked_pull [OF l(1) base fits m', of env now now2] unfolding s2_def by blast
  have step: "tunnel_step env base i t (Poll now now2) =
      \<lparr>tn_client = c', tn_server = s2, tn_got = tn_got t @ pend, tn_ok = tn_ok t\<rparr>"
    using pull(1) by (simp add: tunnel_step.simps)
  have s2: "sv_io s2 = sv_io (tn_server t)" "sv_gos s2 = sv_gos (tn_server t)"
    "sv_heap s2 = sv_heap (tn_server t)"
    by (simp_all add: s2_def)
  have "\<exists>n n' r. linked n m n' (m' + length pend) [] r c' s2 \<and>
      cs_outbound (sv_heap s2 ! r) = Some h \<and>
      sv_gos s2 ! i = GPump (s_ConnectionID (cl_Session c')) r h"
    using pull(2,4) l(2,3) s2 by auto
  then show ?thesis
    using inv pull(3) s2(1,2) by (simp add: step tunnel_inv_def)
qed

lemma tunnel_run_Cons:
  "tunnel_run env base i t (e # es) = tunnel_run env base i (tunnel_step env base i t e) es"
  by (simp add: tunnel_run_def)

text \<open>Any interleaving of uploads, reads and polls.\<close>

lemma tunnel_run_inv:
  assumes ok: "\<And>io q. env_write_ok env io h q"
  shows "tunnel_inv base i h m m' pend sent got t \<Longrightarrow> list_all event_fits es \<Longrightarrow>
    m + length (uploads es) \<le> seq_bound \<Longrightarrow> m' + length pend + length (chunks es) \<le> seq_bound \<Longrightarrow>
    \<exists>m2 m2' pend2 got2. tunnel_inv base i h m2 m2' pend2 (sent @ concat (uploads es)) got2
        (tunnel_run env base i t es) \<and> got2 @ pend2 = got @ pend @ chunks es \<and>
      m2' + length pend2 = m' + length pend + length (chunks es)"
proof (induction es arbitrary: m m' pend sent got t)
  case Nil
  then show ?case by (auto simp: tunnel_run_def)
next
  case (Cons e es)
  note run = tunnel_run_Cons
  show ?case
  proof (cases e)
    case (Upload now p)
    have "tunnel_inv base i h (Suc m) m' pend (sent @ p) got (tunnel_step env base i t e)"
      using tunnel_upload [OF Cons.prems(1) _ _ ok, of p now] Cons.prems(2,3) Upload by simp
    from Cons.IH [OF this] show ?thesis using Cons.prems Upload by (simp add: run)
  next
    case (Chunk p)
    have "tunnel_inv base i h m m' (pend @ [p]) sent got (tunnel_step env base i t e)"
      using tunnel_chunk [OF Cons.prems(1)] Cons.prems(2) Chunk by simp
    from Cons.IH [OF this] show ?thesis using Cons.prems Chunk by (simp add: run)
  next
    case (Poll now now2)
    have "tunnel_inv base i h m (m' + length pend) [] sent (got @ pend) (tunnel_step env base i t e)"
      using tunnel_poll [OF Cons.prems(1)] Cons.prems(4) Poll by simp
    from Cons.IH [OF this] show ?thesis using Cons.prems Poll by (simp add: run)
  qed
qed

section \<open>Setting up a tunnel\<close>

text \<open>
  Open, push the target, and the three steps of the goroutine up to its read loop: the dial that
  succeeds, the announcement.
\<close>

definition dial_up ::
  "server_env \<Rightarrow> string \<Rightarrow> bytes \<Rightarrow> nanos \<Rightarrow> bytes \<Rightarrow> Client \<Rightarrow> Server \<Rightarrow> tunnel" where
  "dial_up env base a now target c s =
     (let i = length (sv_gos s) in
      case client_Open (env_dh env) (serve env now base) (Some a) now c s of (res1, c1, s1) \<Rightarrow>
      case Push (serve env now base) target c1 s1 of (res2, c2, s2) \<Rightarrow>
        \<lparr>tn_client = c2, tn_server = run_go env i DialOk (run_go env i DialOk s2), tn_got = [],
         tn_ok = (res1 = Inr () \<and> res2 = Inr ())\<rparr>)"

lemma validateTarget_cong:
  "sv_AllowedTargets s = sv_AllowedTargets s' \<Longrightarrow> validateTarget t s = validateTarget t s'"
  unfolding validateTarget_def by (simp only:)

lemma run_go_dial_ok:
  assumes "i < length (sv_gos s)" "sv_gos s ! i = GDial c r target"
    "validateTarget target s = Inr ()"
  shows "run_go env i DialOk s = set_gos i (Some (GConnected c r (sv_dialled s)))
    ((upd_cs r (\<lambda>cs. cs\<lparr>cs_outbound := Some (sv_dialled s), cs_connecting := False\<rparr>) s)
      \<lparr>sv_dialled := sv_dialled s + 1\<rparr>)"
  using assms by (simp add: run_go_eq Let_def)

lemma set_gos_sel [simp]:
  "sv_heap (set_gos i g s) = sv_heap s" "sv_io (set_gos i g s) = sv_io s"
  "sv_conns (set_gos i g s) = sv_conns s" "sv_outbox (set_gos i g s) = sv_outbox s"
  by (simp_all add: set_gos_def)

lemma set_gos_nth [simp]:
  "i < length (sv_gos s) \<Longrightarrow> length (sv_gos (set_gos i (Some g) s)) = length (sv_gos s)"
  "i < length (sv_gos s) \<Longrightarrow> sv_gos (set_gos i (Some g) s) ! i = g"
  by (simp_all add: set_gos_def nth_append)

lemma linked_set_gos [simp]: "linked n m n' m' pend r c (set_gos i g s) = linked n m n' m' pend r c s"
  by (simp add: linked_def)

lemma linked_upd_conn:
  "linked n m n' m' pend r c s \<Longrightarrow>
   linked n m n' m' pend r c ((upd_cs r (\<lambda>cs. cs\<lparr>cs_outbound := ob, cs_connecting := b\<rparr>) s)
     \<lparr>sv_dialled := d\<rparr>)"
  by (simp add: linked_def)

lemma linked_upd_target:
  "linked n m n' m' pend r c s \<Longrightarrow>
   linked n m n' m' pend r c ((upd_cs r (\<lambda>cs. cs\<lparr>cs_connecting := b, cs_targetAddr := tg\<rparr>) s)
     \<lparr>sv_gos := gs\<rparr>)"
  by (simp add: linked_def)

text \<open>The goroutine of a dial that succeeds, up to its read loop.\<close>

lemma dial_announced:
  assumes link: "linked n m n' m' [] r c s" and i: "i < length (sv_gos s)"
    and g: "sv_gos s ! i = GDial (s_ConnectionID (cl_Session c)) r target" and v: "validateTarget target s = Inr ()"
    and base: "cl_BaseURL c = base"
  shows "tunnel_inv base i (sv_dialled s) m m' [bytes_of ''OK CONNECTED''] (written_to (sv_dialled s) (sv_io s)) []
    \<lparr>tn_client = c, tn_server = run_go env i DialOk (run_go env i DialOk s), tn_got = [], tn_ok = True\<rparr>"
proof -
  let ?cid = "s_ConnectionID (cl_Session c)" and ?h = "sv_dialled s"
  have r: "r < length (sv_heap s)" using link by (simp add: linked_def)
  define s3 where "s3 = run_go env i DialOk s"
  have s3: "s3 = set_gos i (Some (GConnected ?cid r ?h))
      ((upd_cs r (\<lambda>cs. cs\<lparr>cs_outbound := Some ?h, cs_connecting := False\<rparr>) s)\<lparr>sv_dialled := ?h + 1\<rparr>)"
    unfolding s3_def by (rule run_go_dial_ok [OF i g v])
  have l3: "linked n m n' m' [] r c s3"
    unfolding s3 linked_set_gos using link by (rule linked_upd_conn)
  have i3: "i < length (sv_gos s3)" "sv_gos s3 ! i = GConnected ?cid r ?h"
    "cs_outbound (sv_heap s3 ! r) = Some ?h" "sv_io s3 = sv_io s"
    using i r by (simp_all add: s3)
  have s4: "run_go env i DialOk s3 =
      set_gos i (Some (GPump ?cid r ?h)) (queueOutgoing ?cid r (bytes_of ''OK CONNECTED'') s3)"
    using i3(1,2) by (simp add: run_go_eq)
  have "linked n m n' m' [bytes_of ''OK CONNECTED''] r c (run_go env i DialOk s3)"
    unfolding s4 linked_set_gos using linked_queue [OF l3, of "bytes_of ''OK CONNECTED''"] by simp
  moreover have "cs_outbound (sv_heap (run_go env i DialOk s3) ! r) = Some ?h"
    "sv_gos (run_go env i DialOk s3) ! i = GPump ?cid r ?h"
    "i < length (sv_gos (run_go env i DialOk s3))" "sv_io (run_go env i DialOk s3) = sv_io s"
    using i3 by (simp_all add: s4 queueOutgoing_outbound)
  ultimately show ?thesis unfolding tunnel_inv_def s3_def [symmetric] using base by auto
qed

lemma tunnel_connect:
  assumes link: "linked n m n' m' [] r c s" and base: "cl_BaseURL c = base"
    and none: "cs_outbound (sv_heap s ! r) = None" "\<not> cs_connecting (sv_heap s ! r)"
    and target: "length target \<le> 65498" "validateTarget (string_of (TrimSpace target)) s = Inr ()"
    and m: "m < seq_bound"
  obtains c2 s2 where "Push (serve env now base) target c s = (Inr (), c2, s2)"
    "tunnel_inv base (length (sv_gos s)) (sv_dialled s) (Suc m) m' [bytes_of ''OK CONNECTED'']
      (written_to (sv_dialled s) (sv_io s)) []
      \<lparr>tn_client = c2, tn_server = run_go env (length (sv_gos s)) DialOk
         (run_go env (length (sv_gos s)) DialOk s2), tn_got = [], tn_ok = True\<rparr>"
    "linked (Suc n) (Suc m) n' m' [] r c2 s2" "cl_BaseURL c2 = base"
proof -
  let ?i = "length (sv_gos s)" and ?h = "sv_dialled s" and ?t = "string_of (TrimSpace target)"
  let ?cid = "s_ConnectionID (cl_Session c)"
  obtain c2 s1 x where push:
    "Push (serve env now base) target c s = (Inr (), c2, forward_all env ?cid r [target] s1)"
    "linked (Suc n) (Suc m) n' m' [] r c2 s1" "cl_BaseURL c2 = base"
    "s_ConnectionID (cl_Session c2) = ?cid" "s1 = upd_cs r (\<lambda>cs. cs\<lparr>cs_sess := x\<rparr>) s"
    using linked_push [OF link base target(1) m, of env now] by blast
  have r: "r < length (sv_heap s)" using link by (simp add: linked_def)
  define s2 where "s2 = (upd_cs r (\<lambda>cs. cs\<lparr>cs_connecting := True, cs_targetAddr := ?t\<rparr>) s1)
    \<lparr>sv_gos := sv_gos s @ [GDial ?cid r ?t]\<rparr>"
  have fw: "forward_all env ?cid r [target] s1 = s2"
    using none r push(5)
    by (simp add: forward_all_def forwardPayload_def dialAndPumpAsync_def s2_def Let_def)
  have l2: "linked (Suc n) (Suc m) n' m' [] r c2 s2"
    unfolding s2_def using push(2) by (rule linked_upd_target)
  have s2: "sv_gos s2 = sv_gos s @ [GDial ?cid r ?t]" "sv_dialled s2 = ?h" "sv_io s2 = sv_io s"
    "sv_AllowedTargets s2 = sv_AllowedTargets s" "length (sv_heap s2) = length (sv_heap s)"
    by (simp_all add: s2_def push(5))
  have i2: "?i < length (sv_gos s2)" "sv_gos s2 ! ?i = GDial ?cid r ?t" by (simp_all add: s2(1))
  have v2: "validateTarget ?t s2 = Inr ()"
    using target(2) validateTarget_cong [OF s2(4)] by simp
  from dial_announced [OF l2 i2(1) _ v2 push(3), of env]
  have "tunnel_inv base ?i ?h (Suc m) m' [bytes_of ''OK CONNECTED''] (written_to ?h (sv_io s)) []
      \<lparr>tn_client = c2, tn_server = run_go env ?i DialOk (run_go env ?i DialOk s2), tn_got = [], tn_ok = True\<rparr>"
    using i2(2) by (simp add: push(4) s2(2,3))
  then show thesis using that [of c2 s2] push(1,3) l2 by (simp add: fw)
qed

lemma dial_up_inv:
  assumes pair: "x25519_pair (env_dh env) a (sv_StaticPriv s)"
    and pub: "cl_ServerStaticPub c = ecdh_PublicKey (env_dh env) (sv_StaticPriv s)"
    and base: "cl_BaseURL c = base" and tok: "cl_Token c \<noteq> []"
    and bind: "fst (TryBind now (cl_Token c) (cl_DeviceID c) (sv_Tokens s)) = BindAccepted"
    and new: "cl_Session c = NewSession t d" and ob: "sv_outbox s (sv_nextConnID s) = []"
    and target: "length target \<le> 65498" "validateTarget (string_of (TrimSpace target)) s = Inr ()"
  shows "tunnel_inv base (length (sv_gos s)) (sv_dialled s) 1 0 [bytes_of ''OK CONNECTED'']
    (written_to (sv_dialled s) (sv_io s)) [] (dial_up env base a now target c s)"
proof -
  obtain tokens where bind': "TryBind now (cl_Token c) (cl_DeviceID c) (sv_Tokens s) =
      (BindAccepted, tokens)"
    using bind by (metis prod.collapse)
  obtain c1 s1 where op:
    "client_Open (env_dh env) (serve env now base) (Some a) now c s = (Inr (), c1, s1)"
    "linked 0 0 0 0 [] (length (sv_heap s)) c1 s1" "cl_BaseURL c1 = base"
    "cs_outbound (sv_heap s1 ! length (sv_heap s)) = None"
    "\<not> cs_connecting (sv_heap s1 ! length (sv_heap s))"
    "sv_gos s1 = sv_gos s" "sv_io s1 = sv_io s" "sv_dialled s1 = sv_dialled s"
    "sv_AllowedTargets s1 = sv_AllowedTargets s"
    using linked_open [OF pair pub base tok bind' new ob, of now] by metis
  have v: "validateTarget (string_of (TrimSpace target)) s1 = Inr ()"
    using target(2) validateTarget_cong [OF op(9)] by simp
  have "(0 :: nat) < seq_bound" by (simp add: seq_bound_def)
  from tunnel_connect [OF op(2,3,4,5) target(1) v this, of env now] obtain c2 s2 where
    "Push (serve env now base) target c1 s1 = (Inr (), c2, s2)"
    "tunnel_inv base (length (sv_gos s)) (sv_dialled s) 1 0 [bytes_of ''OK CONNECTED'']
      (written_to (sv_dialled s) (sv_io s)) []
      \<lparr>tn_client = c2, tn_server = run_go env (length (sv_gos s)) DialOk
         (run_go env (length (sv_gos s)) DialOk s2), tn_got = [], tn_ok = True\<rparr>"
    unfolding op(6-8) One_nat_def by blast
  then show ?thesis by (simp add: dial_up_def op(1) Let_def)
qed

section \<open>A stream with a gap\<close>

text \<open>
  The next frame of the client has counter \<open>k\<close> and sequence number \<open>q + k\<close>; the server misses an
  earlier number. \<open>B\<close> and \<open>seen\<close> are the frames it holds from before and from this epoch.
\<close>

definition stalled ::
  "(nat \<Rightarrow> bytes) \<Rightarrow> nat set \<Rightarrow> nat \<Rightarrow> nat set \<Rightarrow> nat \<Rightarrow> nat \<Rightarrow> Client \<Rightarrow> Server \<Rightarrow> bool" where
  "stalled f B q seen k r c s \<longleftrightarrow>
     (let cs = cl_Session c; ss = cs_sess (sv_heap s ! r) in
      sv_conns s (s_ConnectionID cs) = Some r \<and> r < length (sv_heap s) \<and>
      s_SessionKey cs = s_SessionKey ss \<and> s_ConnectionID cs = s_ConnectionID ss \<and>
      aes_key_ok (s_SessionKey ss) \<and> s_sendCounter cs = word_of_nat k \<and>
      s_sendSequence cs = word_of_nat (q + k) \<and> recv_repr f B q ss seen \<and> finite B \<and>
      seen \<subseteq> {..<k} \<and> mex (frame_set B q seen) < q + k)"

lemma stalled_push:
  assumes st: "stalled f B q seen k r c s" and base: "cl_BaseURL c = base"
    and p: "p = f (q + k)" "length p \<le> 65498" and bound: "q + k < seq_bound"
  obtains c' s' where "Push (serve env now base) p c s = (Inr (), c', s')"
    "stalled f B q (insert k seen) (Suc k) r c' s'" "cl_BaseURL c' = base"
    "sv_io s' = sv_io s" "sv_gos s' = sv_gos s" "sv_outbox s' = sv_outbox s"
proof -
  let ?cs = "cl_Session c" and ?ss = "cs_sess (sv_heap s ! r)"
  let ?w = "out_wire 0 ?cs 0 p"
  let ?s0 = "?cs\<lparr>s_sendCounter := 0, s_sendSequence := word_of_nat q\<rparr>"
  have facts: "sv_conns s (s_ConnectionID ?cs) = Some r" "r < length (sv_heap s)"
    "s_SessionKey ?cs = s_SessionKey ?ss" "s_ConnectionID ?cs = s_ConnectionID ?ss"
    "aes_key_ok (s_SessionKey ?ss)" "s_sendCounter ?cs = word_of_nat k"
    "s_sendSequence ?cs = word_of_nat (q + k)" "recv_repr f B q ?ss seen" "finite B"
    "seen \<subseteq> {..<k}" "mex (frame_set B q seen) < q + k"
    using st by (auto simp: stalled_def Let_def)
  have key: "aes_key_ok (s_SessionKey ?cs)" using facts(3,5) by simp
  have wire: "?w = out_wire 0 ?s0 k p"
    using facts(6,7) by (simp add: out_wire_def out_frame_def Let_def)
  have pe: "peers ?s0 ?ss" using facts(3-5) by (simp add: peers_def)
  have fin: "finite (frame_set B q seen)"
    using facts(9,10) finite_subset [of seen "{..<k}"] by (simp add: frame_set_def)
  have mex: "mex (insert (q + k) (frame_set B q seen)) = mex (frame_set B q seen)"
    using fin facts(11) by (simp add: mex_insert_other)
  have nk: "k \<notin> seen" "\<forall>a \<in> seen. a < k + 64" "\<forall>a \<in> seen. a < 2 ^ 32" "length p < 65536"
    using facts(10) bound p(2) by (auto simp: seq_bound_def)
  obtain x where x: "DecodeIncoming now ?w ?ss =
      (Inr \<lparr>Accepted = True, is_Replay = False, Ready = [], Frame = out_frame 0 ?s0 k p\<rparr>, x)"
    "recv_repr f B q x (insert k seen)" "peers ?s0 x"
    using decode_new [OF pe facts(8) nk(4) p(1) nk(1-3) bound, of now 0] by (auto simp: mex wire)
  have dec: "decode_batch now [?w] ?ss = ([], x)" using x(1) by simp
  have len: "length ?w < 65536" using p(2) key by (simp add: length_out_wire)
  let ?c1 = "c\<lparr>cl_Session := advance 1 ?cs\<rparr>"
  let ?c' = "if ShouldSendRedundant (s_Reconnect (cl_Session ?c1))
      then ?c1\<lparr>cl_Session := (cl_Session ?c1)
        \<lparr>s_Reconnect := MarkRedundantSent (s_Reconnect (cl_Session ?c1))\<rparr>\<rparr> else ?c1"
  let ?s1 = "upd_cs r (\<lambda>cs. cs\<lparr>cs_sess := x\<rparr>) s"
  have push: "Push (serve env now base) p c s = (Inr (), ?c', ?s1)"
    using serve_push [of ?c1 base s r ?w now "[]" x env] base facts(1) len dec
    unfolding Push_wire [OF key] push_loop_once by (simp add: forward_all_def)
  have "stalled f B q (insert k seen) (Suc k) r ?c' ?s1"
    using facts x(2,3) mex
    by (auto simp: stalled_def Let_def peers_def advance_def add.commute add.left_commute)
  from that [OF push this] base show thesis by simp
qed

fun push_all ::
  "'w round_trip \<Rightarrow> bytes list \<Rightarrow> Client \<Rightarrow> 'w \<Rightarrow> (client_error + unit) list \<times> Client \<times> 'w" where
  "push_all rt [] c w = ([], c, w)"
| "push_all rt (p # ps) c w =
     (case Push rt p c w of (res, c1, w1) \<Rightarrow>
        case push_all rt ps c1 w1 of (rs, c2, w2) \<Rightarrow> (res # rs, c2, w2))"

lemma stalled_push_all:
  "stalled f B q seen k r c s \<Longrightarrow> cl_BaseURL c = base \<Longrightarrow>
   (\<And>i. i < length ps \<Longrightarrow> f (q + k + i) = ps ! i) \<Longrightarrow> list_all (\<lambda>p. length p \<le> 65498) ps \<Longrightarrow>
   q + k + length ps \<le> seq_bound \<Longrightarrow>
   case push_all (serve env now base) ps c s of (rs, c', s') \<Rightarrow>
     rs = replicate (length ps) (Inr ()) \<and> sv_io s' = sv_io s \<and> sv_gos s' = sv_gos s \<and>
     sv_outbox s' = sv_outbox s"
proof (induction ps arbitrary: seen k c s)
  case (Cons p ps)
  have p: "p = f (q + k)" "length p \<le> 65498" "q + k < seq_bound"
    using Cons.prems(3) [of 0] Cons.prems(4,5) by simp_all
  obtain c1 s1 where one: "Push (serve env now base) p c s = (Inr (), c1, s1)"
    "stalled f B q (insert k seen) (Suc k) r c1 s1" "cl_BaseURL c1 = base"
    "sv_io s1 = sv_io s" "sv_gos s1 = sv_gos s" "sv_outbox s1 = sv_outbox s"
    using stalled_push [OF Cons.prems(1,2) p, of env now] by blast
  have "f (q + Suc k + i) = ps ! i" if "i < length ps" for i
    using Cons.prems(3) [of "Suc i"] that by simp
  then show ?case
    using Cons.IH [OF one(2,3)] Cons.prems(4,5) one by (auto split: prod.splits)
qed simp

text \<open>The two ways into a gap: a push whose request failed, a reconnect that found a new server.\<close>

lemma buffer_repr_any: "buffer_repr f b {..<m} \<Longrightarrow> buffer_repr g b {..<m}"
  by (subst buffer_repr_complete [of _ _ _ f]) assumption

lemma failed_push_stalled:
  assumes link: "linked n m n' m' pend r c s" and fail: "\<And>rq. rt rq w = (Inl Unreachable, w1)"
    and m: "m < seq_bound"
  obtains c' where "Push rt p c w = (Inl (ErrRequest Unreachable), c', w1)"
    "stalled f {..<m - n} (m - n) {..<n} (Suc n) r c' s" "cl_BaseURL c' = cl_BaseURL c"
proof -
  let ?cs = "cl_Session c" and ?ss = "cs_sess (sv_heap s ! r)"
  have key: "aes_key_ok (s_SessionKey ?cs)" using link by (rule linked_key)
  have st: "in_step n m ?cs ?ss" and conn: "sv_conns s (s_ConnectionID ?cs) = Some r"
    and r: "r < length (sv_heap s)"
    using link by (simp_all add: linked_def)
  have nm: "n \<le> m" using st by (simp add: in_step_def)
  have fs: "frame_set {..<m - n} (m - n) {..<n} = {..<m}"
  proof -
    have "(+) (m - n) ` {..<n} = {m - n..<m}"
      using nm by (simp only: lessThan_atLeast0 image_add_atLeastLessThan) simp
    then show ?thesis using nm by (auto simp: frame_set_def)
  qed
  let ?c' = "c\<lparr>cl_Session := advance 1 ?cs\<rparr>"
  have push: "Push rt p c w = (Inl (ErrRequest Unreachable), ?c', w1)"
    by (simp add: Push_wire [OF key] push_loop_once doPush_def Let_def fail)
  have "recv_repr f {..<m - n} (m - n) ?ss {..<n}"
    using st buffer_repr_any by (auto simp: recv_repr_def fs in_step_def)
  moreover have "word_of_nat m + 1 = (word_of_nat (m - n + Suc n) :: u32)" using nm by simp
  ultimately have "stalled f {..<m - n} (m - n) {..<n} (Suc n) r ?c' s"
    using st conn r nm by (auto simp: stalled_def Let_def fs in_step_def advance_def)
  from that [OF push this] show thesis by simp
qed

lemma restarted_server_stalled:
  assumes pair: "x25519_pair (env_dh env) a (sv_StaticPriv s)"
    and pub: "cl_ServerStaticPub c = ecdh_PublicKey (env_dh env) (sv_StaticPriv s)"
    and base: "cl_BaseURL c = base" and tok: "cl_Token c \<noteq> []"
    and bind: "TryBind now (cl_Token c) (cl_DeviceID c) (sv_Tokens s) = (BindAccepted, tokens)"
    and cid: "s_ConnectionID (cl_Session c) \<noteq> 0"
    and lost: "sv_conns s (s_ConnectionID (cl_Session c)) = None"
    and m: "s_sendSequence (cl_Session c) = word_of_nat m" "0 < m"
  obtains c' s' where
    "client_Reconnect (env_dh env) (serve env now base) (Some a) now2 c s = (Inr (), c', s')"
    "stalled f {} m {} 0 (length (sv_heap s)) c' s'" "cl_BaseURL c' = base"
    "\<not> keyConfirmed (s_Reconnect (cl_Session c'))"
    "s_ConnectionID (cl_Session c') = sv_nextConnID s" "sv_io s' = sv_io s" "sv_gos s' = sv_gos s"
    "sv_outbox s' = sv_outbox s"
proof -
  let ?cs = "cl_Session c" and ?r = "length (sv_heap s)" and ?new = "sv_nextConnID s"
  let ?c1 = "c\<lparr>cl_Session := ?cs\<lparr>s_Reconnect := StartGrace now2 (s_Reconnect ?cs)\<rparr>\<rparr>"
  let ?entry = "\<lparr>cs_sess = NewSession now (cl_DeviceID c), cs_outbound = None,
    cs_connecting = False, cs_targetAddr = []\<rparr>"
  let ?s1 = "s\<lparr>sv_Tokens := Touch now (cl_Token c) tokens, sv_nextConnID := ?new + 1,
    sv_heap := sv_heap s @ [?entry], sv_conns := (sv_conns s)(?new \<mapsto> ?r)\<rparr>"
  have opened: "open_conn now (hello ?c1 (s_ConnectionID ?cs))
      (s\<lparr>sv_Tokens := Touch now (cl_Token ?c1) tokens\<rparr>) = ((?new, ?r, False), ?s1)"
    using lost by (simp add: open_conn_def find_conn_def hello_def Let_def)
  from serve_open [OF pair _ _ _ _ opened, of base now2] obtain key where
    key: "length key = 32" and run:
    "doHandshake (env_dh env) (serve env now base) (Some a) now2 (s_ConnectionID ?cs) ?c1 s =
      (Inr (), ?c1\<lparr>cl_Session := CompleteHandshake now2 ?new key (cl_Session ?c1)\<rparr>,
       upd_cs ?r (\<lambda>cs. cs\<lparr>cs_sess := CompleteHandshake now ?new key (cs_sess cs)\<rparr>) ?s1)"
    using pub base tok bind by (auto simp: Let_def)
  let ?c' = "?c1\<lparr>cl_Session := CompleteHandshake now2 ?new key (cl_Session ?c1)\<rparr>"
  define s' where
    "s' = upd_cs ?r (\<lambda>cs. cs\<lparr>cs_sess := CompleteHandshake now ?new key (cs_sess cs)\<rparr>) ?s1"
  have heap: "sv_heap s' ! ?r = ?entry\<lparr>cs_sess := connected now (cl_DeviceID c) ?new key\<rparr>"
    "length (sv_heap s') = Suc ?r" "sv_conns s' = (sv_conns s)(?new \<mapsto> ?r)"
    by (simp_all add: s'_def connected_def)
  have "recv_repr f {} m (connected now (cl_DeviceID c) ?new key) {}"
    using connected_recv [of f now "cl_DeviceID c" ?new key]
    by (simp add: recv_repr_def frame_set_def)
  then have "stalled f {} m {} 0 ?r ?c' s'"
    using m key by (simp add: stalled_def Let_def heap CompleteHandshake_def aes_key_ok_32)
  moreover have "client_Reconnect (env_dh env) (serve env now base) (Some a) now2 c s = (Inr (), ?c', s')"
    using run cid by (simp add: client_Reconnect_def Let_def s'_def)
  moreover have "sv_io s' = sv_io s" "sv_gos s' = sv_gos s" "sv_outbox s' = sv_outbox s"
    by (simp_all add: s'_def)
  ultimately show thesis
    using that base by (simp add: CompleteHandshake_def StartGrace_def)
qed

section \<open>Concrete sides\<close>

text \<open>The sides of the instances below: a server with one issued token, and a client for it.\<close>

definition sample_origin :: Server where
  "sample_origin = server_New (replicate 32 5) (RegisterToken ''tok'' NewTokenStore)"

definition sample_client :: "u64 \<Rightarrow> Client" where
  "sample_client d = client_New 0 ''https://o'' (ecdh_PublicKey (map2 (+)) (replicate 32 5)) d ''tok''"

lemma sample_pair: "x25519_pair (env_dh sample_env) (replicate 32 3) (replicate 32 5)"
  by (simp add: sample_env_def) code_simp

lemma sample_writes: "env_write_ok sample_env io h p"
  by (simp add: sample_env_def)

text \<open>A tunnel in operation, as the server and client of connection 1 see it.\<close>

definition sample_tunnel_server :: Server where
  "sample_tunnel_server = (sample_server (Some 4) [GPump 1 0 4])
     \<lparr>sv_StaticPriv := replicate 32 5, sv_Tokens := RegisterToken ''tok'' NewTokenStore\<rparr>"

definition sample_tunnel_client :: Client where
  "sample_tunnel_client = (sample_client 7)\<lparr>cl_Session := connected 0 7 1 (replicate 32 5)\<rparr>"

lemma sample_linked: "linked 0 0 0 0 [] 0 sample_tunnel_client sample_tunnel_server"
proof -
  let ?s = "connected 0 7 1 (replicate 32 5)"
  have "in_step 0 0 ?s ?s"
    using window_repr_Reset [OF window_repr_New]
    by (simp add: in_step_def aes_key_ok_def connected_def CompleteHandshake_def NewSession_def
        buffer_repr_New)
  then show ?thesis
    by (auto simp: linked_def sample_tunnel_client_def sample_tunnel_server_def sample_server_def
        server_New_def wires_of_def same_sender_def advance_def intro!: exI [of _ ?s])
qed

lemma sample_tunnel_inv:
  "tunnel_inv ''https://o'' 0 4 0 0 [] [] []
    \<lparr>tn_client = sample_tunnel_client, tn_server = sample_tunnel_server, tn_got = [], tn_ok = True\<rparr>"
  unfolding tunnel_inv_def
  using sample_linked
  by (auto simp: sample_tunnel_client_def sample_tunnel_server_def sample_server_def server_New_def
      sample_client_def client_New_def intro!: exI [of _ "0 :: nat"])

end
