(* ===== verification/VpnEndToEnd.thy ===== *)
theory VpnEndToEnd
  imports VpnDNS EndToEnd
begin

text \<open>
  The VPN tunnel against the server: a world that is the server with a clock, where a round trip
  takes a millisecond and the goroutines of the server take the next steps of a schedule while the
  tunnel sleeps. What a flow relays, what it loses, and how a DNS query is answered.
\<close>

section \<open>The world of the origin\<close>

record origin_world =
  ow_server :: Server
  ow_clock :: nanos
  ow_sched :: "(nat \<times> go_input) list list"

definition run_batch :: "server_env \<Rightarrow> (nat \<times> go_input) list \<Rightarrow> Server \<Rightarrow> Server" where
  "run_batch senv batch s = fold (\<lambda>(i, inp). run_go senv i inp) batch s"

definition origin_sleep :: "server_env \<Rightarrow> nanos \<Rightarrow> origin_world \<Rightarrow> origin_world" where
  "origin_sleep senv d w =
     (case ow_sched w of
        [] \<Rightarrow> w\<lparr>ow_clock := ow_clock w + d\<rparr>
      | batch # rest \<Rightarrow>
          w\<lparr>ow_server := run_batch senv batch (ow_server w), ow_clock := ow_clock w + d,
            ow_sched := rest\<rparr>)"

text \<open>One request: the server's answer, a millisecond later.\<close>

definition after_request :: "origin_world \<Rightarrow> Server \<Rightarrow> origin_world" where
  "after_request w s = w\<lparr>ow_server := s, ow_clock := ow_clock w + millisecond\<rparr>"

definition origin_rt :: "server_env \<Rightarrow> string \<Rightarrow> origin_world round_trip" where
  "origin_rt senv base rq w =
     (case serve senv (ow_clock w) base rq (ow_server w) of (res, s) \<Rightarrow> (res, after_request w s))"

definition origin_env :: "server_env \<Rightarrow> string \<Rightarrow> bytes \<Rightarrow> origin_world client_env" where
  "origin_env senv base a =
     \<lparr>ce_dh = env_dh senv, ce_rt = origin_rt senv base, ce_rand = (\<lambda>w. (Some a, w)),
      ce_clock = ow_clock, ce_sleep = origin_sleep senv\<rparr>"

lemma origin_env_sel [simp]:
  "ce_dh (origin_env senv base a) = env_dh senv" "ce_rt (origin_env senv base a) = origin_rt senv base"
  "ce_rand (origin_env senv base a) w = (Some a, w)" "ce_clock (origin_env senv base a) = ow_clock"
  "ce_sleep (origin_env senv base a) = origin_sleep senv"
  by (simp_all add: origin_env_def)

lemma after_request_sel [simp]:
  "ow_server (after_request w s) = s" "ow_clock (after_request w s) = ow_clock w + millisecond"
  "ow_sched (after_request w s) = ow_sched w"
  by (simp_all add: after_request_def)

interpretation origin: timed "origin_env senv base a" millisecond
  by unfold_locales (simp_all add: origin_rt_def origin_sleep_def split: prod.split list.split)

text \<open>An operation of the client in this world is the operation against the server.\<close>

lemma origin_pull:
  "pull_at (origin_env senv base a) c w =
     (case Pull (serve senv (ow_clock w) base) (ow_clock w) c (ow_server w) of
        (res, c', s) \<Rightarrow> (res, c', after_request w s))"
  by (simp add: pull_at_def Pull_def Let_def origin_rt_def split: sum.split prod.split option.split)

lemma origin_push:
  assumes "aes_key_ok (s_SessionKey (cl_Session c))"
  shows "push_at (origin_env senv base a) p c w =
     (case Push (serve senv (ow_clock w) base) p c (ow_server w) of
        (res, c', s) \<Rightarrow> (res, c', after_request w s))"
  unfolding push_at_def Push_wire [OF assms] push_loop_once doPush_def
  by (simp add: Let_def origin_rt_def split: sum.split prod.split)

lemma origin_open:
  assumes "client_Open (env_dh senv) (serve senv (ow_clock w) base) (Some a) (ow_clock w) c
    (ow_server w) = (Inr (), c', s')"
  shows "open_at (origin_env senv base a) c w = (Inr (), c', after_request w s')"
proof -
  let ?rt = "serve senv (ow_clock w) base"
  have "origin_rt senv base rq w =
      (fst (?rt rq (ow_server w)), after_request w (snd (?rt rq (ow_server w))))" for rq
    by (simp add: origin_rt_def split_beta)
  from doHandshake_lift [where rt = ?rt and rt' = "origin_rt senv base" and w = "ow_server w"
      and w' = w and g = "after_request w", OF this] assms
  show ?thesis by (simp add: open_at_def client_Open_def)
qed

section \<open>A session that is up\<close>

text \<open>
  The client \<open>c\<close> and the server \<open>s\<close> with \<open>m\<close> frames up and \<open>m'\<close> down so far: goroutine \<open>i\<close> reads
  socket \<open>h\<close>, to which \<open>sent\<close> was written, and the payloads \<open>pend\<close> wait for a poll.
\<close>

definition up ::
  "string \<Rightarrow> nat \<Rightarrow> nat \<Rightarrow> nat \<Rightarrow> nat \<Rightarrow> bytes list \<Rightarrow> bytes \<Rightarrow> Client \<Rightarrow> Server \<Rightarrow> bool" where
  "up base i h m m' pend sent c s \<longleftrightarrow>
     tunnel_inv base i h m m' pend sent [] \<lparr>tn_client = c, tn_server = s, tn_got = [], tn_ok = True\<rparr>"

lemma up_written: "up base i h m m' pend sent c s \<Longrightarrow> written_to h (sv_io s) = sent"
  by (simp add: up_def tunnel_inv_def)

lemma up_key: "up base i h m m' pend sent c s \<Longrightarrow> aes_key_ok (s_SessionKey (cl_Session c))"
  by (auto simp: up_def tunnel_inv_def intro: linked_key)

lemma up_of_inv:
  "tunnel_inv base i h m m' pend sent got t \<Longrightarrow> up base i h m m' pend sent (tn_client t) (tn_server t)"
  by (simp add: up_def tunnel_inv_def)

lemma up_push:
  assumes u: "up base i h m m' pend sent c s" and p: "length p \<le> 65498" and m: "m < seq_bound"
    and ok: "\<And>io q. env_write_ok env io h q"
  obtains c' s' where "Push (serve env now base) p c s = (Inr (), c', s')"
    "up base i h (Suc m) m' pend (sent @ p) c' s'"
proof -
  let ?t = "\<lparr>tn_client = c, tn_server = s, tn_got = [], tn_ok = True\<rparr>"
  obtain res c' s' where push: "Push (serve env now base) p c s = (res, c', s')" by (metis prod_cases3)
  have "tunnel_inv base i h (Suc m) m' pend (sent @ p) [] (tunnel_step env base i ?t (Upload now p))"
    using tunnel_upload [OF u [unfolded up_def] p m ok] by simp
  moreover have "tunnel_step env base i ?t (Upload now p) =
      \<lparr>tn_client = c', tn_server = s', tn_got = [], tn_ok = (res = Inr ())\<rparr>"
    by (simp add: tunnel_step.simps push)
  ultimately show thesis using that push by (auto simp: up_def tunnel_inv_def)
qed

lemma up_read:
  assumes u: "up base i h m m' pend sent c s" and p: "0 < length p" "length p \<le> 65498"
  shows "up base i h m m' (pend @ [p]) sent c (run_go env i (ReadResult p False) s)"
  using tunnel_chunk [OF u [unfolded up_def] p] by (simp add: up_def tunnel_step.simps)

lemma up_pull:
  assumes u: "up base i h m m' pend sent c s" and m': "m' + length pend \<le> seq_bound"
  obtains c' s' where "Pull (serve env now base) now2 c s = (Inr pend, c', s')"
    "up base i h m (m' + length pend) [] sent c' s'"
proof -
  let ?t = "\<lparr>tn_client = c, tn_server = s, tn_got = [], tn_ok = True\<rparr>"
  have inv: "tunnel_inv base i h m (m' + length pend) [] sent pend
      (tunnel_step env base i ?t (Poll now now2))"
    using tunnel_poll [OF u [unfolded up_def] m'] by simp
  obtain res c' s' where pull: "Pull (serve env now base) now2 c s = (res, c', s')"
    by (metis prod_cases3)
  have "res = Inr pend"
    using inv by (cases res) (simp_all add: tunnel_step.simps pull tunnel_inv_def)
  with inv pull have "up base i h m (m' + length pend) [] sent c' s'"
    by (auto dest: up_of_inv simp: tunnel_step.simps)
  from that [OF _ this] pull \<open>res = Inr pend\<close> show thesis by simp
qed

lemma up_reads:
  "up base i h m m' pend sent c s \<Longrightarrow> list_all (\<lambda>p. 0 < length p \<and> length p \<le> 65498) ps \<Longrightarrow>
   up base i h m m' (pend @ ps) sent c
     (run_batch env (map (\<lambda>p. (i, ReadResult p False)) ps) s)"
proof (induction ps arbitrary: pend s)
  case (Cons p ps)
  have "up base i h m m' (pend @ [p]) sent c (run_go env i (ReadResult p False) s)"
    using up_read [OF Cons.prems(1)] Cons.prems(2) by simp
  from Cons.IH [OF this] show ?case using Cons.prems(2) by (simp add: run_batch_def)
qed (simp add: run_batch_def)

text \<open>A poll with nothing to bring changes neither side.\<close>

lemma idle_pull:
  assumes "linked n m n' m' [] r c s" "cl_BaseURL c = base"
  shows "Pull (serve env now base) now2 c s = (Inr [], c, s)"
proof -
  have "sv_conns s (s_ConnectionID (cl_Session c)) = Some r"
    "sv_outbox s (s_ConnectionID (cl_Session c)) = []"
    using assms(1) by (auto simp: linked_def wires_of_def)
  then show ?thesis
    using serve_pull [of c base s r now2 "[]" "cl_Session c" env now] assms(2)
    by (simp add: fun_upd_idem)
qed

section \<open>Waiting for the dial\<close>

lemma run_batch_Cons: "run_batch env ((i, x) # es) s = run_batch env es (run_go env i x s)"
  by (simp add: run_batch_def)

lemma run_batch_Nil [simp]: "run_batch env [] s = s"
  by (simp add: run_batch_def)

lemma idle_poll:
  assumes "linked n m n' m' [] r c (ow_server w)" "cl_BaseURL c = base"
  shows "pull_at (origin_env senv base a) c w = (Inr [], c, after_request w (ow_server w))"
  by (simp add: origin_pull idle_pull [OF assms])

lemma sleep_scheduled:
  "ow_sched w = batch # rest \<Longrightarrow> origin_sleep senv d w =
   w\<lparr>ow_server := run_batch senv batch (ow_server w), ow_clock := ow_clock w + d, ow_sched := rest\<rparr>"
  by (simp add: origin_sleep_def)

lemma wait_idle:
  "linked n m n' m' [] r c (ow_server w) \<Longrightarrow> cl_BaseURL c = base \<Longrightarrow>
   ow_sched w = replicate k [] @ rest \<Longrightarrow>
   \<exists>t. wait_loop (origin_env senv base a) (k + j) c w =
     wait_loop (origin_env senv base a) j c (w\<lparr>ow_clock := t, ow_sched := rest\<rparr>)"
proof (induction k arbitrary: w)
  case 0
  have "w = w\<lparr>ow_clock := ow_clock w, ow_sched := rest\<rparr>" using 0(3) by simp
  then show ?case by (metis add_0)
next
  case (Suc k)
  let ?w = "after_request w (ow_server w)"
  have sched: "ow_sched ?w = [] # replicate k [] @ rest" using Suc.prems(3) by simp
  let ?w2 = "?w\<lparr>ow_server := run_batch senv [] (ow_server ?w), ow_clock := ow_clock ?w + 300 * millisecond,
    ow_sched := replicate k [] @ rest\<rparr>"
  have "wait_loop (origin_env senv base a) (Suc k + j) c w = wait_loop (origin_env senv base a) (k + j) c ?w2"
    using idle_poll [OF Suc.prems(1,2), of senv a] sleep_scheduled [OF sched] by simp
  moreover have "linked n m n' m' [] r c (ow_server ?w2)" using Suc.prems(1) by simp
  ultimately show ?case
    using Suc.IH [of ?w2] Suc.prems(2) by (simp add: after_request_def)
qed

section \<open>The setup of a flow\<close>

definition dial_and_reads :: "nat \<Rightarrow> bytes list \<Rightarrow> (nat \<times> go_input) list" where
  "dial_and_reads i ps = (i, DialOk) # (i, DialOk) # map (\<lambda>p. (i, ReadResult p False)) ps"

lemma wait_for_dial:
  assumes linked: "linked n m n' m' [] r c (ow_server w)" and base: "cl_BaseURL c = base"
    and dialled: "tunnel_inv base i h m m' [bytes_of ''OK CONNECTED''] sent []
      \<lparr>tn_client = c, tn_server = run_go senv i DialOk (run_go senv i DialOk (ow_server w)),
       tn_got = [], tn_ok = True\<rparr>"
    and sched: "ow_sched w = replicate k [] @ dial_and_reads i ps # rest" and k: "k < 49"
    and ps: "list_all (\<lambda>p. 0 < length p \<and> length p \<le> 65498) ps"
    and room: "m' + 1 + length ps \<le> seq_bound"
  obtains c' w' where "waitForConnected (origin_env senv base a) c w = (True, c', w')"
    "up base i h m (m' + 1 + length ps) [] sent c' (ow_server w')" "ow_sched w' = rest"
proof -
  define j where "j = 48 - k"
  then have j: "50 = k + Suc (Suc j)" using k by arith
  obtain t where t: "waitForConnected (origin_env senv base a) c w =
      wait_loop (origin_env senv base a) (Suc (Suc j)) c
        (w\<lparr>ow_clock := t, ow_sched := dial_and_reads i ps # rest\<rparr>)"
    using wait_idle [OF linked base sched, of senv a "Suc (Suc j)"] j
    by (auto simp: waitForConnected_def)
  let ?w1 = "w\<lparr>ow_clock := t, ow_sched := dial_and_reads i ps # rest\<rparr>"
  define s where "s = run_batch senv (dial_and_reads i ps) (ow_server w)"
  let ?w2 = "?w1\<lparr>ow_server := s, ow_clock := t + millisecond + 300 * millisecond, ow_sched := rest\<rparr>"
  have "up base i h m m' ([bytes_of ''OK CONNECTED''] @ ps) sent c s"
    unfolding s_def dial_and_reads_def run_batch_Cons
    using dialled ps by (intro up_reads) (simp add: up_def)
  moreover have "m' + length ([bytes_of ''OK CONNECTED''] @ ps) \<le> seq_bound" using room by simp
  ultimately obtain c' s' where pull:
    "Pull (serve senv (ow_clock ?w2) base) (ow_clock ?w2) c s = (Inr ([bytes_of ''OK CONNECTED''] @ ps), c', s')"
    "up base i h m (m' + length ([bytes_of ''OK CONNECTED''] @ ps)) [] sent c' s'"
    by (rule up_pull)
  have "wait_loop (origin_env senv base a) (Suc (Suc j)) c ?w1 =
      wait_loop (origin_env senv base a) (Suc j) c ?w2"
    using idle_poll [of n m n' m' r c ?w1 base senv a] linked base
      sleep_scheduled [of "after_request ?w1 (ow_server w)" "dial_and_reads i ps" rest senv "300 * millisecond"]
    by (simp add: s_def after_request_def)
  also have "\<dots> = (True, c', after_request ?w2 s')"
    using pull(1) by (simp add: origin_pull scan_confirmed del: scan_payloads.simps)
  finally show thesis using that t pull(2) by simp
qed

text \<open>The configuration names the server's key and a device, and the token is free for it.\<close>

definition flow_allowed :: "server_env \<Rightarrow> bytes \<Rightarrow> Config \<Rightarrow> nanos \<Rightarrow> Server \<Rightarrow> bool" where
  "flow_allowed senv a cfg now s \<longleftrightarrow>
     x25519_pair (env_dh senv) a (sv_StaticPriv s) \<and>
     hex_DecodeString (cfg_ServerPubHex cfg) = Some (ecdh_PublicKey (env_dh senv) (sv_StaticPriv s)) \<and>
     length (ecdh_PublicKey (env_dh senv) (sv_StaticPriv s)) = 32 \<and>
     (case hex_DecodeString (cfg_DeviceIDHex cfg) of None \<Rightarrow> False
      | Some dev \<Rightarrow> length dev = 8 \<and>
          fst (TryBind now (cfg_Token cfg) (get64 dev) (sv_Tokens s)) = BindAccepted) \<and>
     cfg_Token cfg \<noteq> [] \<and> sv_outbox s (sv_nextConnID s) = []"

text \<open>The handshake of a flow.\<close>

lemma flow_opens:
  assumes ok: "flow_allowed senv a cfg now s"
  obtains c c1 s1 where
    "setup_client (cfg_BaseURL cfg) (cfg_ServerPubHex cfg) (cfg_DeviceIDHex cfg) (cfg_Token cfg) now = Inr c"
    "client_Open (env_dh senv) (serve senv now (cfg_BaseURL cfg)) (Some a) now c s = (Inr (), c1, s1)"
    "linked 0 0 0 0 [] (length (sv_heap s)) c1 s1" "cl_BaseURL c1 = cfg_BaseURL cfg"
    "cs_outbound (sv_heap s1 ! length (sv_heap s)) = None" "\<not> cs_connecting (sv_heap s1 ! length (sv_heap s))"
    "sv_gos s1 = sv_gos s" "sv_io s1 = sv_io s" "sv_dialled s1 = sv_dialled s"
    "sv_AllowedTargets s1 = sv_AllowedTargets s"
proof -
  let ?base = "cfg_BaseURL cfg"
  obtain dev where dev: "hex_DecodeString (cfg_DeviceIDHex cfg) = Some dev" "length dev = 8"
    "fst (TryBind now (cfg_Token cfg) (get64 dev) (sv_Tokens s)) = BindAccepted"
    using ok by (auto simp: flow_allowed_def split: option.splits)
  note ok' = ok [unfolded flow_allowed_def]
  define c where "c = client_New now ?base (ecdh_PublicKey (env_dh senv) (sv_StaticPriv s)) (get64 dev) (cfg_Token cfg)"
  have conf: "setup_client ?base (cfg_ServerPubHex cfg) (cfg_DeviceIDHex cfg) (cfg_Token cfg) now = Inr c"
    using ok' dev by (simp add: setup_client_Inr c_def)
  have c: "cl_ServerStaticPub c = ecdh_PublicKey (env_dh senv) (sv_StaticPriv s)" "cl_BaseURL c = ?base"
    "cl_Token c = cfg_Token cfg" "cl_DeviceID c = get64 dev" "cl_Session c = NewSession now (get64 dev)"
    by (simp_all add: c_def client_New_def)
  obtain tokens where bind: "TryBind now (cl_Token c) (cl_DeviceID c) (sv_Tokens s) = (BindAccepted, tokens)"
    using dev(3) c by (metis prod.collapse)
  have pre: "x25519_pair (env_dh senv) a (sv_StaticPriv s)" "cl_Token c \<noteq> []"
    "sv_outbox s (sv_nextConnID s) = []"
    using ok' c(3) by simp_all
  show thesis
    using linked_open [OF pre(1) c(1,2) pre(2) bind c(5) pre(3), of now] that [OF conf] by metis
qed

lemma connect_flow_up:
  assumes ok: "flow_allowed senv a cfg (ow_clock w) (ow_server w)"
    and target: "length target \<le> 65498"
      "validateTarget (string_of (TrimSpace (bytes_of target))) (ow_server w) = Inr ()"
    and sched: "ow_sched w =
      replicate k [] @ dial_and_reads (length (sv_gos (ow_server w))) ps # rest" and k: "k < 49"
    and ps: "list_all (\<lambda>p. 0 < length p \<and> length p \<le> 65498) ps" and room: "1 + length ps \<le> seq_bound"
  obtains c' w' where
    "connect_flow (origin_env senv (cfg_BaseURL cfg) a) cfg target w = (Inr c', w')"
    "up (cfg_BaseURL cfg) (length (sv_gos (ow_server w))) (sv_dialled (ow_server w)) 1 (1 + length ps) []
      (written_to (sv_dialled (ow_server w)) (sv_io (ow_server w))) c' (ow_server w')"
    "ow_sched w' = rest"
proof -
  let ?s = "ow_server w" and ?base = "cfg_BaseURL cfg" and ?env = "origin_env senv (cfg_BaseURL cfg) a"
  obtain c c1 s1 where op:
    "setup_client ?base (cfg_ServerPubHex cfg) (cfg_DeviceIDHex cfg) (cfg_Token cfg) (ow_clock w) = Inr c"
    "client_Open (env_dh senv) (serve senv (ow_clock w) ?base) (Some a) (ow_clock w) c ?s = (Inr (), c1, s1)"
    "linked 0 0 0 0 [] (length (sv_heap ?s)) c1 s1" "cl_BaseURL c1 = ?base"
    "cs_outbound (sv_heap s1 ! length (sv_heap ?s)) = None"
    "\<not> cs_connecting (sv_heap s1 ! length (sv_heap ?s))"
    "sv_gos s1 = sv_gos ?s" "sv_io s1 = sv_io ?s" "sv_dialled s1 = sv_dialled ?s"
    "sv_AllowedTargets s1 = sv_AllowedTargets ?s"
    using flow_opens [OF ok] by metis
  have v: "validateTarget (string_of (TrimSpace (bytes_of target))) s1 = Inr ()"
    using target(2) validateTarget_cong [OF op(10)] by simp
  let ?w1 = "after_request w s1"
  have "(0 :: nat) < seq_bound" "length (bytes_of target) \<le> 65498"
    using target(1) by (simp_all add: seq_bound_def)
  from tunnel_connect [OF op(3,4,5,6) this(2) v this(1), of senv "ow_clock ?w1"]
  obtain c2 s2 where push:
    "Push (serve senv (ow_clock ?w1) ?base) (bytes_of target) c1 s1 = (Inr (), c2, s2)"
    "tunnel_inv ?base (length (sv_gos ?s)) (sv_dialled ?s) 1 0 [bytes_of ''OK CONNECTED'']
      (written_to (sv_dialled ?s) (sv_io ?s)) []
      \<lparr>tn_client = c2, tn_server = run_go senv (length (sv_gos ?s)) DialOk
         (run_go senv (length (sv_gos ?s)) DialOk s2), tn_got = [], tn_ok = True\<rparr>"
    "linked 1 1 0 0 [] (length (sv_heap ?s)) c2 s2" "cl_BaseURL c2 = ?base"
    unfolding op(7-9) One_nat_def by blast
  let ?w2 = "after_request ?w1 s2"
  have room': "0 + 1 + length ps \<le> seq_bound" using room by simp
  have "linked 1 1 0 0 [] (length (sv_heap ?s)) c2 (ow_server ?w2)"
    "tunnel_inv ?base (length (sv_gos ?s)) (sv_dialled ?s) 1 0 [bytes_of ''OK CONNECTED'']
      (written_to (sv_dialled ?s) (sv_io ?s)) []
      \<lparr>tn_client = c2, tn_server = run_go senv (length (sv_gos ?s)) DialOk
         (run_go senv (length (sv_gos ?s)) DialOk (ow_server ?w2)), tn_got = [], tn_ok = True\<rparr>"
    "ow_sched ?w2 = replicate k [] @ dial_and_reads (length (sv_gos ?s)) ps # rest"
    using push(2,3) sched by simp_all
  from wait_for_dial [OF this(1) push(4) this(2,3) k ps room'] obtain c3 w3 where wait:
    "waitForConnected ?env c2 ?w2 = (True, c3, w3)"
    "up ?base (length (sv_gos ?s)) (sv_dialled ?s) 1 (0 + 1 + length ps) []
      (written_to (sv_dialled ?s) (sv_io ?s)) c3 (ow_server w3)" "ow_sched w3 = rest"
    by blast
  have "connect_flow ?env cfg target w = (Inr c3, w3)"
    using op(1) origin_open [OF op(2)] push(1) wait(1) linked_key [OF op(3)]
    by (simp add: connect_flow_def origin_push)
  then show thesis using that wait(2,3) by simp
qed

section \<open>The pumps of a flow\<close>

text \<open>The rounds of a flow, interleaved with what the server reads from the socket.\<close>

datatype relay_event = FlowEv flow_event | SocketRead bytes

fun relay_step ::
  "server_env \<Rightarrow> string \<Rightarrow> bytes \<Rightarrow> (bytes list \<Rightarrow> bytes \<Rightarrow> bool) \<Rightarrow> nat \<Rightarrow> origin_world flow \<Rightarrow>
   relay_event \<Rightarrow> origin_world flow" where
  "relay_step senv base a wr i f (FlowEv e) = flow_step (origin_env senv base a) wr f e"
| "relay_step senv base a wr i f (SocketRead p) =
     f\<lparr>fl_world := (fl_world f)\<lparr>ow_server :=
         run_go senv i (ReadResult p False) (ow_server (fl_world f))\<rparr>\<rparr>"

fun app_reads :: "relay_event list \<Rightarrow> bytes list" where
  "app_reads [] = []"
| "app_reads (FlowEv (AppRead p err) # es) = (if length p > 0 then [p] else []) @ app_reads es"
| "app_reads (e # es) = app_reads es"

fun socket_reads :: "relay_event list \<Rightarrow> bytes list" where
  "socket_reads [] = []"
| "socket_reads (SocketRead p # es) = p # socket_reads es"
| "socket_reads (e # es) = socket_reads es"

text \<open>Reads that do not fail: up to 16 KiB from the application, 1 to 65498 bytes from the socket.\<close>

fun relay_fits :: "relay_event \<Rightarrow> bool" where
  "relay_fits (FlowEv (AppRead p err)) = (length p \<le> 16384 \<and> \<not> err)"
| "relay_fits (SocketRead p) = (0 < length p \<and> length p \<le> 65498)"
| "relay_fits (FlowEv e) = True"

definition relaying ::
  "string \<Rightarrow> nat \<Rightarrow> nat \<Rightarrow> nat \<Rightarrow> nat \<Rightarrow> bytes list \<Rightarrow> bytes \<Rightarrow> origin_world flow \<Rightarrow> bool" where
  "relaying base i h m m' pend sent f \<longleftrightarrow>
     up base i h m m' pend sent (fl_client f) (ow_server (fl_world f)) \<and>
     fl_up f \<and> fl_down f \<and> \<not> fl_done f \<and> fl_closed f = 0 \<and> ow_sched (fl_world f) = []"

lemma relay_app:
  assumes r: "relaying base i h m m' pend sent f" and p: "0 < length p" "length p \<le> 16384"
    and m: "m < seq_bound" and ok: "\<And>io q. env_write_ok senv io h q"
  shows "relaying base i h (Suc m) m' pend (sent @ p) (relay_step senv base a wr i f (FlowEv (AppRead p False)))"
    "fl_out (relay_step senv base a wr i f (FlowEv (AppRead p False))) = fl_out f"
proof -
  have u: "up base i h m m' pend sent (fl_client f) (ow_server (fl_world f))"
    using r by (simp add: relaying_def)
  have "length p \<le> 65498" using p(2) by simp
  from up_push [OF u this m ok, of "ow_clock (fl_world f)"] obtain c' s' where push:
    "Push (serve senv (ow_clock (fl_world f)) base) p (fl_client f) (ow_server (fl_world f)) = (Inr (), c', s')"
    "up base i h (Suc m) m' pend (sent @ p) c' s'" .
  have "relay_step senv base a wr i f (FlowEv (AppRead p False)) =
      f\<lparr>fl_client := c', fl_world := after_request (fl_world f) s'\<rparr>"
    using r p(1) push(1) by (simp add: relaying_def flow_step.simps origin_push [OF up_key [OF u]] Let_def)
  then show "relaying base i h (Suc m) m' pend (sent @ p) (relay_step senv base a wr i f (FlowEv (AppRead p False)))"
    "fl_out (relay_step senv base a wr i f (FlowEv (AppRead p False))) = fl_out f"
    using r push(2) by (simp_all add: relaying_def)
qed

lemma relay_down:
  assumes r: "relaying base i h m m' pend sent f" and m': "m' + length pend \<le> seq_bound"
    and wr: "\<And>out q. wr out q"
  shows "relaying base i h m (m' + length pend) [] sent (relay_step senv base a wr i f (FlowEv DownRound))"
    "fl_out (relay_step senv base a wr i f (FlowEv DownRound)) = fl_out f @ pend"
proof -
  have u: "up base i h m m' pend sent (fl_client f) (ow_server (fl_world f))"
    using r by (simp add: relaying_def)
  from up_pull [OF u m', of senv "ow_clock (fl_world f)" "ow_clock (fl_world f)"] obtain c' s' where pull:
    "Pull (serve senv (ow_clock (fl_world f)) base) (ow_clock (fl_world f)) (fl_client f)
       (ow_server (fl_world f)) = (Inr pend, c', s')"
    "up base i h m (m' + length pend) [] sent c' s'" .
  have sched: "ow_sched (fl_world f) = []" using r by (simp add: relaying_def)
  have "relay_step senv base a wr i f (FlowEv DownRound) =
      (if pend = [] then f\<lparr>fl_client := c', fl_world := origin_sleep senv (100 * millisecond)
          (after_request (fl_world f) s')\<rparr>
       else f\<lparr>fl_client := c', fl_world := after_request (fl_world f) s', fl_out := fl_out f @ pend\<rparr>)"
    using r pull(1) by (simp add: relaying_def flow_step.simps origin_pull Let_def write_payloads_ok [OF wr])
  then show "relaying base i h m (m' + length pend) [] sent (relay_step senv base a wr i f (FlowEv DownRound))"
    "fl_out (relay_step senv base a wr i f (FlowEv DownRound)) = fl_out f @ pend"
    using r pull(2) sched by (cases "pend = []"; simp add: relaying_def origin_sleep_def)+
qed

lemma relay_socket:
  assumes r: "relaying base i h m m' pend sent f" and p: "0 < length p" "length p \<le> 65498"
  shows "relaying base i h m m' (pend @ [p]) sent (relay_step senv base a wr i f (SocketRead p))"
  using r up_read [of base i h m m' pend sent "fl_client f" "ow_server (fl_world f)" p senv] p
  by (simp add: relaying_def)

text \<open>An event of such a run is an upload, a poll, a read of the socket, or changes nothing.\<close>

lemma relay_event_cases:
  assumes "relaying base i h m m' pend sent f" "relay_fits e"
  obtains (app) p where "e = FlowEv (AppRead p False)" "0 < length p" "length p \<le> 16384"
  | (nothing) "relay_step senv base a wr i f e = f" "\<And>es. app_reads (e # es) = app_reads es"
      "\<And>es. socket_reads (e # es) = socket_reads es"
  | (down) "e = FlowEv DownRound"
  | (sock) p where "e = SocketRead p" "0 < length p" "length p \<le> 65498"
proof (cases e)
  case (FlowEv x)
  show thesis
  proof (cases x)
    case (AppRead p err)
    note e = FlowEv [unfolded AppRead]
    show thesis
    proof (cases "p = []")
      case True
      show thesis
        by (rule nothing) (use assms e True in \<open>simp_all add: relaying_def flow_step.simps Let_def\<close>)
    qed (use app e assms(2) in auto)
  next
    case MainReturn
    show thesis
      by (rule nothing) (use assms(1) FlowEv MainReturn in \<open>simp_all add: relaying_def flow_step.simps\<close>)
  qed (use down FlowEv in simp)
qed (use sock assms(2) in auto)

lemma relay_run:
  assumes ok: "\<And>io q. env_write_ok senv io h q" and wr: "\<And>out q. wr out q"
  shows "relaying base i h m m' pend sent f \<Longrightarrow> list_all relay_fits es \<Longrightarrow>
    m + length (app_reads es) \<le> seq_bound \<Longrightarrow> m' + length pend + length (socket_reads es) \<le> seq_bound \<Longrightarrow>
    \<exists>m2 m2' pend2. relaying base i h m2 m2' pend2 (sent @ concat (app_reads es))
        (foldl (relay_step senv base a wr i) f es) \<and>
      fl_out (foldl (relay_step senv base a wr i) f es) @ pend2 = fl_out f @ pend @ socket_reads es \<and>
      m2' + length pend2 = m' + length pend + length (socket_reads es)"
proof (induction es arbitrary: m m' pend sent f)
  case Nil
  then show ?case by auto
next
  case (Cons e es)
  have fits: "relay_fits e" using Cons.prems(2) by simp
  show ?case
  proof (cases rule: relay_event_cases [OF Cons.prems(1) fits, where senv = senv and a = a and wr = wr,
        case_names app nothing down sock])
    case (app p)
    have "relaying base i h (Suc m) m' pend (sent @ p) (relay_step senv base a wr i f e)"
      "fl_out (relay_step senv base a wr i f e) = fl_out f"
      using relay_app [OF Cons.prems(1) app(2,3) _ ok] Cons.prems(3) app(1,2) by simp_all
    note step = this
    show ?thesis using Cons.IH [OF step(1)] step(2) Cons.prems app(1,2) by simp
  next
    case nothing
    then show ?thesis using Cons.IH [OF Cons.prems(1)] Cons.prems by simp
  next
    case down
    have "relaying base i h m (m' + length pend) [] sent (relay_step senv base a wr i f e)"
      "fl_out (relay_step senv base a wr i f e) = fl_out f @ pend"
      using relay_down [OF Cons.prems(1) _ wr] Cons.prems(4) down by simp_all
    note step = this
    show ?thesis using Cons.IH [OF step(1)] step(2) Cons.prems down by simp
  next
    case (sock p)
    have "relaying base i h m m' (pend @ [p]) sent (relay_step senv base a wr i f e)"
      using relay_socket [OF Cons.prems(1) sock(2,3)] sock(1) by simp
    from Cons.IH [OF this] show ?thesis using Cons.prems sock(1) by simp
  qed
qed

section \<open>A target that closes\<close>

text \<open>The end of the stream from the target: the socket is closed, its reader ends.\<close>

lemma eof_linked:
  assumes "linked n m n' m' pend r c s" "sv_gos s ! i = GPump k r h" "i < length (sv_gos s)"
    "cs_outbound (sv_heap s ! r) = Some h"
  shows "linked n m n' m' pend r c (run_go env i (ReadResult [] True) s)"
    "sv_io (run_go env i (ReadResult [] True) s) = sv_io s @ [NetClose h]"
  using assms
  by (simp_all add: run_go_eq closeOutbound_def Let_def)
    (auto simp: linked_def upd_cs_def nth_list_update)

definition waiting :: "string \<Rightarrow> nat \<Rightarrow> bytes list \<Rightarrow> origin_world flow \<Rightarrow> bool" where
  "waiting base m' pend f \<longleftrightarrow>
     (\<exists>n m n' r. linked n m n' m' pend r (fl_client f) (ow_server (fl_world f))) \<and>
     cl_BaseURL (fl_client f) = base \<and> fl_up f \<and> fl_down f \<and> \<not> fl_done f \<and> fl_closed f = 0 \<and>
     ow_sched (fl_world f) = []"

lemma waiting_down:
  assumes w: "waiting base m' pend f" and m': "m' + length pend \<le> seq_bound"
    and pend: "\<forall>p \<in> set pend. length p \<le> 65498" and wr: "\<And>out q. wr out q"
  shows "waiting base (m' + length pend) [] (flow_step (origin_env senv base a) wr f DownRound) \<and>
    fl_out (flow_step (origin_env senv base a) wr f DownRound) = fl_out f @ pend"
proof -
  let ?w = "fl_world f"
  obtain n m n' r where l: "linked n m n' m' pend r (fl_client f) (ow_server ?w)"
    using w by (auto simp: waiting_def)
  have base: "cl_BaseURL (fl_client f) = base" using w by (simp add: waiting_def)
  obtain c' s' where pull:
    "Pull (serve senv (ow_clock ?w) base) (ow_clock ?w) (fl_client f) (ow_server ?w) = (Inr pend, c', s')"
    "linked n m (n' + length pend) (m' + length pend) [] r c' s'" "cl_BaseURL c' = base"
    using linked_pull [OF l base pend m', of senv "ow_clock ?w" "ow_clock ?w"] by metis
  have sched: "ow_sched ?w = []" using w by (simp add: waiting_def)
  have "flow_step (origin_env senv base a) wr f DownRound =
      (if pend = [] then f\<lparr>fl_client := c', fl_world := origin_sleep senv (100 * millisecond)
          (after_request ?w s')\<rparr>
       else f\<lparr>fl_client := c', fl_world := after_request ?w s', fl_out := fl_out f @ pend\<rparr>)"
    using w pull(1) by (simp add: waiting_def flow_step.simps origin_pull Let_def write_payloads_ok [OF wr])
  moreover have "\<exists>n m n' r. linked n m n' (m' + length pend) [] r c' s'" using pull(2) by blast
  ultimately show ?thesis
    using w pull(3) sched by (cases "pend = []") (simp_all add: waiting_def origin_sleep_def)
qed

lemma waiting_forever:
  assumes w: "waiting base m' [] f" and m': "m' \<le> seq_bound" and wr: "\<And>out q. wr out q"
  shows "waiting base m' [] (foldl (flow_step (origin_env senv base a) wr) f (replicate n DownRound)) \<and>
    fl_out (foldl (flow_step (origin_env senv base a) wr) f (replicate n DownRound)) = fl_out f"
  using w
proof (induction n arbitrary: f)
  case (Suc n)
  have "waiting base m' [] (flow_step (origin_env senv base a) wr f DownRound)"
    "fl_out (flow_step (origin_env senv base a) wr f DownRound) = fl_out f"
    using waiting_down [OF Suc.prems _ _ wr, of senv a] m' by simp_all
  then show ?case using Suc.IH by simp
qed simp

section \<open>A DNS query\<close>

lemma up_linked: "up base i h m m' pend sent c s \<Longrightarrow>
  cl_BaseURL c = base \<and> (\<exists>n n' r. linked n m n' m' pend r c s)"
  by (auto simp: up_def tunnel_inv_def)

text \<open>
  What the server reads during each sleep of the relay, and what the polls return: one that finds
  nothing and sleeps, then one with what was read meanwhile, if anything was.
\<close>

definition reads_of :: "nat \<Rightarrow> bytes list \<Rightarrow> (nat \<times> go_input) list" where
  "reads_of i ps = map (\<lambda>p. (i, ReadResult p False)) ps"

fun polled :: "bytes list list \<Rightarrow> bytes list list" where
  "polled [] = []"
| "polled (ps # pss) = [] # (if ps = [] then polled pss else ps # polled pss)"

lemma concat_polled [simp]: "concat (polled pss) = concat pss"
  by (induction pss) simp_all

lemma polled_empty [simp]: "polled pss = [] \<longleftrightarrow> pss = []"
  by (cases pss) simp_all

lemma concat_butlast_polled: "pss \<noteq> [] \<Longrightarrow> last pss \<noteq> [] \<Longrightarrow> concat (butlast (polled pss)) = concat (butlast pss)"
  by (induction pss) (auto split: if_splits)

lemma dns_batches:
  "up base i h m m' [] sent c (ow_server w) \<Longrightarrow> ow_sched w = map (reads_of i) pss @ rest \<Longrightarrow>
   list_all (list_all (\<lambda>p. 0 < length p \<and> length p \<le> 65498)) pss \<Longrightarrow>
   m' + length (concat pss) \<le> seq_bound \<Longrightarrow>
   ow_clock w + int (length pss) * (52 * millisecond) < deadline \<Longrightarrow>
   \<exists>c' w'. dns_polls (origin_env senv base a) deadline c w (polled pss) c' w' \<and>
     up base i h m (m' + length (concat pss)) [] sent c' (ow_server w') \<and>
     ow_clock w' \<le> ow_clock w + int (length pss) * (52 * millisecond)"
proof (induction pss arbitrary: m' c w)
  case Nil
  then show ?case by auto
next
  case (Cons ps pss)
  let ?env = "origin_env senv base a" and ?reads = "reads_of i ps"
  let ?w1 = "after_request w (ow_server w)"
  define w2 where "w2 = origin_sleep senv (50 * millisecond) ?w1"
  have w2: "ow_server w2 = run_batch senv ?reads (ow_server w)" "ow_clock w2 = ow_clock w + 51 * millisecond"
    "ow_sched w2 = map (reads_of i) pss @ rest"
    using Cons.prems(2) sleep_scheduled [of ?w1 ?reads "map (reads_of i) pss @ rest" senv "50 * millisecond"]
    by (simp_all add: w2_def)
  have "up base i h m m' ([] @ ps) sent c (ow_server w2)"
    unfolding w2(1) reads_of_def by (rule up_reads) (use Cons.prems in simp_all)
  then have u: "up base i h m m' ps sent c (ow_server w2)" by simp
  have early: "ow_clock w < deadline" "ow_clock w2 < deadline"
    using Cons.prems(5) w2(2) by (simp_all add: algebra_simps)
  obtain n n' r where "linked n m n' m' [] r c (ow_server w)" "cl_BaseURL c = base"
    using up_linked [OF Cons.prems(1)] by blast
  then have "pull_at ?env c w = (Inr [], c, ?w1)" by (rule idle_poll)
  then have idle: "dns_polls ?env deadline c w ([] # qss) c' w'" if "dns_polls ?env deadline c w2 qss c' w'" for qss c' w'
    using early(1) that by (intro polls_more) (simp_all add: w2_def)
  show ?case
  proof (cases "ps = []")
    case True
    obtain c' w' where "dns_polls ?env deadline c w2 (polled pss) c' w'"
      "up base i h m (m' + length (concat pss)) [] sent c' (ow_server w')"
      "ow_clock w' \<le> ow_clock w2 + int (length pss) * (52 * millisecond)"
      using Cons.IH [OF u [unfolded True] w2(3)] Cons.prems(3-5) True w2(2) by (auto simp: algebra_simps)
    then show ?thesis using idle True w2(2) by (auto simp: algebra_simps intro!: exI)
  next
    case False
    have room: "m' + length ps \<le> seq_bound" using Cons.prems(4) by simp
    obtain c1 s1 where pull: "Pull (serve senv (ow_clock w2) base) (ow_clock w2) c (ow_server w2) = (Inr ps, c1, s1)"
      "up base i h m (m' + length ps) [] sent c1 s1"
      using up_pull [OF u room] by blast
    let ?w3 = "after_request w2 s1"
    have got: "pull_at ?env c w2 = (Inr ps, c1, ?w3)" using pull(1) by (simp add: origin_pull)
    have "up base i h m (m' + length ps) [] sent c1 (ow_server ?w3)" "ow_sched ?w3 = map (reads_of i) pss @ rest"
      using pull(2) w2(3) by simp_all
    from Cons.IH [OF this] obtain c' w' where "dns_polls ?env deadline c1 ?w3 (polled pss) c' w'"
      "up base i h m (m' + length ps + length (concat pss)) [] sent c' (ow_server w')"
      "ow_clock w' \<le> ow_clock ?w3 + int (length pss) * (52 * millisecond)"
      using Cons.prems(3-5) w2(2) by (auto simp: algebra_simps)
    moreover from this(1) have "dns_polls ?env deadline c w2 (ps # polled pss) c' w'"
      using got early(2) False by (intro polls_more) simp_all
    ultimately show ?thesis using idle False w2(2) by (auto simp: algebra_simps intro!: exI)
  qed
qed

section \<open>From the configuration to the relayed bytes\<close>

lemma flow_relays:
  assumes "flow_allowed senv a cfg (ow_clock w) (ow_server w)" "length target \<le> 65498"
    "validateTarget (string_of (TrimSpace (bytes_of target))) (ow_server w) = Inr ()"
    "ow_sched w = replicate k [] @ [dial_and_reads (length (sv_gos (ow_server w))) ps]" "k < 49"
    "\<And>io p. env_write_ok senv io (sv_dialled (ow_server w)) p" "\<And>out p. wr out p"
    "list_all relay_fits es" "list_all (\<lambda>p. 0 < length p \<and> length p \<le> 65498) ps"
    "1 + length (app_reads es) \<le> seq_bound"
    "1 + length ps + length (socket_reads es) \<le> seq_bound"
  shows "case handleFlow (origin_env senv (cfg_BaseURL cfg) a) cfg target w of (res, w') \<Rightarrow>
    \<exists>f. res = Inr f \<and>
      (let h = sv_dialled (ow_server w);
           f' = foldl (relay_step senv (cfg_BaseURL cfg) a wr (length (sv_gos (ow_server w)))) f
             (es @ [FlowEv DownRound]) in
       \<not> fl_done f' \<and> fl_out f' = socket_reads es \<and>
       written_to h (sv_io (ow_server (fl_world f'))) =
         written_to h (sv_io (ow_server w)) @ concat (app_reads es))"
proof -
  let ?i = "length (sv_gos (ow_server w))" and ?h = "sv_dialled (ow_server w)" and ?base = "cfg_BaseURL cfg"
  let ?sent = "written_to ?h (sv_io (ow_server w))"
  have room: "1 + length ps \<le> seq_bound" using assms(11) by simp
  obtain c' w' where conn:
    "connect_flow (origin_env senv ?base a) cfg target w = (Inr c', w')"
    "up ?base ?i ?h 1 (1 + length ps) [] ?sent c' (ow_server w')" "ow_sched w' = []"
    using connect_flow_up [OF assms(1-3) assms(4) assms(5,9) room] by blast
  let ?f = "start_flow c' w'"
  have "relaying ?base ?i ?h 1 (1 + length ps) [] ?sent ?f"
    using conn(2,3) by (simp add: relaying_def start_flow_def)
  from relay_run [where wr = wr and a = a, OF assms(6,7) this assms(8,10)] assms(11) obtain m2 m2' pend2 where run:
    "relaying ?base ?i ?h m2 m2' pend2 (?sent @ concat (app_reads es))
       (foldl (relay_step senv ?base a wr ?i) ?f es)"
    "fl_out (foldl (relay_step senv ?base a wr ?i) ?f es) @ pend2 = fl_out ?f @ [] @ socket_reads es"
    "m2' + length pend2 = 1 + length ps + length [] + length (socket_reads es)"
    by auto
  have "m2' + length pend2 \<le> seq_bound" using run(3) assms(11) by simp
  note down = relay_down [where wr = wr and senv = senv and a = a, OF run(1) this assms(7)]
  have "written_to ?h (sv_io (ow_server (fl_world (relay_step senv ?base a wr ?i
      (foldl (relay_step senv ?base a wr ?i) ?f es) (FlowEv DownRound))))) = ?sent @ concat (app_reads es)"
    using down(1) up_written by (simp only: relaying_def) blast
  then show ?thesis
    using conn(1) down run(2)
    by (simp add: handleFlow_def Let_def relaying_def) (simp add: start_flow_def)
qed

section \<open>Concrete sides\<close>

definition sample_config :: Config where
  "sample_config = \<lparr>cfg_BaseURL = ''https://o'',
     cfg_ServerPubHex = hex_EncodeToString (ecdh_PublicKey (map2 (+)) (replicate 32 5)),
     cfg_DeviceIDHex = ''00000000000000ff'', cfg_Token = ''tok''\<rparr>"

definition sample_world :: "Server \<Rightarrow> (nat \<times> go_input) list list \<Rightarrow> origin_world" where
  "sample_world s sched = \<lparr>ow_server = s, ow_clock = 1, ow_sched = sched\<rparr>"

lemma sample_config_sel [simp]:
  "cfg_BaseURL sample_config = ''https://o''" "cfg_Token sample_config = ''tok''"
  by (simp_all add: sample_config_def)

lemma sample_world_sel [simp]:
  "ow_server (sample_world s sched) = s" "ow_clock (sample_world s sched) = 1"
  "ow_sched (sample_world s sched) = sched"
  by (simp_all add: sample_world_def)

lemma sample_origin_sel:
  "sv_StaticPriv sample_origin = replicate 32 5" "sv_gos sample_origin = []"
  "sv_dialled sample_origin = 0" "sv_io sample_origin = []"
  "sv_outbox sample_origin c = []" "validateTarget tg sample_origin = Inr ()"
  by (simp_all add: sample_origin_def server_New_def validateTarget_def)

lemma sample_allowed:
  "flow_allowed sample_env (replicate 32 3) sample_config 1 sample_origin"
proof -
  have dev: "hex_DecodeString ''00000000000000ff'' = Some [0, 0, 0, 0, 0, 0, 0, 255]" by code_simp
  have "fst (TryBind 1 ''tok'' (get64 [0, 0, 0, 0, 0, 0, 0, 255]) (sv_Tokens sample_origin)) = BindAccepted"
    by (simp add: sample_origin_def server_New_def TryBind_def RegisterToken_def NewTokenStore_def)
  moreover have "length (ecdh_PublicKey (map2 (+)) (replicate 32 5)) = 32"
    by (simp add: ecdh_PublicKey_def x25519_basepoint_def)
  moreover have "env_dh sample_env = map2 (+)" by (simp add: sample_env_def)
  ultimately show ?thesis
    using sample_pair dev
    by (simp add: flow_allowed_def sample_origin_sel) (simp add: sample_config_def)
qed

lemma sample_up: "up ''https://o'' 0 4 0 0 [] [] sample_tunnel_client sample_tunnel_server"
  using sample_tunnel_inv by (simp add: up_def)

lemma sample_relaying:
  "relaying ''https://o'' 0 4 0 0 [] []
     (start_flow sample_tunnel_client (sample_world sample_tunnel_server []))"
  using sample_up by (simp add: relaying_def start_flow_def)

section \<open>Properties\<close>

text \<open>C11: A flow of the VPN tunnel, from its configuration on: when the server accepts the device and
  the target and its dial succeeds within 49 polls, \<open>handleFlow\<close> sets the flow up, and any
  interleaving of the two pumps with reads of the socket writes to the target exactly what the
  application sent, and to the application exactly what was read from the target after the poll that
  brought the confirmation, in order. What the target sent before that poll, \<open>early\<close>, is not in it:
  only a target that waits for the application has everything delivered.\<close>

theorem flow_end_to_end:
  assumes "flow_allowed senv a cfg (ow_clock w) (ow_server w)" "length target \<le> 65498"
    "validateTarget (string_of (TrimSpace (bytes_of target))) (ow_server w) = Inr ()"
    "ow_sched w = replicate k [] @ [dial_and_reads (length (sv_gos (ow_server w))) early]" "k < 49"
    "list_all (\<lambda>p. 0 < length p \<and> length p \<le> 65498) early"
    "\<And>io p. env_write_ok senv io (sv_dialled (ow_server w)) p" "\<And>out p. wr out p"
    "list_all relay_fits es" "1 + length (app_reads es) < 2 ^ 32"
    "1 + length early + length (socket_reads es) < 2 ^ 32"
  shows "case handleFlow (origin_env senv (cfg_BaseURL cfg) a) cfg target w of (res, w') \<Rightarrow>
    \<exists>f. res = Inr f \<and>
      (let h = sv_dialled (ow_server w);
           f' = foldl (relay_step senv (cfg_BaseURL cfg) a wr (length (sv_gos (ow_server w)))) f
             (es @ [FlowEv DownRound]) in
       \<not> fl_done f' \<and> fl_out f' = socket_reads es \<and>
       written_to h (sv_io (ow_server (fl_world f'))) =
         written_to h (sv_io (ow_server w)) @ concat (app_reads es))"
  by (rule flow_relays [where wr = wr and ps = early, OF assms(1-5,7-9,6)])
    (use assms(10,11) in \<open>simp_all add: seq_bound_def\<close>)

theorem flow_end_to_end_witness:
  "case handleFlow (origin_env sample_env ''https://o'' (replicate 32 3)) sample_config ''h:80''
      (sample_world sample_origin [[], dial_and_reads 0 [[50, 50]]]) of (res, w') \<Rightarrow>
    \<exists>f. res = Inr f \<and>
      (let f' = foldl (relay_step sample_env ''https://o'' (replicate 32 3) (\<lambda>out p. True) 0) f
         ([FlowEv (AppRead [1, 2] False), SocketRead [9], FlowEv DownRound, FlowEv (AppRead [3] False),
           SocketRead [8]] @ [FlowEv DownRound]) in
       \<not> fl_done f' \<and> fl_out f' = [[9], [8]] \<and> written_to 0 (sv_io (ow_server (fl_world f'))) = [1, 2, 3])"
  using flow_end_to_end [where cfg = sample_config and senv = sample_env and a = "replicate 32 3"
      and w = "sample_world sample_origin [[], dial_and_reads 0 [[50, 50]]]" and target = "''h:80''" and k = 1
      and early = "[[50, 50]]" and wr = "\<lambda>out p. True" and es = "[FlowEv (AppRead [1, 2] False),
        SocketRead [9], FlowEv DownRound, FlowEv (AppRead [3] False), SocketRead [8]]"]
  by (simp add: sample_allowed sample_origin_sel sample_writes)

text \<open>C28: What the target sends before the poll that brings the confirmation is lost: the poll returns
  it behind \<open>OK CONNECTED\<close>, \<open>waitForConnected\<close> stops at the confirmation and drops the rest of the
  batch. A protocol in which the target speaks first never gets its greeting: the application receives
  only what was read after the poll.\<close>

theorem greeting_lost:
  assumes "flow_allowed senv a cfg (ow_clock w) (ow_server w)" "length target \<le> 65498"
    "validateTarget (string_of (TrimSpace (bytes_of target))) (ow_server w) = Inr ()"
    "ow_sched w = replicate k [] @ [dial_and_reads (length (sv_gos (ow_server w))) greeting]" "k < 49"
    "\<And>io p. env_write_ok senv io (sv_dialled (ow_server w)) p" "\<And>out p. wr out p"
    "greeting \<noteq> []" "list_all (\<lambda>p. 0 < length p \<and> length p \<le> 65498) greeting"
    "1 + length greeting < 2 ^ 32"
  shows "case handleFlow (origin_env senv (cfg_BaseURL cfg) a) cfg target w of (res, w') \<Rightarrow>
    \<exists>f. res = Inr f \<and>
      (let f' = foldl (relay_step senv (cfg_BaseURL cfg) a wr (length (sv_gos (ow_server w)))) f
         (replicate n (FlowEv DownRound) @ [FlowEv DownRound]) in \<not> fl_done f' \<and> fl_out f' = [])"
proof -
  let ?es = "replicate n (FlowEv DownRound)"
  have es: "list_all relay_fits ?es" "app_reads ?es = []" "socket_reads ?es = []"
    by (induction n) simp_all
  have "1 + length (app_reads ?es) \<le> seq_bound"
    "1 + length greeting + length (socket_reads ?es) \<le> seq_bound"
    using assms(10) by (simp_all add: es seq_bound_def)
  from flow_relays [where wr = wr, OF assms(1-7) es(1) assms(9) this]
  show ?thesis by (auto simp: es Let_def)
qed

theorem greeting_lost_witness:
  "case handleFlow (origin_env sample_env ''https://o'' (replicate 32 3)) sample_config ''h:25''
      (sample_world sample_origin [dial_and_reads 0 [[50, 50, 48]]]) of (res, w') \<Rightarrow>
    \<exists>f. res = Inr f \<and>
      (let f' = foldl (relay_step sample_env ''https://o'' (replicate 32 3) (\<lambda>out p. True) 0) f
         (replicate 2 (FlowEv DownRound) @ [FlowEv DownRound]) in \<not> fl_done f' \<and> fl_out f' = [])"
  using greeting_lost [where cfg = sample_config and senv = sample_env and a = "replicate 32 3"
      and w = "sample_world sample_origin [dial_and_reads 0 [[50, 50, 48]]]"
      and target = "''h:25''" and k = 0 and wr = "\<lambda>out p. True" and greeting = "[[50, 50, 48]]"
      and n = 2]
  by (simp add: sample_allowed sample_origin_sel sample_writes del: replicate.simps)

text \<open>C29: The application is not told when the target closes its side: the server closes the socket and
  ends the reader without a frame, so that every later round of the flow brings nothing and the
  connection of the application stays open, for any number of rounds.\<close>

theorem target_close_unseen:
  assumes "relaying base i h m m' pend sent f" "m' + length pend < 2 ^ 32" "\<And>out p. wr out p"
  shows "let s = run_go senv i (ReadResult [] True) (ow_server (fl_world f));
      f' = foldl (flow_step (origin_env senv base a) wr)
        (f\<lparr>fl_world := (fl_world f)\<lparr>ow_server := s\<rparr>\<rparr>) (replicate (Suc n) DownRound) in
    sv_io s = sv_io (ow_server (fl_world f)) @ [NetClose h] \<and>
    fl_up f' \<and> fl_down f' \<and> \<not> fl_done f' \<and> fl_closed f' = 0 \<and> fl_out f' = fl_out f @ pend"
proof -
  define s where "s = run_go senv i (ReadResult [] True) (ow_server (fl_world f))"
  let ?f = "f\<lparr>fl_world := (fl_world f)\<lparr>ow_server := s\<rparr>\<rparr>"
  let ?f1 = "flow_step (origin_env senv base a) wr ?f DownRound"
  obtain n0 n' r where l: "linked n0 m n' m' pend r (fl_client f) (ow_server (fl_world f))"
    "sv_gos (ow_server (fl_world f)) ! i = GPump (s_ConnectionID (cl_Session (fl_client f))) r h"
    "i < length (sv_gos (ow_server (fl_world f)))"
    "cs_outbound (sv_heap (ow_server (fl_world f)) ! r) = Some h"
    using assms(1) by (auto simp: relaying_def up_def tunnel_inv_def)
  have pend: "\<forall>p \<in> set pend. length p \<le> 65498" and base: "cl_BaseURL (fl_client f) = base"
    using assms(1) by (simp_all add: relaying_def up_def tunnel_inv_def list_all_iff)
  have io: "sv_io s = sv_io (ow_server (fl_world f)) @ [NetClose h]"
    unfolding s_def using l by (rule eof_linked)
  have "linked n0 m n' m' pend r (fl_client f) s" unfolding s_def using l by (rule eof_linked)
  then have "waiting base m' pend ?f"
    using assms(1) base by (auto simp: waiting_def relaying_def)
  moreover have room: "m' + length pend \<le> seq_bound" using assms(2) by (simp add: seq_bound_def)
  ultimately have one: "waiting base (m' + length pend) [] ?f1" "fl_out ?f1 = fl_out f @ pend"
    using waiting_down [where wr = wr and senv = senv and a = a and f = ?f, OF _ _ pend assms(3)] by auto
  have "waiting base (m' + length pend) [] (foldl (flow_step (origin_env senv base a) wr) ?f1 (replicate n DownRound))"
    "fl_out (foldl (flow_step (origin_env senv base a) wr) ?f1 (replicate n DownRound)) = fl_out f @ pend"
    using waiting_forever [where wr = wr and senv = senv and a = a and n = n, OF one(1) room assms(3)] one(2)
    by simp_all
  then show ?thesis using io by (simp add: Let_def s_def [symmetric] waiting_def)
qed

theorem target_close_unseen_witness:
  "let f = start_flow sample_tunnel_client (sample_world sample_tunnel_server []);
      s = run_go sample_env 0 (ReadResult [] True) sample_tunnel_server;
      f' = foldl (flow_step (origin_env sample_env ''https://o'' (replicate 32 3)) (\<lambda>out p. True))
        (f\<lparr>fl_world := (fl_world f)\<lparr>ow_server := s\<rparr>\<rparr>) (replicate (Suc 9) DownRound) in
    NetClose 4 \<in> set (sv_io s) \<and> fl_down f' \<and> \<not> fl_done f' \<and> fl_closed f' = 0 \<and> fl_out f' = []"
  using target_close_unseen [OF sample_relaying, where wr = "\<lambda>out p. True" and senv = sample_env
      and a = "replicate 32 3" and n = 9]
  by (simp add: Let_def start_flow_def del: replicate.simps)

text \<open>C12: A DNS query is answered: the resolver gets exactly the query in its 2-byte frame, and when its
  framed answer is read from the socket within the first 96 sleeps of the relay, cut into any pieces and
  these spread over the sleeps in any way, so that polls bring parts of it, \<open>handleDNSFlow\<close> returns
  exactly the answer, and the session is ready for the next query. What the resolver sent behind the
  answer, \<open>extra\<close>, is dropped when the poll that completes the answer brings it.\<close>

theorem dns_query_answered:
  assumes "up base i h m m' [] sent (dr_c d) (ow_server w)" "rd 0 = Some query" "length query \<le> 4096"
    "ow_sched w = map (reads_of i) pss @ rest" "length pss \<le> 96"
    "list_all (list_all (\<lambda>p. 0 < length p \<and> length p \<le> 65498)) pss" "last pss \<noteq> []"
    "concat (concat pss) = put_frame r @ extra" "length r < 65536"
    "length (concat (concat (butlast pss))) < length (put_frame r)"
    "\<And>io p. env_write_ok senv io h p" "m < 2 ^ 32 - 1" "m' + length (concat pss) < 2 ^ 32"
  shows "\<exists>d' w'. handleDNSFlow (origin_env senv base a) rd d w = Some (Some r, d', w') \<and>
    written_to h (sv_io (ow_server w')) = sent @ put_frame query \<and>
    up base i h (m + 1) (m' + length (concat pss)) [] (sent @ put_frame query) (dr_c d') (ow_server w')"
proof -
  let ?env = "origin_env senv base a"
  have m: "m < seq_bound" "m' + length (concat pss) \<le> seq_bound" "length (put_frame query) \<le> 65498"
    using assms(3,12,13) by (simp_all add: seq_bound_def put_frame_def)
  have pss: "pss \<noteq> []" using assms(8) by (auto simp: put_frame_def put16_def)
  obtain c1 s1 where push:
    "Push (serve senv (ow_clock w) base) (put_frame query) (dr_c d) (ow_server w) = (Inr (), c1, s1)"
    "up base i h (Suc m) m' [] (sent @ put_frame query) c1 s1"
    using up_push [OF assms(1) m(3,1) assms(11)] by blast
  let ?w1 = "after_request w s1"
  have sent: "push_at ?env (put_frame query) (dr_c d) w = (Inr (), c1, ?w1)"
    using push(1) by (simp add: origin_push [OF up_key [OF assms(1)]])
  have late: "ow_clock ?w1 + int (length pss) * (52 * millisecond) < ow_clock ?w1 + 5 * second"
    using assms(5) by simp
  have "up base i h (Suc m) m' [] (sent @ put_frame query) c1 (ow_server ?w1)"
    "ow_sched ?w1 = map (reads_of i) pss @ rest"
    using push(2) assms(4) by simp_all
  from dns_batches [OF this assms(6) m(2) late] obtain c2 w2 where polls:
    "dns_polls ?env (ow_clock ?w1 + 5 * second) c1 ?w1 (polled pss) c2 w2"
    "up base i h (Suc m) (m' + length (concat pss)) [] (sent @ put_frame query) c2 (ow_server w2)"
    "ow_clock w2 \<le> ow_clock ?w1 + int (length pss) * (52 * millisecond)"
    by blast
  have "resolve ?env query (5 * second) d w = Some (Inr r, d\<lparr>dr_c := c2\<rparr>, w2)"
    by (rule resolve_reassembles [OF sent, where pss = "polled pss" and extra = extra])
      (use polls(1,3) late assms(8-10) concat_butlast_polled [OF pss assms(7)] in simp_all)
  moreover have "read_query ?env rd 0 10 w = (Some query, w)"
    using assms(2,3) by (simp add: numeral_eq_Suc)
  ultimately show ?thesis
    using polls(2) up_written [OF polls(2)] by (simp add: handleDNSFlow_def)
qed

theorem dns_query_answered_witness:
  "\<exists>d' w'. handleDNSFlow (origin_env sample_env ''https://o'' (replicate 32 3)) (\<lambda>j. Some [7, 7, 7])
      \<lparr>dr_c = sample_tunnel_client, dr_cfg = sample_config\<rparr>
      (sample_world sample_tunnel_server (map (reads_of 0) [[], [[0], [2]], [[8]], [], [[8, 1], [1]]])) =
      Some (Some [8, 8], d', w') \<and>
    written_to 4 (sv_io (ow_server w')) = [0, 3, 7, 7, 7]"
proof -
  have "put_frame [8, 8] = [0, 2, 8, 8]" "put_frame [7, 7, 7] = [0, 3, 7, 7, 7]" by code_simp+
  then show ?thesis
    using dns_query_answered [where base = "''https://o''" and i = 0 and h = 4 and m = 0 and m' = 0
        and sent = "[]" and senv = sample_env and a = "replicate 32 3" and r = "[8, 8]" and extra = "[1, 1]"
        and d = "\<lparr>dr_c = sample_tunnel_client, dr_cfg = sample_config\<rparr>" and rest = "[]"
        and rd = "\<lambda>j. Some [7, 7, 7]" and query = "[7, 7, 7]" and pss = "[[], [[0], [2]], [[8]], [], [[8, 1], [1]]]"
        and w = "sample_world sample_tunnel_server
          (map (reads_of 0) [[], [[0], [2]], [[8]], [], [[8, 1], [1]]])"] sample_up sample_writes
    by auto
qed

end
