(* ===== verification/VpnStart.thy ===== *)
theory VpnStart
  imports VpnDNS
begin

text \<open>
  \<open>Start\<close> and \<open>Stop\<close> of \<open>android/vpntun/tunnel.go\<close>. The calls on gVisor's stack are recorded, and
  what they return is input. A tunnel that runs counts the goroutines of its flows, as its
  \<open>WaitGroup\<close> does.
\<close>

section \<open>Start\<close>

datatype stack_call =
    NewEndpoint int             \<comment> \<open>\<open>fdbased.New\<close> on the file descriptor\<close>
  | NewStack
  | CreateNIC
  | AddAddress bytes            \<comment> \<open>the address of the NIC\<close>
  | SetPromiscuousMode
  | SetSpoofing
  | SetRouteTable
  | SetTCPHandler
  | SetUDPHandler
  | CloseStack

record stack_results =
  endpoint_ok :: bool
  nic_ok :: bool
  address_ok :: bool

datatype start_error =
    EndpointFailed
  | NICFailed
  | AddressFailed
  | RelayFailed flow_error

record TunnelHandle =
  th_dns :: dnsRelay
  th_cfg :: Config

definition tunnel_Start ::
  "'w client_env \<Rightarrow> stack_results \<Rightarrow> int \<Rightarrow> Config \<Rightarrow> 'w \<Rightarrow>
   (start_error + TunnelHandle) \<times> stack_call list \<times> 'w" where
  "tunnel_Start env res fd cfg w =
     (if \<not> endpoint_ok res then (Inl EndpointFailed, [NewEndpoint fd], w)
      else let calls = [NewEndpoint fd, NewStack, CreateNIC] in
        if \<not> nic_ok res then (Inl NICFailed, calls, w)
        else let calls1 = calls @ [AddAddress [10, 0, 0, 2]] in
          if \<not> address_ok res then (Inl AddressFailed, calls1, w)
          else let calls2 = calls1 @ [SetPromiscuousMode, SetSpoofing, SetRouteTable] in
            case newDNSRelay env cfg w of
              (Inl e, w1) \<Rightarrow> (Inl (RelayFailed e), calls2 @ [CloseStack], w1)
            | (Inr dns, w1) \<Rightarrow>
                (Inr \<lparr>th_dns = dns, th_cfg = cfg\<rparr>, calls2 @ [SetTCPHandler, SetUDPHandler], w1))"

section \<open>A running tunnel\<close>

text \<open>
  The forwarders start a goroutine for every request whose endpoint could be created, for UDP only
  on port 53. \<open>Stop\<close> closes the stack, then waits for the goroutines.
\<close>

datatype stop_phase = Running | Stopping | Stopped

datatype flow_kind = TcpFlow string | DnsFlow

record tunnel_state =
  ts_flows :: "flow_kind list"
  ts_phase :: stop_phase
  ts_closed :: nat

datatype tunnel_request =
    TcpRequest string u16 bool    \<comment> \<open>local address and port, whether the endpoint was created\<close>
  | UdpRequest u16 bool
  | FlowEnds nat
  | StopCalled
  | StopReturns

definition udp_handled :: "u16 \<Rightarrow> bool \<Rightarrow> bool" where
  "udp_handled localPort ep_ok = (if \<not> udp_relayed localPort then False else ep_ok)"

fun running_step :: "tunnel_state \<Rightarrow> tunnel_request \<Rightarrow> tunnel_state" where
  "running_step t (TcpRequest addr port ep_ok) =
     (if ep_ok then t\<lparr>ts_flows := ts_flows t @ [TcpFlow (tcp_target addr port)]\<rparr> else t)"
| "running_step t (UdpRequest port ep_ok) =
     (if udp_handled port ep_ok then t\<lparr>ts_flows := ts_flows t @ [DnsFlow]\<rparr> else t)"
| "running_step t (FlowEnds n) =
     t\<lparr>ts_flows := take n (ts_flows t) @ drop (n + 1) (ts_flows t)\<rparr>"
| "running_step t StopCalled =
     (if ts_phase t = Running then t\<lparr>ts_phase := Stopping, ts_closed := ts_closed t + 1\<rparr> else t)"
| "running_step t StopReturns =
     (if ts_phase t = Stopping \<and> ts_flows t = [] then t\<lparr>ts_phase := Stopped\<rparr> else t)"

definition running_inv :: "tunnel_state \<Rightarrow> bool" where
  "running_inv t \<longleftrightarrow> ts_closed t = of_bool (ts_phase t \<noteq> Running)"

interpretation running: invariant_machine running_step running_inv "\<lambda>_. True"
  by unfold_locales (case_tac e, auto simp: running_inv_def)

section \<open>Properties\<close>

text \<open>\<open>Start\<close> on every branch. A relay that cannot be opened closes the stack; when the NIC cannot be
  created or given its address, the stack is not closed, and neither is the descriptor it owns.\<close>

theorem Start_outcome:
  "case tunnel_Start env res fd cfg w of (r, calls, w1) \<Rightarrow>
     (case r of
        Inr h \<Rightarrow> endpoint_ok res \<and> nic_ok res \<and> address_ok res \<and> CloseStack \<notin> set calls \<and>
          last calls = SetUDPHandler \<and> newDNSRelay env cfg w = (Inr (th_dns h), w1)
      | Inl (RelayFailed e) \<Rightarrow> last calls = CloseStack \<and> newDNSRelay env cfg w = (Inl e, w1)
      | Inl e \<Rightarrow> CloseStack \<notin> set calls \<and> w1 = w \<and> (NewStack \<in> set calls \<longleftrightarrow> e \<noteq> EndpointFailed))"
  by (auto simp: tunnel_Start_def Let_def split: prod.splits sum.splits)

end
