(* ===== verification/Bridge.thy ===== *)
theory Bridge
  imports VpnStart
begin

text \<open>
  \<open>android/gomobilebridge/bridge.go\<close>: the surface that Kotlin calls. A handle may be nil (\<open>None\<close>):
  its methods then panic, and the deferred \<open>recoverToError\<close> turns the panic into an error.
\<close>

section \<open>Model\<close>

definition BuildVersion :: string where "BuildVersion = ''v4''"

definition Version :: string where "Version = BuildVersion"

record SessionHandle =
  sh_c :: Client
  sh_pending :: "bytes list"

datatype bridge_error =
    BridgeConfig setup_error
  | BridgeClient client_error
  | BridgeStart start_error
  | BridgeInternal string     \<comment> \<open>a recovered panic, with the label of the method\<close>

text \<open>The outcome of a method body (\<open>None\<close> when it panics) as the caller sees it.\<close>

definition recoverToError :: "string \<Rightarrow> (bridge_error + 'a) option \<Rightarrow> bridge_error + 'a" where
  "recoverToError label r = (case r of None \<Rightarrow> Inl (BridgeInternal label) | Some res \<Rightarrow> res)"

definition client_result :: "client_error + 'a \<Rightarrow> bridge_error + 'a" where
  "client_result r = (case r of Inl e \<Rightarrow> Inl (BridgeClient e) | Inr a \<Rightarrow> Inr a)"

definition OpenSession ::
  "'w client_env \<Rightarrow> string \<Rightarrow> string \<Rightarrow> string \<Rightarrow> string \<Rightarrow> 'w \<Rightarrow>
   (bridge_error + SessionHandle) \<times> 'w" where
  "OpenSession env baseURL pubHex deviceIDHex token w =
     (case setup_client baseURL pubHex deviceIDHex token (ce_clock env w) of
        Inl e \<Rightarrow> (Inl (BridgeConfig e), w)
      | Inr c \<Rightarrow>
          (case open_at env c w of (opened, c1, w1) \<Rightarrow>
             (case client_result opened of
                Inl e \<Rightarrow> (Inl e, w1)
              | Inr _ \<Rightarrow> (Inr \<lparr>sh_c = c1, sh_pending = []\<rparr>, w1))))"

definition handle_Reconnect ::
  "'w client_env \<Rightarrow> SessionHandle option \<Rightarrow> 'w \<Rightarrow>
   (bridge_error + unit) \<times> SessionHandle option \<times> 'w" where
  "handle_Reconnect env h w =
     (case h of
        None \<Rightarrow> (recoverToError ''SessionHandle.Reconnect'' None, None, w)
      | Some s \<Rightarrow>
          (case reconnect_at env (sh_c s) w of (res, c, w1) \<Rightarrow>
             (recoverToError ''SessionHandle.Reconnect'' (Some (client_result res)),
              Some (s\<lparr>sh_c := c\<rparr>), w1)))"

definition handle_Push ::
  "'w client_env \<Rightarrow> bytes \<Rightarrow> SessionHandle option \<Rightarrow> 'w \<Rightarrow>
   (bridge_error + unit) \<times> SessionHandle option \<times> 'w" where
  "handle_Push env payload h w =
     (case h of
        None \<Rightarrow> (recoverToError ''SessionHandle.Push'' None, None, w)
      | Some s \<Rightarrow>
          (case push_at env payload (sh_c s) w of (res, c, w1) \<Rightarrow>
             (recoverToError ''SessionHandle.Push'' (Some (client_result res)),
              Some (s\<lparr>sh_c := c\<rparr>), w1)))"

text \<open>\<open>None\<close> as a payload is nil: nothing is available.\<close>

definition PullOne ::
  "'w client_env \<Rightarrow> SessionHandle option \<Rightarrow> 'w \<Rightarrow>
   (bridge_error + bytes option) \<times> SessionHandle option \<times> 'w" where
  "PullOne env h w =
     (case h of
        None \<Rightarrow> (recoverToError ''SessionHandle.PullOne'' None, None, w)
      | Some s \<Rightarrow>
          (let (failed, s1, w1) =
                 (if length (sh_pending s) = 0 then
                    (case pull_at env (sh_c s) w of (res, c, w1) \<Rightarrow>
                       (case res of
                          Inl e \<Rightarrow> (Some e, s\<lparr>sh_c := c\<rparr>, w1)
                        | Inr got \<Rightarrow> (None, s\<lparr>sh_c := c, sh_pending := got\<rparr>, w1)))
                  else (None, s, w))
           in case failed of
                Some e \<Rightarrow> (Inl (BridgeClient e), Some s1, w1)
              | None \<Rightarrow>
                  (case sh_pending s1 of
                     [] \<Rightarrow> (Inr None, Some s1, w1)
                   | p # ps \<Rightarrow> (Inr (Some p), Some (s1\<lparr>sh_pending := ps\<rparr>), w1))))"

definition ConnectionIDHex :: "SessionHandle option \<Rightarrow> string" where
  "ConnectionIDHex h =
     (case h of None \<Rightarrow> [] | Some s \<Rightarrow> format_08x (s_ConnectionID (cl_Session (sh_c s))))"

definition StartVpnTunnel ::
  "'w client_env \<Rightarrow> stack_results \<Rightarrow> int \<Rightarrow> string \<Rightarrow> string \<Rightarrow> string \<Rightarrow> string \<Rightarrow> 'w \<Rightarrow>
   (bridge_error + TunnelHandle) \<times> stack_call list \<times> 'w" where
  "StartVpnTunnel env res fd baseURL pubHex deviceIDHex token w =
     (case tunnel_Start env res fd \<lparr>cfg_BaseURL = baseURL, cfg_ServerPubHex = pubHex,
             cfg_DeviceIDHex = deviceIDHex, cfg_Token = token\<rparr> w of (r, calls, w1) \<Rightarrow>
        ((case r of Inl e \<Rightarrow> Inl (BridgeStart e) | Inr h \<Rightarrow> Inr h), calls, w1))"

text \<open>\<open>Stop\<close> of a handle without a tunnel panics, which is swallowed.\<close>

definition VpnTunnelHandle_Stop :: "tunnel_state option \<Rightarrow> tunnel_state option" where
  "VpnTunnelHandle_Stop inner =
     (case inner of None \<Rightarrow> None | Some t \<Rightarrow> Some (running_step t StopCalled))"

definition DrainVpnLogs :: "string list \<Rightarrow> string \<times> string list" where
  "DrainVpnLogs buf = DrainLogs buf"

section \<open>Payloads one by one\<close>

text \<open>Polling \<open>j\<close> times: a poll that fails brings nothing.\<close>

primrec polls :: "'w client_env \<Rightarrow> nat \<Rightarrow> Client \<Rightarrow> 'w \<Rightarrow> bytes list \<times> Client \<times> 'w" where
  "polls env 0 c w = ([], c, w)"
| "polls env (Suc j) c w =
     (case pull_at env c w of (res, c1, w1) \<Rightarrow>
        case polls env j c1 w1 of (rest, c2, w2) \<Rightarrow>
          ((case res of Inl e \<Rightarrow> [] | Inr got \<Rightarrow> got) @ rest, c2, w2))"

primrec pull_ones ::
  "'w client_env \<Rightarrow> nat \<Rightarrow> SessionHandle option \<Rightarrow> 'w \<Rightarrow>
   (bridge_error + bytes option) list \<times> SessionHandle option \<times> 'w" where
  "pull_ones env 0 h w = ([], h, w)"
| "pull_ones env (Suc k) h w =
     (case PullOne env h w of (res, h1, w1) \<Rightarrow>
        case pull_ones env k h1 w1 of (rest, h2, w2) \<Rightarrow> (res # rest, h2, w2))"

fun payloads_of :: "('e + bytes option) list \<Rightarrow> bytes list" where
  "payloads_of [] = []"
| "payloads_of (Inr (Some p) # rs) = p # payloads_of rs"
| "payloads_of (r # rs) = payloads_of rs"

lemma PullOne_pending:
  "sh_pending s = p # ps \<Longrightarrow> PullOne env (Some s) w = (Inr (Some p), Some (s\<lparr>sh_pending := ps\<rparr>), w)"
  by (simp add: PullOne_def)

lemma PullOne_empty:
  "sh_pending s = [] \<Longrightarrow> PullOne env (Some s) w =
     (case pull_at env (sh_c s) w of (res, c, w1) \<Rightarrow>
        (case res of
           Inl e \<Rightarrow> (Inl (BridgeClient e), Some (s\<lparr>sh_c := c\<rparr>), w1)
         | Inr [] \<Rightarrow> (Inr None, Some (s\<lparr>sh_c := c\<rparr>), w1)
         | Inr (p # ps) \<Rightarrow> (Inr (Some p), Some (s\<lparr>sh_c := c, sh_pending := ps\<rparr>), w1)))"
  by (auto simp: PullOne_def split: prod.split sum.split list.split)

lemma payloads_of_Cons: "payloads_of (r # rs) = payloads_of [r] @ payloads_of rs"
  by (cases "(r # rs)" rule: payloads_of.cases) simp_all

lemma PullOne_polls:
  assumes "sh_pending s = []" "pull_at env (sh_c s) w = (res, c1, w1)"
  shows "\<exists>r1 s1. PullOne env (Some s) w = (r1, Some s1, w1) \<and> sh_c s1 = c1 \<and>
    payloads_of [r1] @ sh_pending s1 = (case res of Inl e \<Rightarrow> [] | Inr got \<Rightarrow> got)"
proof (cases res)
  case (Inr got)
  then show ?thesis using assms by (cases got) (simp_all add: PullOne_empty)
qed (use assms in \<open>simp add: PullOne_empty\<close>)

lemma pull_ones_stream:
  "pull_ones env k (Some s) w = (rs, h, w') \<Longrightarrow>
   \<exists>s' j ps. h = Some s' \<and> j \<le> k \<and> polls env j (sh_c s) w = (ps, sh_c s', w') \<and>
     payloads_of rs @ sh_pending s' = sh_pending s @ ps"
proof (induction k arbitrary: s w rs)
  case 0
  then show ?case by (intro exI [of _ s] exI [of _ 0] exI [of _ "[]"]) simp
next
  case (Suc k)
  show ?case
  proof (cases "sh_pending s")
    case (Cons p ps)
    obtain rs1 where rs1: "pull_ones env k (Some (s\<lparr>sh_pending := ps\<rparr>)) w = (rs1, h, w')"
      "rs = Inr (Some p) # rs1"
      using Suc.prems by (auto simp: PullOne_pending [OF Cons] split: prod.splits)
    from Suc.IH [OF rs1(1)] obtain s' j qs where "h = Some s'" "j \<le> k"
      "polls env j (sh_c s) w = (qs, sh_c s', w')" "payloads_of rs1 @ sh_pending s' = ps @ qs"
      by auto
    then show ?thesis
      using rs1(2) Cons by (intro exI [of _ s'] exI [of _ j] exI [of _ qs]) simp
  next
    case Nil
    obtain res c1 w1 where p: "pull_at env (sh_c s) w = (res, c1, w1)" by (metis prod_cases3)
    define got where "got = (case res of Inl e \<Rightarrow> [] | Inr g \<Rightarrow> g)"
    obtain r1 s1 where one: "PullOne env (Some s) w = (r1, Some s1, w1)" "sh_c s1 = c1"
      "payloads_of [r1] @ sh_pending s1 = got"
      using PullOne_polls [OF Nil p] unfolding got_def by blast
    obtain rs1 where rs1: "pull_ones env k (Some s1) w1 = (rs1, h, w')" "rs = r1 # rs1"
      using Suc.prems one(1) by (auto split: prod.splits)
    from Suc.IH [OF rs1(1)] obtain s' j qs where ih: "h = Some s'" "j \<le> k"
      "polls env j c1 w1 = (qs, sh_c s', w')" "payloads_of rs1 @ sh_pending s' = sh_pending s1 @ qs"
      using one(2) by auto
    have "payloads_of rs @ sh_pending s' = got @ qs"
      using one(3) ih(4) payloads_of_Cons [of r1 rs1] unfolding rs1(2) by (metis append.assoc)
    moreover have "polls env (Suc j) (sh_c s) w = (got @ qs, sh_c s', w')"
      using ih(3) by (simp add: p got_def)
    ultimately show ?thesis
      using ih(1,2) Nil by (intro exI [of _ s'] exI [of _ "Suc j"] exI [of _ "got @ qs"]) simp
  qed
qed

section \<open>Properties\<close>

text \<open>C27: A sequence of \<open>PullOne\<close> calls is the stream of the polls behind it, one payload at a time: what
  the calls returned and what is still pending is exactly what some number of polls brought, in order,
  and the client is where these polls left it.\<close>

theorem PullOne_stream:
  "case pull_ones env k (Some s) w of (rs, h, w') \<Rightarrow>
     \<exists>s' j ps. h = Some s' \<and> j \<le> k \<and> polls env j (sh_c s) w = (ps, sh_c s', w') \<and>
       payloads_of rs @ sh_pending s' = sh_pending s @ ps"
  using pull_ones_stream by (auto split: prod.split)

text \<open>The connection id shown in the application is the one the client sends in its header.\<close>

theorem ConnectionIDHex_header:
  "ConnectionIDHex (Some s) = conn_header (sh_c s) client_HeaderConnectionID"
  by (simp add: ConnectionIDHex_def conn_header_def connIDBytes_def format_08x_hex)

end
