(* ===== verification/Logger.thy ===== *)
theory Logger
  imports GoFmt Float64
begin

text \<open>
  \<open>observability/logger.go\<close>: the category toggles, the logger, its JSON-lines writer and the short
  hash of identifiers. A writer is state of type \<open>'w\<close> and an operation that tells whether it
  succeeded; \<open>encoding/json\<close> is the parameter \<open>enc\<close> (\<open>None\<close> when it cannot marshal the line). The
  contract \<open>event_writer\<close> states what the logger needs of a writer that does not fail.
\<close>

section \<open>Categories and configuration\<close>

type_synonym Category = string

definition CatTxSend :: Category where "CatTxSend = ''tx_send''"
definition CatTxAck :: Category where "CatTxAck = ''tx_ack''"
definition CatTxError :: Category where "CatTxError = ''tx_error''"
definition CatCongestionWindow :: Category where "CatCongestionWindow = ''congestion.window_change''"
definition CatCongestionBlock :: Category where "CatCongestionBlock = ''congestion.block_change''"
definition CatCongestionBurst :: Category where "CatCongestionBurst = ''congestion.burst_events''"
definition CatHandshake :: Category where "CatHandshake = ''connection.handshake''"
definition CatLifecycle :: Category where "CatLifecycle = ''connection.lifecycle''"
definition CatNetworkIface :: Category where "CatNetworkIface = ''network.iface_change''"
definition CatTokenBinding :: Category where "CatTokenBinding = ''device.token_binding''"
definition CatTLSProfile :: Category where "CatTLSProfile = ''fingerprint.tls_profile''"
definition CatHTTP2Settings :: Category where "CatHTTP2Settings = ''fingerprint.http2_settings''"
definition CatRawHeaders :: Category where "CatRawHeaders = ''raw.http_headers''"
definition CatTestMode :: Category where "CatTestMode = ''test_mode''"

lemmas category_defs = CatTxSend_def CatTxAck_def CatTxError_def CatCongestionWindow_def
  CatCongestionBlock_def CatCongestionBurst_def CatHandshake_def CatLifecycle_def
  CatNetworkIface_def CatTokenBinding_def CatTLSProfile_def CatHTTP2Settings_def CatRawHeaders_def
  CatTestMode_def

datatype Verbosity = VerbosityDebug | VerbosityInfo | VerbositySilentExceptErrors

record LogConfig =
  lc_Verbosity :: Verbosity
  lc_Categories :: "(Category \<times> bool) list"

definition DefaultDevConfig :: LogConfig where
  "DefaultDevConfig = \<lparr>lc_Verbosity = VerbosityDebug,
     lc_Categories = [(CatTxSend, True), (CatTxAck, True), (CatTxError, True),
       (CatCongestionWindow, True), (CatCongestionBlock, True), (CatCongestionBurst, True),
       (CatHandshake, True), (CatLifecycle, True), (CatNetworkIface, True),
       (CatTokenBinding, True), (CatTLSProfile, True), (CatHTTP2Settings, True),
       (CatRawHeaders, True), (CatTestMode, True)]\<rparr>"

text \<open>A category that the map does not hold reads as false.\<close>

definition enabled :: "LogConfig \<Rightarrow> Category \<Rightarrow> bool" where
  "enabled c cat =
     (if lc_Verbosity c = VerbositySilentExceptErrors \<and> cat \<noteq> CatTxError then False
      else case map_of (lc_Categories c) cat of None \<Rightarrow> False | Some b \<Rightarrow> b)"

section \<open>Events and the logger\<close>

datatype field_value =
    FInt int
  | FStr string
  | FRat rat
  | FList "(string \<times> string) list list"

type_synonym fields = "(string \<times> field_value) list"

record Event =
  ev_Timestamp :: nanos
  ev_EventType :: string
  ev_Category :: Category
  ev_ConnIDPrefix :: string
  ev_Source :: string
  ev_Fields :: fields

type_synonym 'w event_sink = "Event \<Rightarrow> 'w \<Rightarrow> bool \<times> 'w"

record 'w Logger =
  lg_cfg :: LogConfig
  lg_writer :: 'w

definition NewLogger :: "LogConfig \<Rightarrow> 'w \<Rightarrow> 'w Logger" where
  "NewLogger cfg writer = \<lparr>lg_cfg = cfg, lg_writer = writer\<rparr>"

text \<open>A write error is reported on the standard error stream and nowhere else.\<close>

definition Log ::
  "'w event_sink \<Rightarrow> nanos \<Rightarrow> Category \<Rightarrow> string \<Rightarrow> string \<Rightarrow> string \<Rightarrow> fields \<Rightarrow> 'w Logger \<Rightarrow> 'w Logger" where
  "Log write now cat eventType connIDPrefix source fs l =
     (if \<not> enabled (lg_cfg l) cat then l
      else
        let ev = \<lparr>ev_Timestamp = now, ev_EventType = eventType, ev_Category = cat,
                  ev_ConnIDPrefix = connIDPrefix, ev_Source = source, ev_Fields = fs\<rparr>
        in case write ev (lg_writer l) of (ok, w) \<Rightarrow> l\<lparr>lg_writer := w\<rparr>)"

definition SetConfig :: "LogConfig \<Rightarrow> 'w Logger \<Rightarrow> 'w Logger" where
  "SetConfig cfg l = l\<lparr>lg_cfg := cfg\<rparr>"

section \<open>The JSON-lines writer\<close>

record jsonlLine =
  jl_TS :: int
  jl_Event :: string
  jl_Category :: string
  jl_Conn :: string
  jl_Source :: string
  jl_Fields :: fields

record JSONLWriter =
  jw_text :: string
  jw_open :: bool

text \<open>\<open>UnixMilli\<close> rounds towards the past; \<open>Encoder.Encode\<close> writes the line and a newline.\<close>

definition jsonl_line :: "Event \<Rightarrow> jsonlLine" where
  "jsonl_line ev = \<lparr>jl_TS = ev_Timestamp ev div millisecond, jl_Event = ev_EventType ev,
     jl_Category = ev_Category ev, jl_Conn = ev_ConnIDPrefix ev, jl_Source = ev_Source ev,
     jl_Fields = ev_Fields ev\<rparr>"

definition JSONL_Write :: "(jsonlLine \<Rightarrow> string option) \<Rightarrow> JSONLWriter event_sink" where
  "JSONL_Write enc ev w =
     (case enc (jsonl_line ev) of
        None \<Rightarrow> (False, w)
      | Some text \<Rightarrow>
          if jw_open w then (True, w\<lparr>jw_text := jw_text w @ text @ [CHR 0x0A]\<rparr>) else (False, w))"

definition JSONL_Close :: "JSONLWriter \<Rightarrow> bool \<times> JSONLWriter" where
  "JSONL_Close w = (jw_open w, w\<lparr>jw_open := False\<rparr>)"

text \<open>Opening appends to what the file holds; \<open>None\<close> when it cannot be opened. Closing a logger closes
  its writer.\<close>

definition NewJSONLWriter :: "string option \<Rightarrow> JSONLWriter option" where
  "NewJSONLWriter file = map_option (\<lambda>old. \<lparr>jw_text = old, jw_open = True\<rparr>) file"

definition Logger_Close :: "('w \<Rightarrow> bool \<times> 'w) \<Rightarrow> 'w Logger \<Rightarrow> bool \<times> 'w Logger" where
  "Logger_Close close l = (case close (lg_writer l) of (ok, w) \<Rightarrow> (ok, l\<lparr>lg_writer := w\<rparr>))"

section \<open>ShortHash\<close>

definition fnv_step :: "u32 \<Rightarrow> byte \<Rightarrow> u32" where
  "fnv_step h b = (h XOR ucast b) * 16777619"

definition ShortHash :: "bytes \<Rightarrow> string" where
  "ShortHash secretOrID = format_08x (foldl fnv_step 2166136261 secretOrID)"

section \<open>The contract of a writer\<close>

text \<open>A writer that stores the event \<open>ev\<close> as \<open>render ev\<close> at the end of its contents, while it is up.\<close>

locale event_writer =
  fixes sink :: "'w event_sink" and contents :: "'w \<Rightarrow> 'c list" and render :: "Event \<Rightarrow> 'c list"
    and is_up :: "'w \<Rightarrow> bool"
  assumes write_appends: "is_up w \<Longrightarrow>
    contents (snd (sink ev w)) = contents w @ render ev \<and> is_up (snd (sink ev w))"
begin

lemma Log_appends:
  "is_up (lg_writer l) \<Longrightarrow>
   contents (lg_writer (Log sink now cat et conn src fs l)) = contents (lg_writer l) @
     (if enabled (lg_cfg l) cat then render \<lparr>ev_Timestamp = now, ev_EventType = et, ev_Category = cat,
        ev_ConnIDPrefix = conn, ev_Source = src, ev_Fields = fs\<rparr> else []) \<and>
   is_up (lg_writer (Log sink now cat et conn src fs l)) \<and>
   lg_cfg (Log sink now cat et conn src fs l) = lg_cfg l"
  using write_appends [of "lg_writer l"] by (simp add: Log_def Let_def split_beta)

end

text \<open>A line that cannot be marshalled is skipped.\<close>

definition jsonl_render :: "(jsonlLine \<Rightarrow> string option) \<Rightarrow> Event \<Rightarrow> string" where
  "jsonl_render enc ev = (case enc (jsonl_line ev) of None \<Rightarrow> [] | Some text \<Rightarrow> text @ [CHR 0x0A])"

interpretation jsonl: event_writer "JSONL_Write enc" jw_text "jsonl_render enc" jw_open
  by unfold_locales (simp add: JSONL_Write_def jsonl_render_def split: option.split)

section \<open>Hashes of one byte apart\<close>

lemma fnv_prime_inverse: "(16777619 :: u32) * 899433627 = 1"
  by simp

lemma fnv_mult_inject: "x * 16777619 = y * (16777619 :: u32) \<longleftrightarrow> x = y"
proof
  assume "x * 16777619 = y * (16777619 :: u32)"
  then have "x * 16777619 * 899433627 = y * 16777619 * 899433627" by (rule arg_cong)
  then show "x = y" by (simp only: mult.assoc fnv_prime_inverse mult_1_right)
qed simp

lemma xor_left_inject: "h XOR x = h XOR y \<longleftrightarrow> x = (y :: u32)"
proof
  assume "h XOR x = h XOR y"
  then have "h XOR (h XOR x) = h XOR (h XOR y)" by (rule arg_cong)
  then show "x = y" by (simp add: xor.assoc [symmetric])
qed simp

lemma ucast_byte_inject: "(ucast a :: u32) = ucast b \<longleftrightarrow> a = (b :: byte)"
proof
  have "ucast (ucast x :: u32) = (x :: byte)" for x
    by (rule bit_word_eqI) (simp add: bit_simps)
  then show "(ucast a :: u32) = ucast b \<Longrightarrow> a = b" by metis
qed simp

lemma fnv_step_inject: "fnv_step h a = fnv_step h b \<longleftrightarrow> a = b"
  unfolding fnv_step_def by (simp only: fnv_mult_inject xor_left_inject ucast_byte_inject)

lemma fnv_step_inject_state: "fnv_step h b = fnv_step k b \<longleftrightarrow> h = k"
  unfolding fnv_step_def using xor_left_inject [of "ucast b" h k]
  by (simp only: fnv_mult_inject xor.commute)

lemma fnv_fold_inject: "foldl fnv_step h bs = foldl fnv_step k bs \<longleftrightarrow> h = k"
  by (induction bs arbitrary: h k) (simp_all add: fnv_step_inject_state)

lemma format_08x_inject: "format_08x v = format_08x w \<longleftrightarrow> v = w"
  using hex_Decode_Encode [of "put32 v"] hex_Decode_Encode [of "put32 w"]
  unfolding format_08x_hex by (metis option.inject put32_inject)

section \<open>Properties\<close>

text \<open>Identifiers that differ in one byte have different short hashes, and the hash of an identifier
  is always eight hexadecimal digits.\<close>

theorem ShortHash_one_byte:
  "(ShortHash (xs @ a # ys) = ShortHash (xs @ b # ys) \<longleftrightarrow> a = b) \<and> length (ShortHash xs) = 8"
  by (simp only: ShortHash_def format_08x_inject foldl_append foldl_Cons fnv_fold_inject fnv_step_inject)
    (simp add: format_08x_hex)

end
