(* ===== verification/TestMode.thy ===== *)
theory TestMode
  imports Logger
begin

text \<open>
  \<open>observability/testmode.go\<close>: the probes and the run that executes them in order and logs their
  results. A probe is a function on the world it measures. \<open>time.Duration.String\<close> and the text of an
  error are parameters (\<open>dur\<close>; an error is its text); durations wrap at 64 bits.
\<close>

section \<open>Results\<close>

datatype CheckStatus = StatusPass | StatusWarn | StatusFail | StatusInfo

fun status_text :: "CheckStatus \<Rightarrow> string" where
  "status_text StatusPass = ''PASS''"
| "status_text StatusWarn = ''WARN''"
| "status_text StatusFail = ''FAIL''"
| "status_text StatusInfo = ''INFO''"

record CheckResult =
  cr_Check :: string
  cr_Status :: CheckStatus
  cr_Detail :: string
  cr_Data :: fields

definition check_result :: "CheckStatus \<Rightarrow> string \<Rightarrow> fields \<Rightarrow> CheckResult" where
  "check_result st detail data =
     \<lparr>cr_Check = [], cr_Status = st, cr_Detail = detail, cr_Data = data\<rparr>"

record TestRunSummary =
  tr_StartedAt :: nanos
  tr_DurationMs :: int
  tr_Results :: "CheckResult list"

type_synonym 'w probe = "'w \<Rightarrow> CheckResult \<times> 'w"

section \<open>The run\<close>

text \<open>\<open>Register\<close> appends; \<open>NewTestMode\<close> starts with no probes.\<close>

record ('w, 'l) TestMode =
  tm_Logger :: "'l Logger option"
  tm_Probes :: "(string \<times> 'w probe) list"

definition NewTestMode :: "'l Logger option \<Rightarrow> ('w, 'l) TestMode" where
  "NewTestMode logger = \<lparr>tm_Logger = logger, tm_Probes = []\<rparr>"

definition Register :: "string \<Rightarrow> 'w probe \<Rightarrow> ('w, 'l) TestMode \<Rightarrow> ('w, 'l) TestMode" where
  "Register name p tm = tm\<lparr>tm_Probes := tm_Probes tm @ [(name, p)]\<rparr>"

definition check_fields :: "CheckResult \<Rightarrow> fields" where
  "check_fields r = [(''check'', FStr (cr_Check r)), (''status'', FStr (status_text (cr_Status r))),
     (''detail'', FStr (cr_Detail r))]"

definition log_check ::
  "'l event_sink \<Rightarrow> nanos \<Rightarrow> CheckResult \<Rightarrow> 'l Logger option \<Rightarrow> 'l Logger option" where
  "log_check sink now res lg =
     map_option (Log sink now CatTestMode ''test_check_result'' [] ''test_mode'' (check_fields res)) lg"

fun run_probes ::
  "'l event_sink \<Rightarrow> ('w \<Rightarrow> nanos) \<Rightarrow> (string \<times> 'w probe) list \<Rightarrow> 'l Logger option \<Rightarrow> 'w \<Rightarrow>
   CheckResult list \<times> 'l Logger option \<times> 'w" where
  "run_probes sink clock [] lg w = ([], lg, w)"
| "run_probes sink clock ((name, p) # ps) lg w =
     (case p w of (r, w1) \<Rightarrow>
        let res = r\<lparr>cr_Check := name\<rparr>
        in case run_probes sink clock ps (log_check sink (clock w1) res lg) w1 of
             (rest, lg2, w2) \<Rightarrow> (res # rest, lg2, w2))"

definition summary_fields :: "TestRunSummary \<Rightarrow> fields" where
  "summary_fields s = [(''duration_ms'', FInt (tr_DurationMs s)),
     (''results'', FList (map (\<lambda>r. [(''check'', cr_Check r), (''status'', status_text (cr_Status r)),
        (''detail'', cr_Detail r)]) (tr_Results s)))]"

definition Run ::
  "'l event_sink \<Rightarrow> ('w \<Rightarrow> nanos) \<Rightarrow> ('w, 'l) TestMode \<Rightarrow> 'w \<Rightarrow>
   TestRunSummary \<times> ('w, 'l) TestMode \<times> 'w" where
  "Run sink clock tm w =
     (let start = clock w in
      case run_probes sink clock (tm_Probes tm) (tm_Logger tm) w of (results, lg, w1) \<Rightarrow>
        let summary = \<lparr>tr_StartedAt = start, tr_DurationMs = go_quot (clock w1 - start) millisecond,
                       tr_Results = results\<rparr>;
            lg1 = map_option (Log sink (clock w1) CatTestMode ''test_run_summary'' [] ''test_mode''
                    (summary_fields summary)) lg
        in (summary, tm\<lparr>tm_Logger := lg1\<rparr>, w1))"

section \<open>Probes\<close>

definition go_decimal :: "int \<Rightarrow> string" where
  "go_decimal i = (if i < 0 then CHR ''-'' # decimal (nat (- i)) else decimal (nat i))"

text \<open>The loop of the body-limit probe: first failure (-1 for none), attempts, failures.\<close>

fun limit_loop ::
  "(int \<Rightarrow> 'w \<Rightarrow> (bool \<times> bool) \<times> 'w) \<Rightarrow> int list \<Rightarrow> int \<Rightarrow> nat \<Rightarrow> nat \<Rightarrow> 'w \<Rightarrow> (int \<times> nat \<times> nat) \<times> 'w" where
  "limit_loop push [] first attempts failures w = ((first, attempts, failures), w)"
| "limit_loop push (sz # szs) first attempts failures w =
     (case push sz w of ((ok, failed), w1) \<Rightarrow>
        if failed \<or> \<not> ok
        then limit_loop push szs (if first = - 1 then sz else first) (attempts + 1) (failures + 1) w1
        else limit_loop push szs first (attempts + 1) failures w1)"

definition fdiv :: "rat \<Rightarrow> rat \<Rightarrow> rat" where
  "fdiv x y = round64 (x / y)"

definition NewCDNBodyLimitProbe :: "(int \<Rightarrow> 'w \<Rightarrow> (bool \<times> bool) \<times> 'w) \<Rightarrow> int list \<Rightarrow> 'w probe" where
  "NewCDNBodyLimitProbe push sizes w =
     (case limit_loop push sizes (- 1) 0 0 w of ((first, attempts, failures), w1) \<Rightarrow>
        if first = - 1
        then (check_result StatusPass ''no incomplete responses across tested sizes'' [], w1)
        else
          let rate = fmul (fdiv (of_nat failures) (of_nat attempts)) 100
          in (check_result StatusWarn
                (''incomplete responses starting at '' @ go_decimal first @ '' bytes ('' @
                 go_decimal (round_half_even rate) @ ''% failure rate across tested sizes)'')
                [(''first_failure_bytes'', FInt first), (''failure_rate_pct'', FRat rate)], w1))"

text \<open>The loop of the round-trip probe: sum, minimum, maximum, number of samples.\<close>

fun rtt_loop ::
  "('w \<Rightarrow> (int + string) \<times> 'w) \<Rightarrow> nat \<Rightarrow> int \<Rightarrow> int \<Rightarrow> int \<Rightarrow> nat \<Rightarrow> 'w \<Rightarrow> (int \<times> int \<times> int \<times> nat) \<times> 'w" where
  "rtt_loop rtt 0 sm mn mx count w = ((sm, mn, mx, count), w)"
| "rtt_loop rtt (Suc n) sm mn mx count w =
     (case rtt w of (res, w1) \<Rightarrow>
        (case res of
           Inr err \<Rightarrow> rtt_loop rtt n sm mn mx count w1
         | Inl d \<Rightarrow> rtt_loop rtt n (i64 (sm + d)) (if count = 0 \<or> d < mn then d else mn)
                      (if d > mx then d else mx) (count + 1) w1))"

definition NewRTTBaselineProbe ::
  "(int \<Rightarrow> string) \<Rightarrow> ('w \<Rightarrow> (int + string) \<times> 'w) \<Rightarrow> nat \<Rightarrow> 'w probe" where
  "NewRTTBaselineProbe dur rtt samples w =
     (case rtt_loop rtt samples 0 0 0 0 w of ((sm, mn, mx, count), w1) \<Rightarrow>
        if count = 0 then (check_result StatusFail ''no successful RTT samples'' [], w1)
        else
          let avg = go_quot sm (int count)
          in (check_result StatusInfo
                (''rtt avg='' @ dur avg @ '' min='' @ dur mn @ '' max='' @ dur mx @ '' over '' @
                 go_decimal (int count) @ '' samples'')
                [(''rtt_avg_ms'', FInt (go_quot avg millisecond)),
                 (''rtt_min_ms'', FInt (go_quot mn millisecond)),
                 (''rtt_max_ms'', FInt (go_quot mx millisecond)), (''samples'', FInt (int count))], w1))"

definition NewReconnectProbe ::
  "(int \<Rightarrow> string) \<Rightarrow> ('w \<Rightarrow> (bool \<times> int \<times> string option) \<times> 'w) \<Rightarrow> 'w probe" where
  "NewReconnectProbe dur reconnect w =
     (case reconnect w of ((confirmed, elapsed, err), w1) \<Rightarrow>
        (case err of
           Some e \<Rightarrow> (check_result StatusFail (''reconnect error: '' @ e) [], w1)
         | None \<Rightarrow>
             if \<not> confirmed
             then (check_result StatusFail ''grace period expired without key confirmation'' [], w1)
             else (check_result StatusPass (''reconnect handled correctly, grace closed in '' @ dur elapsed)
                     [(''grace_closed_ms'', FInt (go_quot elapsed millisecond))], w1)))"

definition NewFingerprintProbe ::
  "string \<Rightarrow> ('w \<Rightarrow> (bool \<times> string \<times> string option) \<times> 'w) \<Rightarrow> 'w probe" where
  "NewFingerprintProbe name check w =
     (case check w of ((matches, detail, err), w1) \<Rightarrow>
        (case err of
           Some e \<Rightarrow> (check_result StatusFail (name @ '' check error: '' @ e) [], w1)
         | None \<Rightarrow>
             if \<not> matches then (check_result StatusFail (''MISMATCH: '' @ detail) [], w1)
             else (check_result StatusPass (name @ '' applied as expected'') [], w1)))"

section \<open>The round-trip statistics\<close>

text \<open>The samples that a run of the probe takes, in order.\<close>

primrec rtt_samples :: "('w \<Rightarrow> (int + string) \<times> 'w) \<Rightarrow> nat \<Rightarrow> 'w \<Rightarrow> int list" where
  "rtt_samples rtt 0 w = []"
| "rtt_samples rtt (Suc n) w =
     (case rtt w of (res, w1) \<Rightarrow>
        (case res of Inr err \<Rightarrow> [] | Inl d \<Rightarrow> [d]) @ rtt_samples rtt n w1)"

text \<open>What the loop has seen so far, as the statistics of a list.\<close>

definition rtt_stats :: "int list \<Rightarrow> int \<times> int \<times> int \<times> nat" where
  "rtt_stats ds = (sum_list ds, if ds = [] then 0 else Min (set ds), if ds = [] then 0 else Max (set ds),
     length ds)"

lemma rtt_stats_snoc:
  assumes "\<forall>x \<in> set (ds @ [d]). 0 \<le> x"
  shows "rtt_stats (ds @ [d]) = (sum_list ds + d,
    (if length ds = 0 \<or> d < fst (snd (rtt_stats ds)) then d else fst (snd (rtt_stats ds))),
    (if d > fst (snd (snd (rtt_stats ds))) then d else fst (snd (snd (rtt_stats ds)))), length ds + 1)"
proof (cases "ds = []")
  case False
  define mn where "mn = Min (set ds)"
  define mx where "mx = Max (set ds)"
  have "Min (insert d (set ds)) = min d mn" "Max (insert d (set ds)) = max d mx"
    using False by (simp_all add: mn_def mx_def)
  then show ?thesis
    using False by (simp add: rtt_stats_def mn_def [symmetric] mx_def [symmetric] min_def max_def)
qed (use assms in \<open>auto simp: rtt_stats_def\<close>)

lemma sum_list_bound: "\<forall>x \<in> set ds. 0 \<le> x \<and> x \<le> (b :: int) \<Longrightarrow> 0 \<le> sum_list ds \<and> sum_list ds \<le> int (length ds) * b"
  by (induction ds) (auto simp: algebra_simps)

lemma rtt_loop_stats:
  assumes "0 \<le> b"
  shows "\<forall>x \<in> set (ds @ rtt_samples rtt n w). 0 \<le> x \<and> x \<le> b \<Longrightarrow>
   int (length ds + n) * b < 2 ^ 63 \<Longrightarrow>
   rtt_stats ds = (sm, mn, mx, count) \<Longrightarrow>
   fst (rtt_loop rtt n sm mn mx count w) = rtt_stats (ds @ rtt_samples rtt n w)"
proof (induction n arbitrary: ds sm mn mx count w)
  case (Suc n)
  obtain res w1 where r: "rtt w = (res, w1)" by (cases "rtt w")
  show ?case
  proof (cases res)
    case (Inr e)
    have "int (length ds + n) * b < 2 ^ 63" using Suc.prems(2) \<open>0 \<le> b\<close> by (simp add: algebra_simps)
    then show ?thesis using Suc.IH [of ds w1 sm mn mx count] Suc.prems(1,3) Inr r by simp
  next
    case (Inl d)
    have ok: "\<forall>x \<in> set ((ds @ [d]) @ rtt_samples rtt n w1). 0 \<le> x \<and> x \<le> b"
      using Suc.prems(1) Inl r by simp
    then have nonneg: "\<forall>x \<in> set (ds @ [d]). 0 \<le> x" by auto
    have room: "int (length (ds @ [d]) + n) * b < 2 ^ 63" using Suc.prems(2) by (simp add: algebra_simps)
    have "sum_list (ds @ [d]) \<le> int (length (ds @ [d])) * b" "0 \<le> sum_list (ds @ [d])"
      using sum_list_bound [of "ds @ [d]" b] ok by auto
    moreover have "int (length (ds @ [d])) * b \<le> int (length (ds @ [d]) + n) * b"
      using \<open>0 \<le> b\<close> by (intro mult_right_mono) simp_all
    ultimately have "i64 (sum_list ds + d) = sum_list ds + d"
      using room by (intro i64_id) simp_all
    then have stats: "rtt_stats (ds @ [d]) = (i64 (sm + d), if count = 0 \<or> d < mn then d else mn,
        if d > mx then d else mx, count + 1)"
      using rtt_stats_snoc [OF nonneg] Suc.prems(3) by (auto simp: rtt_stats_def)
    show ?thesis using Suc.IH [OF ok room stats] Inl r by simp
  qed
qed simp

lemma rtt_mean_between:
  assumes "ds \<noteq> []" "\<forall>x \<in> set ds. 0 \<le> x"
  shows "Min (set ds) \<le> go_quot (sum_list ds) (int (length ds))"
    "go_quot (sum_list ds) (int (length ds)) \<le> Max (set ds)"
proof -
  have "int (length ds) * Min (set ds) \<le> sum_list ds" "sum_list ds \<le> int (length ds) * Max (set ds)"
  proof -
    have "sum_list (map (\<lambda>x. Min (set ds)) ds) \<le> sum_list (map (\<lambda>x. x) ds)"
      "sum_list (map (\<lambda>x. x) ds) \<le> sum_list (map (\<lambda>x. Max (set ds)) ds)"
      by (rule sum_list_mono, simp)+
    then show "int (length ds) * Min (set ds) \<le> sum_list ds" "sum_list ds \<le> int (length ds) * Max (set ds)"
      by (simp_all add: sum_list_triv)
  qed
  moreover have "0 < int (length ds)" "0 \<le> sum_list ds" using assms by (auto intro: sum_list_nonneg)
  ultimately show "Min (set ds) \<le> go_quot (sum_list ds) (int (length ds))"
    "go_quot (sum_list ds) (int (length ds)) \<le> Max (set ds)"
    using zdiv_mono1 [of "int (length ds) * Min (set ds)" "sum_list ds" "int (length ds)"]
      zdiv_mono1 [of "sum_list ds" "int (length ds) * Max (set ds)" "int (length ds)"]
    by (simp_all add: go_quot_pos)
qed

section \<open>The log of a run\<close>

definition check_event :: "nanos \<Rightarrow> CheckResult \<Rightarrow> Event" where
  "check_event now r = \<lparr>ev_Timestamp = now, ev_EventType = ''test_check_result'',
     ev_Category = CatTestMode, ev_ConnIDPrefix = [], ev_Source = ''test_mode'',
     ev_Fields = check_fields r\<rparr>"

definition summary_event :: "nanos \<Rightarrow> TestRunSummary \<Rightarrow> Event" where
  "summary_event now s = \<lparr>ev_Timestamp = now, ev_EventType = ''test_run_summary'',
     ev_Category = CatTestMode, ev_ConnIDPrefix = [], ev_Source = ''test_mode'',
     ev_Fields = summary_fields s\<rparr>"

lemma run_probes_names:
  "run_probes sink clock ps lg w = (rs, lg', w') \<Longrightarrow> map cr_Check rs = map fst ps"
  by (induction ps arbitrary: lg w rs) (auto simp: Let_def split: prod.splits)

lemma run_probes_no_logger:
  "run_probes sink clock ps None w = (rs, lg', w') \<Longrightarrow> lg' = None"
  by (induction ps arbitrary: w rs) (auto simp: Let_def log_check_def split: prod.splits)

context event_writer
begin

lemma run_probes_log:
  "is_up (lg_writer l) \<Longrightarrow> run_probes sink clock ps (Some l) w = (rs, lg', w') \<Longrightarrow>
   \<exists>l' ts. lg' = Some l' \<and> length ts = length rs \<and> is_up (lg_writer l') \<and> lg_cfg l' = lg_cfg l \<and>
     contents (lg_writer l') = contents (lg_writer l) @
       (if enabled (lg_cfg l) CatTestMode then concat (map render (map2 check_event ts rs)) else [])"
proof (induction ps arbitrary: l w rs)
  case Nil
  then show ?case by auto
next
  case (Cons np ps)
  obtain name p where np: "np = (name, p)" by (cases np)
  obtain r w1 where r: "p w = (r, w1)" by (cases "p w")
  let ?res = "r\<lparr>cr_Check := name\<rparr>"
  define l1 where
    "l1 = Log sink (clock w1) CatTestMode ''test_check_result'' [] ''test_mode'' (check_fields ?res) l"
  obtain rest where rest: "run_probes sink clock ps (Some l1) w1 = (rest, lg', w')" "rs = ?res # rest"
    using Cons.prems(2) by (auto simp: np r Let_def log_check_def l1_def split: prod.splits)
  have one: "contents (lg_writer l1) = contents (lg_writer l) @
      (if enabled (lg_cfg l) CatTestMode then render (check_event (clock w1) ?res) else [])"
    "is_up (lg_writer l1)" "lg_cfg l1 = lg_cfg l"
    using Log_appends [OF Cons.prems(1)] by (simp_all add: l1_def check_event_def)
  from Cons.IH [OF one(2) rest(1)] obtain l' ts where "lg' = Some l'" "length ts = length rest"
    "is_up (lg_writer l')" "lg_cfg l' = lg_cfg l1" "contents (lg_writer l') = contents (lg_writer l1) @
       (if enabled (lg_cfg l1) CatTestMode then concat (map render (map2 check_event ts rest)) else [])"
    by blast
  then show ?case
    using one rest(2) by (intro exI [of _ l'] exI [of _ "clock w1 # ts"]) simp
qed

lemma Run_log:
  assumes "tm_Logger tm = Some l" "is_up (lg_writer l)" "Run sink clock tm w = (summary, tm', w')"
  shows "\<exists>l' ts. tm_Logger tm' = Some l' \<and> length ts = length (tr_Results summary) \<and>
    contents (lg_writer l') = contents (lg_writer l) @
      (if enabled (lg_cfg l) CatTestMode
       then concat (map render (map2 check_event ts (tr_Results summary) @
              [summary_event (clock w') summary])) else [])"
proof -
  obtain rs lg w1 where rp: "run_probes sink clock (tm_Probes tm) (Some l) w = (rs, lg, w1)"
    by (metis prod_cases3)
  from run_probes_log [OF assms(2) rp] obtain l1 ts where l1: "lg = Some l1" "length ts = length rs"
    "is_up (lg_writer l1)" "lg_cfg l1 = lg_cfg l" "contents (lg_writer l1) = contents (lg_writer l) @
       (if enabled (lg_cfg l) CatTestMode then concat (map render (map2 check_event ts rs)) else [])"
    by blast
  have s: "tr_Results summary = rs" "w' = w1" "tm_Logger tm' = Some (Log sink (clock w1) CatTestMode
      ''test_run_summary'' [] ''test_mode'' (summary_fields summary) l1)"
    using assms(1,3) rp l1(1) by (auto simp: Run_def Let_def)
  show ?thesis
    using Log_appends [OF l1(3)] l1(2,4,5) s
    by (intro exI [of _ "Log sink (clock w1) CatTestMode ''test_run_summary'' [] ''test_mode''
          (summary_fields summary) l1"] exI [of _ ts]) (simp add: summary_event_def)
qed

end

section \<open>Properties\<close>

text \<open>C40: A test run reports one result per registered probe, under its name and in the order of
  registration; with an open JSON-lines file and the test-mode category enabled, it appends to the file
  exactly one line per result and then the summary, and nothing when the category is disabled.\<close>

theorem test_run_logged:
  assumes "tm_Logger tm = Some lg" "jw_open (lg_writer lg)"
  shows "case Run (JSONL_Write enc) clock tm w of (summary, tm', w') \<Rightarrow>
    map cr_Check (tr_Results summary) = map fst (tm_Probes tm) \<and>
    (\<exists>lg' ts. tm_Logger tm' = Some lg' \<and> length ts = length (tr_Results summary) \<and>
       jw_text (lg_writer lg') = jw_text (lg_writer lg) @
         (if enabled (lg_cfg lg) CatTestMode
          then concat (map (jsonl_render enc) (map2 check_event ts (tr_Results summary) @
                 [summary_event (clock w') summary])) else []))"
proof -
  obtain summary tm' w' where run: "Run (JSONL_Write enc) clock tm w = (summary, tm', w')"
    by (metis prod_cases3)
  have "map cr_Check (tr_Results summary) = map fst (tm_Probes tm)"
    using run by (auto simp: Run_def Let_def dest: run_probes_names split: prod.splits)
  then show ?thesis using jsonl.Run_log [OF assms run] by (simp only: run prod.case)
qed

theorem test_run_logged_witness:
  "case Run (JSONL_Write (\<lambda>l. Some (jl_Event l))) (\<lambda>w. w) (Register ''a'' (\<lambda>w. (check_result StatusPass [] [], w + 1))
      (NewTestMode (Some (NewLogger DefaultDevConfig \<lparr>jw_text = [], jw_open = True\<rparr>)))) 0 of
      (summary, tm', w') \<Rightarrow>
    map cr_Check (tr_Results summary) = [''a''] \<and>
    (\<exists>lg'. tm_Logger tm' = Some lg' \<and>
       jw_text (lg_writer lg') = ''test_check_result'' @ [CHR 0x0A] @ ''test_run_summary'' @ [CHR 0x0A])"
proof -
  let ?tm = "Register ''a'' (\<lambda>w :: int. (check_result StatusPass [] [], w + 1))
    (NewTestMode (Some (NewLogger DefaultDevConfig \<lparr>jw_text = [], jw_open = True\<rparr>)))"
  have en: "enabled DefaultDevConfig CatTestMode"
    by (simp add: enabled_def DefaultDevConfig_def category_defs)
  obtain summary tm' w' where run: "Run (JSONL_Write (\<lambda>l. Some (jl_Event l))) (\<lambda>w. w) ?tm 0 = (summary, tm', w')"
    by (metis prod_cases3)
  have names: "map cr_Check (tr_Results summary) = [''a'']"
    and log: "\<exists>lg' ts. tm_Logger tm' = Some lg' \<and> length ts = length (tr_Results summary) \<and>
       jw_text (lg_writer lg') = concat (map (jsonl_render (\<lambda>l. Some (jl_Event l)))
         (map2 check_event ts (tr_Results summary) @ [summary_event w' summary]))"
    using test_run_logged [where tm = ?tm and lg = "NewLogger DefaultDevConfig \<lparr>jw_text = [], jw_open = True\<rparr>"
        and enc = "\<lambda>l. Some (jl_Event l)" and clock = "\<lambda>w. w" and w = 0] run en
    by (simp_all add: Register_def NewTestMode_def NewLogger_def)
  obtain r where r: "tr_Results summary = [r]" using names by auto
  show ?thesis
    using names log unfolding run
    by (auto simp: r length_Suc_conv jsonl_render_def jsonl_line_def check_event_def summary_event_def)
qed

text \<open>For samples that are not negative and whose sum fits 63 bits, the round-trip probe reports
  exactly their mean, minimum, maximum and number, in milliseconds, and the mean lies between the two;
  without samples it fails.\<close>

theorem rtt_probe_statistics:
  assumes "\<forall>x \<in> set (rtt_samples rtt n w). 0 \<le> x \<and> x \<le> b" "0 \<le> b" "int n * b < 2 ^ 63"
  shows "let ds = rtt_samples rtt n w; r = fst (NewRTTBaselineProbe dur rtt n w);
      avg = sum_list ds div int (length ds) in
    if ds = [] then cr_Status r = StatusFail
    else cr_Status r = StatusInfo \<and> Min (set ds) \<le> avg \<and> avg \<le> Max (set ds) \<and>
      cr_Data r = [(''rtt_avg_ms'', FInt (avg div millisecond)),
        (''rtt_min_ms'', FInt (Min (set ds) div millisecond)),
        (''rtt_max_ms'', FInt (Max (set ds) div millisecond)), (''samples'', FInt (int (length ds)))]"
proof -
  let ?ds = "rtt_samples rtt n w"
  have stats: "fst (rtt_loop rtt n 0 0 0 0 w) = rtt_stats ?ds"
    using rtt_loop_stats [OF assms(2), of "[]" rtt n w 0 0 0 0] assms(1,3) by (simp add: rtt_stats_def)
  obtain w1 where loop: "rtt_loop rtt n 0 0 0 0 w = (rtt_stats ?ds, w1)"
    using stats by (metis prod.collapse)
  show ?thesis
  proof (cases "?ds = []")
    case True
    then show ?thesis
      by (simp add: NewRTTBaselineProbe_def loop) (simp add: rtt_stats_def check_result_def)
  next
    case False
    have nonneg: "\<forall>x \<in> set ?ds. 0 \<le> x" using assms(1) by blast
    have s: "0 \<le> sum_list ?ds" "0 < int (length ?ds)"
      using False nonneg by (auto intro: sum_list_nonneg)
    have avg: "go_quot (sum_list ?ds) (int (length ?ds)) = sum_list ?ds div int (length ?ds)"
      using s by (simp add: go_quot_pos)
    have "0 \<le> sum_list ?ds div int (length ?ds)" using s by (simp add: pos_imp_zdiv_nonneg_iff)
    moreover have "0 \<le> Min (set ?ds)" "0 \<le> Max (set ?ds)"
      using False nonneg by (auto intro: Min_in Max_in)
    ultimately have data: "cr_Data (fst (NewRTTBaselineProbe dur rtt n w)) =
        [(''rtt_avg_ms'', FInt (sum_list ?ds div int (length ?ds) div millisecond)),
         (''rtt_min_ms'', FInt (Min (set ?ds) div millisecond)),
         (''rtt_max_ms'', FInt (Max (set ?ds) div millisecond)), (''samples'', FInt (int (length ?ds)))]"
      "cr_Status (fst (NewRTTBaselineProbe dur rtt n w)) = StatusInfo"
      using False
      by (simp_all add: NewRTTBaselineProbe_def loop rtt_stats_def avg check_result_def Let_def go_quot_pos)
    then show ?thesis
      using False rtt_mean_between [OF False nonneg] by (simp add: Let_def avg)
  qed
qed

theorem rtt_probe_statistics_witness:
  "let r = fst (NewRTTBaselineProbe (\<lambda>d. []) (\<lambda>w. (if w = 1 then Inr ''x'' else Inl (w * 3000000), w + 1)) 3 (0 :: int)) in
    cr_Status r = StatusInfo \<and> cr_Data r = [(''rtt_avg_ms'', FInt 3), (''rtt_min_ms'', FInt 0),
      (''rtt_max_ms'', FInt 6), (''samples'', FInt 2)]"
proof -
  let ?rtt = "\<lambda>w :: int. (if w = 1 then Inr ''x'' else Inl (w * 3000000), w + 1)"
  have "rtt_samples ?rtt 3 0 = [0, 6000000]" by (simp add: numeral_3_eq_3)
  then show ?thesis
    using rtt_probe_statistics [where rtt = ?rtt and n = 3 and w = 0 and b = 6000000 and dur = "\<lambda>d. []"]
    by (simp add: Let_def)
qed

end
