(* ===== verification/SqliteWriter.thy ===== *)
theory SqliteWriter
  imports Logger
begin

text \<open>
  \<open>observability/sqlitewriter/sqlitewriter.go\<close>: the event writer on an SQLite table. The SQL of the
  source is translated: the table is its rows with the counter of \<open>AUTOINCREMENT\<close>, \<open>INSERT\<close> appends a
  row under the next id, \<open>DELETE\<close> keeps the rows outside its condition. Whether the engine carries a
  statement out is input (\<open>exec_ok\<close>), \<open>json.Marshal\<close> is the parameter \<open>marshal\<close>.
\<close>

section \<open>Model\<close>

record event_row =
  er_id :: nat
  er_ts :: int
  er_event_type :: string
  er_category :: string
  er_conn_id_prefix :: string
  er_source :: string
  er_fields_json :: string

record SqliteWriter =
  sw_rows :: "event_row list"
  sw_seq :: nat
  sw_open :: bool

text \<open>\<open>New\<close>: the database file with the table of an earlier run, or a new one.\<close>

definition sqlite_New :: "bool \<Rightarrow> bool \<Rightarrow> (event_row list \<times> nat) option \<Rightarrow> SqliteWriter option" where
  "sqlite_New opened exec_ok old =
     (if \<not> opened then None
      else if \<not> exec_ok then None
      else case old of
             None \<Rightarrow> Some \<lparr>sw_rows = [], sw_seq = 0, sw_open = True\<rparr>
           | Some (rows, n) \<Rightarrow> Some \<lparr>sw_rows = rows, sw_seq = n, sw_open = True\<rparr>)"

definition event_row_of :: "nat \<Rightarrow> Event \<Rightarrow> string \<Rightarrow> event_row" where
  "event_row_of n ev json = \<lparr>er_id = n, er_ts = ev_Timestamp ev div millisecond,
     er_event_type = ev_EventType ev, er_category = ev_Category ev,
     er_conn_id_prefix = ev_ConnIDPrefix ev, er_source = ev_Source ev, er_fields_json = json\<rparr>"

definition sqlite_Write ::
  "(fields \<Rightarrow> string option) \<Rightarrow> (SqliteWriter \<Rightarrow> bool) \<Rightarrow> SqliteWriter event_sink" where
  "sqlite_Write marshal exec_ok ev w =
     (case marshal (ev_Fields ev) of
        None \<Rightarrow> (False, w)
      | Some json \<Rightarrow>
          if sw_open w \<and> exec_ok w
          then (True, w\<lparr>sw_rows := sw_rows w @ [event_row_of (sw_seq w + 1) ev json],
                        sw_seq := sw_seq w + 1\<rparr>)
          else (False, w))"

definition sqlite_Close :: "SqliteWriter \<Rightarrow> bool \<times> SqliteWriter" where
  "sqlite_Close w = (sw_open w, w\<lparr>sw_open := False\<rparr>)"

definition Rotate :: "(SqliteWriter \<Rightarrow> bool) \<Rightarrow> nanos \<Rightarrow> nanos \<Rightarrow> SqliteWriter \<Rightarrow> bool \<times> SqliteWriter" where
  "Rotate exec_ok now maxAge w =
     (let cutoff = (now - maxAge) div millisecond in
      if sw_open w \<and> exec_ok w
      then (True, w\<lparr>sw_rows := filter (\<lambda>r. \<not> er_ts r < cutoff) (sw_rows w)\<rparr>)
      else (False, w))"

section \<open>A writer of events\<close>

text \<open>What a row says of its event; an event that cannot be marshalled leaves no row.\<close>

definition row_data :: "event_row \<Rightarrow> event_row" where
  "row_data r = r\<lparr>er_id := 0\<rparr>"

definition sqlite_render :: "(fields \<Rightarrow> string option) \<Rightarrow> Event \<Rightarrow> event_row list" where
  "sqlite_render marshal ev =
     (case marshal (ev_Fields ev) of None \<Rightarrow> [] | Some json \<Rightarrow> [event_row_of 0 ev json])"

interpretation sqlite: event_writer "sqlite_Write marshal (\<lambda>w. True)" "map row_data \<circ> sw_rows"
  "sqlite_render marshal" sw_open
  by unfold_locales
    (simp add: sqlite_Write_def sqlite_render_def row_data_def event_row_of_def split: option.split)

section \<open>Row ids\<close>

text \<open>The ids of the table increase and are never given out twice, also after a rotation.\<close>

datatype table_event = TableWrite Event | TableRotate nanos nanos | TableClose

fun table_step ::
  "(fields \<Rightarrow> string option) \<Rightarrow> (SqliteWriter \<Rightarrow> bool) \<Rightarrow> SqliteWriter \<Rightarrow> table_event \<Rightarrow> SqliteWriter" where
  "table_step marshal exec_ok w (TableWrite ev) = snd (sqlite_Write marshal exec_ok ev w)"
| "table_step marshal exec_ok w (TableRotate now maxAge) = snd (Rotate exec_ok now maxAge w)"
| "table_step marshal exec_ok w TableClose = snd (sqlite_Close w)"

definition table_inv :: "SqliteWriter \<Rightarrow> bool" where
  "table_inv w \<longleftrightarrow> sorted_wrt (<) (map er_id (sw_rows w)) \<and> (\<forall>r \<in> set (sw_rows w). er_id r \<le> sw_seq w)"

lemma table_inv_step: "table_inv w \<Longrightarrow> table_inv (table_step marshal exec_ok w e)"
  by (cases e)
    (auto simp: table_inv_def sqlite_Write_def Rotate_def sqlite_Close_def event_row_of_def Let_def
      sorted_wrt_append sorted_wrt_map intro: sorted_wrt_filter split: option.split)

interpretation table: invariant_machine "table_step marshal exec_ok" table_inv "\<lambda>_. True"
  by unfold_locales (rule table_inv_step)

lemma table_ids_increase:
  assumes "table_inv w"
  shows "sorted_wrt (<) (map er_id (sw_rows (foldl (table_step marshal exec_ok) w es)))"
  using table.inv_run [OF assms, of es] by (simp add: table_inv_def list_all_iff)

lemma rotate_keeps_recent:
  "sw_open w \<Longrightarrow> exec_ok w \<Longrightarrow>
   set (sw_rows (snd (Rotate exec_ok now maxAge w))) =
     {r \<in> set (sw_rows w). (now - maxAge) div millisecond \<le> er_ts r}"
  by (auto simp: Rotate_def Let_def)

end
