(* ===== verification/Fingerprint.thy ===== *)
theory Fingerprint
  imports GoLib
begin

text \<open>
  \<open>fingerprint/profiles.go\<close> and \<open>fingerprint/utlsclient/utlsclient.go\<close>: the pool of browser profiles
  and how one is applied to a TLS connection. The identifiers of the uTLS library are the
  parameters \<open>chrome120\<close> and \<open>chromeAuto\<close>; dial and handshake outcomes are input.
\<close>

section \<open>Profiles\<close>

record HTTP2Settings =
  HeaderTableSize :: u32
  EnablePush :: u32
  MaxConcurrentStreams :: u32
  InitialWindowSize :: u32
  MaxFrameSize :: u32
  MaxHeaderListSize :: u32

record Profile =
  pf_ID :: string
  pf_UTLSClientHelloID :: string
  pf_UserAgent :: string
  pf_HTTP2Settings :: HTTP2Settings
  pf_Platform :: string

definition chrome_settings :: HTTP2Settings where
  "chrome_settings = \<lparr>HeaderTableSize = 65536, EnablePush = 0, MaxConcurrentStreams = 1000,
     InitialWindowSize = 6291456, MaxFrameSize = 16384, MaxHeaderListSize = 262144\<rparr>"

definition Pool :: "Profile list" where
  "Pool = [
     \<lparr>pf_ID = ''android-chrome-120'', pf_UTLSClientHelloID = ''HelloChrome_120'',
      pf_UserAgent = ''Mozilla/5.0 (Linux; Android 14; Pixel 8) AppleWebKit/537.36 (KHTML, like Gecko) Chrome/120.0.0.0 Mobile Safari/537.36'',
      pf_HTTP2Settings = chrome_settings, pf_Platform = ''android''\<rparr>,
     \<lparr>pf_ID = ''android-chrome-124'', pf_UTLSClientHelloID = ''HelloChrome_124'',
      pf_UserAgent = ''Mozilla/5.0 (Linux; Android 14; SM-S911B) AppleWebKit/537.36 (KHTML, like Gecko) Chrome/124.0.0.0 Mobile Safari/537.36'',
      pf_HTTP2Settings = chrome_settings, pf_Platform = ''android''\<rparr>,
     \<lparr>pf_ID = ''android-chrome-latest-auto'', pf_UTLSClientHelloID = ''HelloChrome_Auto'',
      pf_UserAgent = ''Mozilla/5.0 (Linux; Android 15; Pixel 9) AppleWebKit/537.36 (KHTML, like Gecko) Chrome/128.0.0.0 Mobile Safari/537.36'',
      pf_HTTP2Settings = chrome_settings, pf_Platform = ''android''\<rparr>]"

text \<open>\<open>None\<close> is the zero profile with \<open>false\<close>.\<close>

fun find_profile :: "Profile list \<Rightarrow> string \<Rightarrow> Profile option" where
  "find_profile [] i = None"
| "find_profile (p # ps) i = (if pf_ID p = i then Some p else find_profile ps i)"

definition ByID :: "string \<Rightarrow> Profile option" where
  "ByID i = find_profile Pool i"

section \<open>uTLS\<close>

record 'h utls_ids =
  chrome120 :: 'h
  chromeAuto :: 'h

definition clientHelloIDByName :: "'h utls_ids \<Rightarrow> (string \<times> 'h) list" where
  "clientHelloIDByName u = [(''HelloChrome_120'', chrome120 u), (''HelloChrome_124'', chrome120 u),
     (''HelloChrome_Auto'', chromeAuto u)]"

record RoundTripper =
  rt_Profile :: Profile
  rt_DialTimeout :: nanos

datatype utls_error = UnknownClientHelloID string

definition utls_New :: "'h utls_ids \<Rightarrow> Profile \<Rightarrow> utls_error + RoundTripper" where
  "utls_New u profile =
     (case map_of (clientHelloIDByName u) (pf_UTLSClientHelloID profile) of
        None \<Rightarrow> Inl (UnknownClientHelloID (pf_UTLSClientHelloID profile))
      | Some _ \<Rightarrow> Inr \<lparr>rt_Profile = profile, rt_DialTimeout = 10 * second\<rparr>)"

text \<open>
  \<open>dialTLS\<close>: \<open>dialled\<close> is the raw connection, if the dial succeeds, and \<open>shakes\<close> the outcome of the
  handshake for a server name and a hello. The result is the connection or its failure, and the raw
  connections that were closed. A name without an entry reads as the zero value \<open>zero_id\<close>.
\<close>

datatype dial_failure = DialFailed | HandshakeFailed

definition dialTLS ::
  "'h utls_ids \<Rightarrow> 'h \<Rightarrow> RoundTripper \<Rightarrow> nat option \<Rightarrow> (string \<Rightarrow> 'h \<Rightarrow> bool) \<Rightarrow> string \<Rightarrow>
   (dial_failure + nat \<times> string \<times> 'h) \<times> nat list" where
  "dialTLS u zero_id rt dialled shakes addr =
     (case dialled of
        None \<Rightarrow> (Inl DialFailed, [])
      | Some raw \<Rightarrow>
          let host = (case SplitHostPort addr of Inl _ \<Rightarrow> addr | Inr (h, _) \<Rightarrow> h);
              helloID = (case map_of (clientHelloIDByName u) (pf_UTLSClientHelloID (rt_Profile rt)) of
                           None \<Rightarrow> zero_id | Some i \<Rightarrow> i)
          in if \<not> shakes host helloID then (Inl HandshakeFailed, [raw])
             else (Inr (raw, host, helloID), []))"

record http_client =
  hc_rt :: RoundTripper
  hc_ForceHTTP2 :: bool
  hc_Timeout :: nanos

definition NewHTTPClient :: "'h utls_ids \<Rightarrow> Profile \<Rightarrow> utls_error + http_client" where
  "NewHTTPClient u profile =
     bindR (utls_New u profile) (\<lambda>rt.
       Inr \<lparr>hc_rt = rt, hc_ForceHTTP2 = True, hc_Timeout = 30 * second\<rparr>)"

section \<open>Lookup\<close>

lemma find_profile_Some: "find_profile ps i = Some p \<Longrightarrow> p \<in> set ps \<and> pf_ID p = i"
  by (induction ps) (auto split: if_splits)

lemma find_profile_distinct:
  "distinct (map pf_ID ps) \<Longrightarrow> find_profile ps i = Some p \<longleftrightarrow> p \<in> set ps \<and> pf_ID p = i"
  by (induction ps) (auto dest: find_profile_Some)

lemma Pool_distinct: "distinct (map pf_ID Pool)"
  by (simp add: Pool_def)

lemma Pool_hello:
  "p \<in> set Pool \<Longrightarrow> map_of (clientHelloIDByName u) (pf_UTLSClientHelloID p) \<noteq> None"
  by (auto simp: Pool_def clientHelloIDByName_def)

section \<open>Properties\<close>

text \<open>A stored profile id finds exactly the profile of the pool with that id, and every profile of the
  pool can be applied: the client for it is built, with the profile kept and HTTP/2 forced.\<close>

theorem stored_profile_usable:
  "(ByID i = Some p \<longleftrightarrow> p \<in> set Pool \<and> pf_ID p = i) \<and>
   (p \<in> set Pool \<longrightarrow> (\<exists>c. NewHTTPClient u p = Inr c \<and> rt_Profile (hc_rt c) = p \<and> hc_ForceHTTP2 c \<and>
      hc_Timeout c = 30 * second))"
proof -
  have "\<exists>i. map_of (clientHelloIDByName u) (pf_UTLSClientHelloID p) = Some i" if "p \<in> set Pool"
    using Pool_hello [OF that, of u] by auto
  then show ?thesis
    using find_profile_distinct [OF Pool_distinct]
    by (auto simp: ByID_def NewHTTPClient_def utls_New_def)
qed

theorem stored_profile_usable_witness:
  "\<exists>p. ByID ''android-chrome-124'' = Some p \<and> (\<exists>c. NewHTTPClient u p = Inr c)"
proof -
  have "Pool ! 1 \<in> set Pool \<and> pf_ID (Pool ! 1) = ''android-chrome-124''"
    by (simp add: Pool_def)
  then show ?thesis
    using stored_profile_usable [of "''android-chrome-124''" "Pool ! 1" u] by blast
qed

text \<open>The profile of Chrome 124 presents the handshake of Chrome 120.\<close>

theorem chrome124_sends_120:
  assumes "ByID ''android-chrome-124'' = Some p" "utls_New u p = Inr rt" "shakes host (chrome120 u)"
    "SplitHostPort addr = Inr (host, port)"
  shows "dialTLS u zero_id rt (Some raw) shakes addr = (Inr (raw, host, chrome120 u), [])"
proof -
  have "pf_UTLSClientHelloID p = ''HelloChrome_124''" using assms(1) by (auto simp: ByID_def Pool_def)
  moreover have "rt_Profile rt = p" using assms(2) by (auto simp: utls_New_def split: option.splits)
  ultimately show ?thesis using assms(3,4) by (simp add: dialTLS_def clientHelloIDByName_def)
qed

end
