(* ===== verification/ClientTest.thy ===== *)
theory ClientTest
  imports VpnTunnel
begin

text \<open>
  \<open>cmd/turboflare-client-test/main.go\<close>: the manual test of a deployed server. The flags are its
  input; what it prints is its output, with the two final figures of the congestion controller. Its
  two polling loops run on the clock, so \<open>main\<close> is a partial function that returns in every world in
  which time passes.
\<close>

section \<open>Model\<close>

record Flags =
  fg_baseURL :: string
  fg_serverPub :: string
  fg_token :: string
  fg_deviceID :: string
  fg_target :: string
  fg_httpRequest :: string
  fg_pollDuration :: nanos
  fg_pollInterval :: nanos

datatype fatal =
    MissingFlags
  | FatalSetup setup_error
  | OpenFailed client_error
  | ConnectFailed client_error
  | PullFailed client_error
  | ServerReported string
  | ConnectTimedOut
  | DataFailed client_error

text \<open>\<open>strings.Split(s, ":")[0]\<close>, and the request sent by default.\<close>

definition host_of :: "string \<Rightarrow> string" where
  "host_of target = takeWhile (\<lambda>ch. ch \<noteq> CHR '':'') target"

definition crlf :: string where "crlf = [CHR 0x0D, CHR 0x0A]"

definition default_request :: "string \<Rightarrow> string" where
  "default_request host = ''GET / HTTP/1.1'' @ crlf @ ''Host: '' @ host @ crlf @
     ''Connection: close'' @ crlf @ crlf"

text \<open>The payloads of one poll: the text of a reported error, or whether the confirmation was seen.\<close>

fun scan_answers :: "bytes list \<Rightarrow> bool \<Rightarrow> string + bool" where
  "scan_answers [] seen = Inr seen"
| "scan_answers (p # ps) seen =
     (let s = string_of p; seen1 = (seen \<or> take 12 s = ''OK CONNECTED'')
      in if take 5 s = ''ERROR'' then Inl s else scan_answers ps seen1)"

partial_function (option) connect_loop ::
  "'w client_env \<Rightarrow> nanos \<Rightarrow> nanos \<Rightarrow> Client \<Rightarrow> 'w \<Rightarrow> ((fatal + Client) \<times> 'w) option" where
  "connect_loop env interval deadline c w =
     (if ce_clock env w < deadline then
        (case pull_at env c w of (res, c1, w1) \<Rightarrow>
           (case res of
              Inl e \<Rightarrow> Some (Inl (PullFailed e), w1)
            | Inr payloads \<Rightarrow>
                (case scan_answers payloads False of
                   Inl s \<Rightarrow> Some (Inl (ServerReported s), w1)
                 | Inr ok \<Rightarrow>
                     if ok then Some (Inr c1, w1)
                     else connect_loop env interval deadline c1 (ce_sleep env interval w1))))
      else Some (Inl ConnectTimedOut, w))"

partial_function (option) response_loop ::
  "'w client_env \<Rightarrow> nanos \<Rightarrow> nanos \<Rightarrow> bytes list \<Rightarrow> Client \<Rightarrow> 'w \<Rightarrow>
   ((fatal + bytes list) \<times> Client \<times> 'w) option" where
  "response_loop env interval deadline got c w =
     (if ce_clock env w < deadline then
        (case pull_at env c w of (res, c1, w1) \<Rightarrow>
           (case res of
              Inl e \<Rightarrow> Some (Inl (PullFailed e), c1, w1)
            | Inr payloads \<Rightarrow>
                response_loop env interval deadline (got @ payloads) c1 (ce_sleep env interval w1)))
      else Some (Inr got, c, w))"

text \<open>The number of bytes received, the window and the block size; or the fatal message.\<close>

definition test_main ::
  "'w client_env \<Rightarrow> Flags \<Rightarrow> 'w \<Rightarrow> ((fatal + nat \<times> u32 \<times> u32) \<times> 'w) option" where
  "test_main env fg w =
     (if fg_serverPub fg = [] \<or> fg_token fg = [] then Some (Inl MissingFlags, w)
      else case setup_client (fg_baseURL fg) (fg_serverPub fg) (fg_deviceID fg) (fg_token fg)
                  (ce_clock env w) of
        Inl e \<Rightarrow> Some (Inl (FatalSetup e), w)
      | Inr c \<Rightarrow>
          let req = (if fg_httpRequest fg = [] then default_request (host_of (fg_target fg))
                     else fg_httpRequest fg) in
          (case open_at env c w of (opened, c1, w1) \<Rightarrow>
             case opened of Inl e \<Rightarrow> Some (Inl (OpenFailed e), w1)
             | Inr _ \<Rightarrow>
               (case push_at env (bytes_of (fg_target fg)) c1 w1 of (pushed, c2, w2) \<Rightarrow>
                  case pushed of Inl e \<Rightarrow> Some (Inl (ConnectFailed e), w2)
                  | Inr _ \<Rightarrow>
                    (case connect_loop env (fg_pollInterval fg) (ce_clock env w2 + 5 * second) c2 w2 of
                       None \<Rightarrow> None
                     | Some (Inl e, w3) \<Rightarrow> Some (Inl e, w3)
                     | Some (Inr c3, w3) \<Rightarrow>
                         (case push_at env (bytes_of req) c3 w3 of (sent, c4, w4) \<Rightarrow>
                            case sent of Inl e \<Rightarrow> Some (Inl (DataFailed e), w4)
                            | Inr _ \<Rightarrow>
                              (case response_loop env (fg_pollInterval fg)
                                      (ce_clock env w4 + fg_pollDuration fg) [] c4 w4 of
                                 None \<Rightarrow> None
                               | Some (Inl e, c5, w5) \<Rightarrow> Some (Inl e, w5)
                               | Some (Inr got, c5, w5) \<Rightarrow>
                                   Some (Inr (sum_list (map length got),
                                     CurrentWindow (s_Congestion (cl_Session c5)),
                                     CurrentBlockSize (s_Congestion (cl_Session c5))), w5)))))))"

section \<open>The loops return\<close>

context timed
begin

lemma connect_returns: "0 \<le> interval \<Longrightarrow> \<exists>r. connect_loop env interval deadline c w = Some r"
proof (induction "nat (deadline - ce_clock env w)" arbitrary: c w rule: less_induct)
  case less
  obtain res c1 w1 where p: "pull_at env c w = (res, c1, w1)" by (cases "pull_at env c w")
  have "ce_clock env w + tick \<le> ce_clock env (ce_sleep env interval w1)"
    using pull_then_sleep [OF less.prems, of w c] less.prems p by simp
  then have "\<exists>r. connect_loop env interval deadline c1 (ce_sleep env interval w1) = Some r"
    if "ce_clock env w < deadline"
    using tick_pos that less.prems by (intro less.hyps) auto
  then show ?case
    by (subst connect_loop.simps) (auto simp: p split: sum.split)
qed

lemma response_returns: "0 \<le> interval \<Longrightarrow> \<exists>r. response_loop env interval deadline got c w = Some r"
proof (induction "nat (deadline - ce_clock env w)" arbitrary: got c w rule: less_induct)
  case less
  obtain res c1 w1 where p: "pull_at env c w = (res, c1, w1)" by (cases "pull_at env c w")
  have "ce_clock env w + tick \<le> ce_clock env (ce_sleep env interval w1)"
    using pull_then_sleep [OF less.prems, of w c] less.prems p by simp
  then have "\<exists>r. response_loop env interval deadline (got @ ps) c1 (ce_sleep env interval w1) = Some r"
    if "ce_clock env w < deadline" for ps
    using tick_pos that less.prems by (intro less.hyps) auto
  then show ?case
    by (subst response_loop.simps) (auto simp: p split: sum.split)
qed

lemma main_returns:
  assumes "0 \<le> fg_pollInterval fg"
  shows "\<exists>r. test_main env fg w = Some r"
proof -
  have "connect_loop env (fg_pollInterval fg) d c w \<noteq> None"
    "response_loop env (fg_pollInterval fg) d [] c w \<noteq> None" for d c w
    using connect_returns [OF assms] response_returns [OF assms] by simp_all
  then show ?thesis
    by (simp add: test_main_def Let_def del: not_None_eq split: sum.split prod.split option.split)
qed

end

text \<open>The first colon ends the host, so that an address of IPv6 in brackets is cut inside it.\<close>

lemma host_of_bracketed: "host_of ''[::1]:80'' = ''[''"
  by (simp add: host_of_def)

end
