(* ===== verification/SessionRun.thy ===== *)
theory SessionRun
  imports Session
begin

text \<open>
  Runs of the methods of a session, in any order: what is true of the fields of a session at any
  time, whatever its peer sends and whenever it does a handshake.
\<close>

section \<open>Runs\<close>

datatype session_event =
    EvHandshake nanos u32 bytes
  | EvEncode bytes byte
  | EvDecode nanos bytes
  | EvSetState State
  | EvCongestion cc_event
  | EvReconnect reconnect_event

fun session_step :: "Session \<Rightarrow> session_event \<Rightarrow> Session" where
  "session_step s (EvHandshake now connectionID sessionKey) = CompleteHandshake now connectionID sessionKey s"
| "session_step s (EvEncode payload flags) = snd (EncodeOutgoing payload flags s)"
| "session_step s (EvDecode now wire) = snd (DecodeIncoming now wire s)"
| "session_step s (EvSetState st) = SetState st s"
| "session_step s (EvCongestion e) = s\<lparr>s_Congestion := cc_step (s_Congestion s) e\<rparr>"
| "session_step s (EvReconnect e) = s\<lparr>s_Reconnect := reconnect_step (s_Reconnect s) e\<rparr>"

abbreviation session_run :: "Session \<Rightarrow> session_event list \<Rightarrow> Session" where
  "session_run \<equiv> foldl session_step"

section \<open>The reorder buffer, for any sequence numbers\<close>

text \<open>
  What is held is ahead of the next expected number. This needs no bound on the numbers: when the
  next number wraps to 0 every number but 0 is ahead of it.
\<close>

definition buffer_ahead :: "ReorderBuffer \<Rightarrow> bool" where
  "buffer_ahead r \<longleftrightarrow> rb_started r \<and> (\<forall>k \<in> dom (rb_pending r). rb_nextExpected r < k)"

lemma flush_ahead:
  "\<forall>k \<in> dom pending. nxt \<le> k \<Longrightarrow> flush ready nxt pending = (out, nxt', pending') \<Longrightarrow>
   \<forall>k \<in> dom pending'. nxt' < k"
proof (induction ready nxt pending rule: flush.induct)
  case (1 ready nxt pending)
  show ?case
  proof (cases "pending nxt")
    case None
    then have "nxt' = nxt" "pending' = pending" using "1.prems"(2) by (simp_all add: flush.simps [of ready])
    then show ?thesis using "1.prems"(1) None by (metis domIff order_le_neq_trans)
  next
    case (Some p)
    have "\<forall>k \<in> dom (pending(nxt := None)). nxt + 1 \<le> k"
    proof
      fix k
      assume "k \<in> dom (pending(nxt := None))"
      then have "nxt \<le> k" "nxt \<noteq> k" using "1.prems"(1) by (auto split: if_splits)
      then show "nxt + 1 \<le> k" by (intro inc_le) simp
    qed
    moreover have "flush (ready @ [p]) (nxt + 1) (pending(nxt := None)) = (out, nxt', pending')"
      using "1.prems"(2) Some by (simp add: flush.simps [of ready])
    ultimately show ?thesis by (rule "1.IH" [OF Some])
  qed
qed

lemma Insert_ahead:
  assumes "buffer_ahead r"
  shows "buffer_ahead (snd (Insert sequence payload r))"
proof (cases "sequence < rb_nextExpected r \<or> rb_pending r sequence \<noteq> None")
  case True
  then show ?thesis using assms by (auto simp: Insert_def buffer_ahead_def Let_def)
next
  case False
  obtain out nxt' pending' where
    f: "flush [] (rb_nextExpected r) ((rb_pending r)(sequence \<mapsto> payload)) = (out, nxt', pending')"
    by (cases "flush [] (rb_nextExpected r) ((rb_pending r)(sequence \<mapsto> payload))")
  have "\<forall>k \<in> dom ((rb_pending r)(sequence \<mapsto> payload)). rb_nextExpected r \<le> k"
    using assms False by (auto simp: buffer_ahead_def dest: bspec)
  from flush_ahead [OF this f] show ?thesis
    using assms False f by (simp add: Insert_def buffer_ahead_def Let_def)
qed

section \<open>The invariant\<close>

definition session_inv :: "u64 \<Rightarrow> Session \<Rightarrow> bool" where
  "session_inv deviceID s \<longleftrightarrow> s_DeviceID s = deviceID \<and> (\<exists>A. window_repr (s_replay s) A) \<and>
     buffer_ahead (s_reorder s) \<and> cc_inv (s_Congestion s) \<and> reconnect_inv (s_Reconnect s)"

lemma session_inv_New: "session_inv d (NewSession now d)"
proof -
  have "buffer_ahead (NewReorderBuffer 0)" by (simp add: buffer_ahead_def NewReorderBuffer_def)
  then show ?thesis
    using window_repr_New cc_inv_New reconnect_inv_New by (auto simp: session_inv_def NewSession_def)
qed

lemma DecodeIncoming_inv:
  assumes "session_inv d s"
  shows "session_inv d (snd (DecodeIncoming now wire s))"
proof (cases "DecodeDataFrame (s_SessionKey s) (s_ConnectionID s) wire")
  case (Inl e)
  then show ?thesis using assms by (simp add: DecodeIncoming_def)
next
  case (Inr fc)
  obtain frame counter where fc: "fc = (frame, counter)" by (cases fc)
  obtain ok w where ch: "CheckAndMark counter (s_replay s) = (ok, w)"
    by (cases "CheckAndMark counter (s_replay s)")
  have w: "\<exists>A. window_repr w A" using assms rw.check_repr [of "s_replay s" _ counter] ch
    unfolding session_inv_def by (metis snd_conv)
  obtain ready r where ins: "Insert (df_Sequence frame) (df_Payload frame) (s_reorder s) = (ready, r)"
    by (cases "Insert (df_Sequence frame) (df_Payload frame) (s_reorder s)")
  have "buffer_ahead r"
    using assms Insert_ahead [of "s_reorder s" "df_Sequence frame" "df_Payload frame"] ins
    by (simp add: session_inv_def)
  then show ?thesis
    using assms w Inr fc ch ins by (cases ok) (simp_all add: DecodeIncoming_def session_inv_def)
qed

lemma session_step_inv: "session_inv d s \<Longrightarrow> session_inv d (session_step s e)"
proof (cases e)
  case (EvHandshake now c key)
  assume "session_inv d s"
  then show ?thesis
    using EvHandshake window_repr_Reset by (auto simp: session_inv_def CompleteHandshake_def)
next
  case (EvDecode now wire)
  assume "session_inv d s"
  then show ?thesis using EvDecode DecodeIncoming_inv by simp
qed (auto simp: cc_step_inv reconnect_step_inv EncodeOutgoing_eq advance_def SetState_def session_inv_def)

interpretation sessions: invariant_machine session_step "session_inv d" "\<lambda>_. True" for d
  by unfold_locales (rule session_step_inv)

section \<open>Properties\<close>

text \<open>C19: Whatever methods of a session are called, in any order and with any wire bytes, its fields keep
  their meaning: the device is the one it was made for, the replay window is the bitmap of some set
  of counters, the reorder buffer holds only payloads ahead of the next expected number, also when
  the numbers wrap, and the controller and the grace period are within their bounds.\<close>

theorem session_stays_well_formed:
  "let s = session_run (NewSession now d) es in
    s_DeviceID s = d \<and> (\<exists>A. window_repr (s_replay s) A) \<and>
    rb_started (s_reorder s) \<and> dom (rb_pending (s_reorder s)) \<subseteq> {NextExpected (s_reorder s)<..} \<and>
    cc_inv (s_Congestion s) \<and> reconnect_inv (s_Reconnect s)"
proof -
  have "session_inv d (session_run (NewSession now d) es)"
    by (rule sessions.inv_run [OF session_inv_New]) (simp add: list_all_iff)
  then show ?thesis by (auto simp: Let_def session_inv_def buffer_ahead_def NextExpected_def)
qed

end
