(* ===== verification/Interleave.thy ===== *)
theory Interleave
  imports Prelude "HOL-Library.Multiset"
begin

text \<open>
  Concurrent calls. A call that is being executed is a value of a type \<open>'th\<close> of control points; the
  list of all calls runs over a shared state, and one step of one of them is everything it does up
  to its next access to shared memory: a region under a mutex, or one atomic operation. A step is a
  partial function, undefined when the call waits for a mutex or has returned. It also gives the
  goroutines it starts.
\<close>

section \<open>Steps and schedules\<close>

type_synonym ('e, 'th, 'sh) thread_fun = "'e \<Rightarrow> 'th \<Rightarrow> 'sh \<Rightarrow> ('th \<times> 'th list \<times> 'sh) option"

inductive interleave :: "('e, 'th, 'sh) thread_fun \<Rightarrow> 'sh \<times> 'th list \<Rightarrow> 'sh \<times> 'th list \<Rightarrow> bool"
  for step where
  move: "i < length ts \<Longrightarrow> step e (ts ! i) sh = Some (t, new, sh') \<Longrightarrow>
    interleave step (sh, ts) (sh', ts[i := t] @ new)"

inductive_cases interleaveE: "interleave step (sh, ts) c"

text \<open>An executable run: the calls to move, in order; a call that cannot move is passed over.\<close>

definition move_thread :: "('e, 'th, 'sh) thread_fun \<Rightarrow> nat \<times> 'e \<Rightarrow> 'sh \<times> 'th list \<Rightarrow> 'sh \<times> 'th list" where
  "move_thread step = (\<lambda>(i, e) (sh, ts).
     if i < length ts then
       (case step e (ts ! i) sh of
          None \<Rightarrow> (sh, ts)
        | Some (t, new, sh') \<Rightarrow> (sh', ts[i := t] @ new))
     else (sh, ts))"

definition schedule :: "('e, 'th, 'sh) thread_fun \<Rightarrow> (nat \<times> 'e) list \<Rightarrow> 'sh \<times> 'th list \<Rightarrow> 'sh \<times> 'th list" where
  "schedule step = fold (move_thread step)"

lemma schedule_simps [simp]:
  "schedule step [] c = c"
  "schedule step (m # ms) c = schedule step ms (move_thread step m c)"
  by (simp_all add: schedule_def)

lemma schedule_append: "schedule step (ms @ ns) c = schedule step ns (schedule step ms c)"
  by (simp add: schedule_def)

lemma move_thread_run: "(interleave step)\<^sup>*\<^sup>* c (move_thread step m c)"
proof -
  obtain i e sh ts where c: "m = (i, e)" "c = (sh, ts)" by (cases m, cases c)
  show ?thesis
    by (auto simp: c move_thread_def split: option.split intro: interleave.move)
qed

lemma schedule_run: "(interleave step)\<^sup>*\<^sup>* c (schedule step ms c)"
proof (induction ms arbitrary: c)
  case (Cons m ms)
  then show ?case using move_thread_run by (metis rtranclp_trans schedule_simps(2))
qed simp

text \<open>The steps of a call that nothing interrupts, with the goroutines it starts.\<close>

fun run_alone :: "('e, 'th, 'sh) thread_fun \<Rightarrow> 'e list \<Rightarrow> 'th \<Rightarrow> 'sh \<Rightarrow> ('th \<times> 'th list \<times> 'sh) option" where
  "run_alone step [] t sh = Some (t, [], sh)"
| "run_alone step (e # es) t sh =
     (case step e t sh of
        None \<Rightarrow> None
      | Some (t', new, sh') \<Rightarrow> map_option (\<lambda>(u, more, sh''). (u, new @ more, sh'')) (run_alone step es t' sh'))"

lemma run_alone_append:
  "run_alone step es t sh = Some (t', new, sh') \<Longrightarrow>
   run_alone step (es @ fs) t sh = map_option (\<lambda>(u, more, sh''). (u, new @ more, sh'')) (run_alone step fs t' sh')"
proof (induction es arbitrary: t sh new)
  case Nil
  then show ?case by (simp add: option.map_ident case_prod_beta)
next
  case (Cons e es)
  then obtain t1 n1 sh1 n2 where st: "step e t sh = Some (t1, n1, sh1)"
    "run_alone step es t1 sh1 = Some (t', n2, sh')" "new = n1 @ n2"
    by (auto split: option.splits)
  show ?case using Cons.IH [OF st(2)] st(1,3) by (simp add: option.map_comp comp_def case_prod_beta)
qed

lemma run_alone_interleave:
  "i < length ts \<Longrightarrow> run_alone step es (ts ! i) sh = Some (t, new, sh') \<Longrightarrow>
   (interleave step)\<^sup>*\<^sup>* (sh, ts) (sh', ts[i := t] @ new)"
proof (induction es arbitrary: ts sh new)
  case Nil
  then show ?case by auto
next
  case (Cons e es)
  then obtain t1 n1 sh1 n2 where st: "step e (ts ! i) sh = Some (t1, n1, sh1)"
    "run_alone step es t1 sh1 = Some (t, n2, sh')" "new = n1 @ n2"
    by (auto split: option.splits)
  have one: "interleave step (sh, ts) (sh1, ts[i := t1] @ n1)"
    using Cons.prems(1) st(1) by (rule interleave.move)
  have "(interleave step)\<^sup>*\<^sup>* (sh1, ts[i := t1] @ n1) (sh', (ts[i := t1] @ n1)[i := t] @ n2)"
    using Cons.prems(1) st(2) by (intro Cons.IH) (simp_all add: nth_append)
  then show ?case
    using one Cons.prems(1) st(3) by (simp add: list_update_append converse_rtranclp_into_rtranclp)
qed

section \<open>Running a call to its end\<close>

text \<open>A call that can always go on and comes closer to \<open>Q\<close> with every step reaches it.\<close>

lemma run_down:
  fixes left :: "'sh \<Rightarrow> 'th \<Rightarrow> nat"
  assumes step: "\<And>x t. P x t \<Longrightarrow> \<not> Q x t \<Longrightarrow>
      \<exists>t' x'. step e t x = Some (t', [], x') \<and> P x' t' \<and> left x' t' < left x t"
  shows "P x (ts ! i) \<Longrightarrow> i < length ts \<Longrightarrow>
    \<exists>x' t'. (interleave step)\<^sup>*\<^sup>* (x, ts) (x', ts[i := t']) \<and> P x' t' \<and> Q x' t'"
proof (induction "left x (ts ! i)" arbitrary: x ts rule: less_induct)
  case less
  show ?case
  proof (cases "Q x (ts ! i)")
    case True
    then show ?thesis using less.prems by (intro exI [of _ x] exI [of _ "ts ! i"]) simp
  next
    case False
    obtain t1 x1 where one: "step e (ts ! i) x = Some (t1, [], x1)" "P x1 t1" "left x1 t1 < left x (ts ! i)"
      using step [OF less.prems(1) False] by blast
    have go: "interleave step (x, ts) (x1, ts[i := t1])"
      using interleave.move [of i ts step e x t1 "[]" x1] less.prems(2) one(1) by simp
    have "\<exists>x' t'. (interleave step)\<^sup>*\<^sup>* (x1, ts[i := t1]) (x', ts[i := t1, i := t']) \<and> P x' t' \<and> Q x' t'"
      using one less.prems(2) by (intro less.hyps) simp_all
    then obtain x' t' where r: "(interleave step)\<^sup>*\<^sup>* (x1, ts[i := t1]) (x', ts[i := t'])" "P x' t'" "Q x' t'"
      by auto
    then have "(interleave step)\<^sup>*\<^sup>* (x, ts) (x', ts[i := t'])" using go by (meson converse_rtranclp_into_rtranclp)
    then show ?thesis using r(2,3) by blast
  qed
qed

section \<open>Invariants of all calls\<close>

locale thread_machine =
  fixes step :: "('e, 'th, 'sh) thread_fun"
    and inv :: "'sh \<Rightarrow> 'th list \<Rightarrow> bool"
  assumes inv_move: "inv sh ts \<Longrightarrow> i < length ts \<Longrightarrow> step e (ts ! i) sh = Some (t, new, sh') \<Longrightarrow>
      inv sh' (ts[i := t] @ new)"
begin

lemma inv_interleave: "interleave step c c' \<Longrightarrow> inv (fst c) (snd c) \<Longrightarrow> inv (fst c') (snd c')"
  by (induction rule: interleave.induct) (simp add: inv_move)

lemma inv_reachable:
  "(interleave step)\<^sup>*\<^sup>* (sh, ts) (sh', ts') \<Longrightarrow> inv sh ts \<Longrightarrow> inv sh' ts'"
proof (induction "(sh', ts')" arbitrary: sh' ts' rule: rtranclp_induct)
  case base
  then show ?case by simp
next
  case (step c)
  then show ?case using inv_interleave [OF step.hyps(2)] by (cases c) simp
qed

end

section \<open>Values collected over all calls\<close>

definition collect :: "('th \<Rightarrow> 'a list) \<Rightarrow> 'th list \<Rightarrow> 'a list" where
  "collect g ts = concat (map g ts)"

lemma collect_simps [simp]:
  "collect g [] = []" "collect g (t # ts) = g t @ collect g ts"
  "collect g (ts @ us) = collect g ts @ collect g us"
  by (simp_all add: collect_def)

lemma set_collect: "set (collect g ts) = (\<Union>t \<in> set ts. set (g t))"
  by (simp add: collect_def)

lemma collect_nil: "(\<And>t. t \<in> set ts \<Longrightarrow> g t = []) \<Longrightarrow> collect g ts = []"
  by (simp add: collect_def)

lemma mset_collect_update:
  "i < length ts \<Longrightarrow>
   mset (collect g (ts[i := t])) + mset (g (ts ! i)) = mset (collect g ts) + mset (g t)"
proof (induction ts arbitrary: i)
  case (Cons u us)
  then show ?case by (cases i) (simp_all add: ac_simps)
qed simp

lemma collect_update_same: "i < length ts \<Longrightarrow> g t = g (ts ! i) \<Longrightarrow> collect g (ts[i := t]) = collect g ts"
  by (metis collect_def list_update_id map_update)

lemma length_collect_update:
  "i < length ts \<Longrightarrow>
   length (collect g (ts[i := t])) + length (g (ts ! i)) = length (collect g ts) + length (g t)"
  using arg_cong [OF mset_collect_update [of i ts g t], of size] by simp

lemma length_collect:
  assumes "\<And>t. length (g t) \<le> 1"
  shows "length (collect g ts) \<le> length ts"
proof (induction ts)
  case (Cons t ts)
  then show ?case using assms [of t] by simp
qed simp

section \<open>Tickets\<close>

text \<open>
  A counter read by fetch-and-add: the tickets \<open>xs\<close> handed out since it was \<open>x0\<close> are an interval,
  in some order, and \<open>x\<close> is the next one.
\<close>

definition handed_out :: "'a::len word \<Rightarrow> 'a word list \<Rightarrow> 'a word \<Rightarrow> bool" where
  "handed_out x0 xs x \<longleftrightarrow> mset xs = mset (map (\<lambda>i. x0 + word_of_nat i) [0..<length xs]) \<and>
     x = x0 + word_of_nat (length xs)"

lemma handed_out_none [simp]: "handed_out x [] x"
  by (simp add: handed_out_def)

lemma handed_out_next:
  assumes "handed_out x0 xs x" "mset ys = add_mset x (mset xs)"
  shows "handed_out x0 ys (x + 1)"
proof -
  have len: "length ys = Suc (length xs)" using assms(2) by (metis size_add_mset size_mset)
  show ?thesis using assms by (simp add: handed_out_def len add.assoc)
qed

lemma handed_out_same: "handed_out x0 xs x \<Longrightarrow> mset ys = mset xs \<Longrightarrow> handed_out x0 ys x"
  using mset_eq_length [of ys xs] by (simp add: handed_out_def)

lemma handed_out_distinct:
  fixes x0 :: "'a::len word"
  assumes "handed_out x0 xs x" "length xs \<le> 2 ^ LENGTH('a)"
  shows "distinct xs"
  using word_interval_distinct [OF assms(2), of x0] assms(1) mset_eq_imp_distinct_iff
  unfolding handed_out_def by blast

end
