(* ===== verification/SessionThreads.thy ===== *)
theory SessionThreads
  imports Session Interleave
begin

text \<open>
  \<open>transport/session.go\<close>, with its methods cut at their accesses to shared memory: the fields under
  \<open>mu\<close>, the two atomic counters, the replay window and the reorder buffer, which have mutexes of
  their own. \<open>CompleteHandshake\<close> holds \<open>mu\<close> while it writes, but the counters and the replay window
  are used by the others without \<open>mu\<close>. The sections show that a call nothing interrupts is the
  method of \<open>Session\<close>, what concurrent senders and receivers keep, and what a handshake breaks that
  overlaps with them.
\<close>

section \<open>Model\<close>

record shared =
  sh_sess :: Session
  sh_locked :: bool                 \<comment> \<open>\<open>mu\<close> is held for writing\<close>

text \<open>
  The control points. \<open>EncodeOutgoing\<close>: called; key and connection id read; sequence number taken;
  counter taken. \<open>DecodeIncoming\<close>: called; key and connection id read; counter marked; time noted;
  returned. \<open>CompleteHandshake\<close>: called; \<open>mu\<close> held with the key written; counter reset; window reset;
  returned.
\<close>

datatype call =
    EncodeCall bytes byte
  | EncodeKeyed bytes byte bytes u32
  | EncodeSequenced bytes byte bytes u32 u32
  | EncodeReturn bytes u32 DataFrame
  | DecodeCall bytes
  | DecodeKeyed bytes bytes u32
  | DecodeMarked DataFrame
  | DecodeStamped DataFrame
  | DecodeReturn "proto_error + DecodeIncomingResult"
  | HandshakeCall u32 bytes
  | HandshakeKeyed
  | HandshakeCounted
  | HandshakeCleared
  | HandshakeReturn

text \<open>The seal is computed from values of the call alone, after the last step.\<close>

definition encode_result :: "bytes \<Rightarrow> u32 \<Rightarrow> DataFrame \<Rightarrow> proto_error + bytes" where
  "encode_result key ctr f = EncodeDataFrame key ctr f"

fun encode_step :: "call \<Rightarrow> shared \<Rightarrow> (call \<times> shared) option" where
  "encode_step (EncodeCall payload flags) sh =
     (if sh_locked sh then None
      else Some (EncodeKeyed payload flags (s_SessionKey (sh_sess sh)) (s_ConnectionID (sh_sess sh)), sh))"
| "encode_step (EncodeKeyed payload flags key connID) sh =
     (case NextSendSequence (sh_sess sh) of (seq, s1) \<Rightarrow>
        Some (EncodeSequenced payload flags key connID seq, sh\<lparr>sh_sess := s1\<rparr>))"
| "encode_step (EncodeSequenced payload flags key connID seq) sh =
     (case NextSendCounter (sh_sess sh) of (ctr, s1) \<Rightarrow>
        Some (EncodeReturn key ctr
          \<lparr>df_ConnectionID = connID, df_StreamID = 0, df_Sequence = seq, df_Ack = 0,
           df_Flags = flags OR FlagData, df_Payload = payload\<rparr>, sh\<lparr>sh_sess := s1\<rparr>))"
| "encode_step _ sh = None"

fun decode_step :: "nanos \<Rightarrow> call \<Rightarrow> shared \<Rightarrow> (call \<times> shared) option" where
  "decode_step now (DecodeCall wire) sh =
     (if sh_locked sh then None
      else Some (DecodeKeyed wire (s_SessionKey (sh_sess sh)) (s_ConnectionID (sh_sess sh)), sh))"
| "decode_step now (DecodeKeyed wire key connID) sh =
     (case DecodeDataFrame key connID wire of
        Inl e \<Rightarrow> Some (DecodeReturn (Inl e), sh)
      | Inr (frame, counter) \<Rightarrow>
          (case CheckAndMark counter (s_replay (sh_sess sh)) of
             (ok, w) \<Rightarrow>
               Some (if ok then DecodeMarked frame
                 else DecodeReturn (Inr \<lparr>Accepted = False, is_Replay = True, Ready = [], Frame = frame\<rparr>),
                 sh\<lparr>sh_sess := (sh_sess sh)\<lparr>s_replay := w\<rparr>\<rparr>)))"
| "decode_step now (DecodeMarked frame) sh =
     (if sh_locked sh then None
      else Some (DecodeStamped frame, sh\<lparr>sh_sess := (sh_sess sh)\<lparr>s_lastActivity := now\<rparr>\<rparr>))"
| "decode_step now (DecodeStamped frame) sh =
     (case Insert (df_Sequence frame) (df_Payload frame) (s_reorder (sh_sess sh)) of
        (ready, r) \<Rightarrow>
          Some (DecodeReturn (Inr \<lparr>Accepted = True, is_Replay = False, Ready = ready, Frame = frame\<rparr>),
            sh\<lparr>sh_sess := (sh_sess sh)\<lparr>s_reorder := r\<rparr>\<rparr>))"
| "decode_step now _ sh = None"

fun handshake_step :: "nanos \<Rightarrow> call \<Rightarrow> shared \<Rightarrow> (call \<times> shared) option" where
  "handshake_step now (HandshakeCall connectionID sessionKey) sh =
     (if sh_locked sh then None
      else Some (HandshakeKeyed,
        \<lparr>sh_sess = (sh_sess sh)\<lparr>s_ConnectionID := connectionID, s_SessionKey := sessionKey\<rparr>,
         sh_locked = True\<rparr>))"
| "handshake_step now HandshakeKeyed sh =
     Some (HandshakeCounted, sh\<lparr>sh_sess := (sh_sess sh)\<lparr>s_sendCounter := 0\<rparr>\<rparr>)"
| "handshake_step now HandshakeCounted sh =
     Some (HandshakeCleared,
       sh\<lparr>sh_sess := (sh_sess sh)\<lparr>s_replay := replay_Reset (s_replay (sh_sess sh))\<rparr>\<rparr>)"
| "handshake_step now HandshakeCleared sh =
     Some (HandshakeReturn,
       \<lparr>sh_sess = (sh_sess sh)\<lparr>s_State := StateActive, s_lastActivity := now\<rparr>, sh_locked = False\<rparr>)"
| "handshake_step now _ sh = None"

text \<open>One step of a call at a time \<open>now\<close>; a call starts no goroutine.\<close>

definition call_step :: "(nanos, call, shared) thread_fun" where
  "call_step now c sh =
     map_option (\<lambda>(c', sh'). (c', [], sh'))
       (case encode_step c sh of
          Some r \<Rightarrow> Some r
        | None \<Rightarrow> (case decode_step now c sh of Some r \<Rightarrow> Some r | None \<Rightarrow> handshake_step now c sh))"

fun returned :: "call \<Rightarrow> bool" where
  "returned (EncodeReturn key ctr f) = True"
| "returned (DecodeReturn res) = True"
| "returned HandshakeReturn = True"
| "returned _ = False"

definition idle :: "Session \<Rightarrow> shared" where
  "idle s = \<lparr>sh_sess = s, sh_locked = False\<rparr>"

lemma idle_sel [simp]: "sh_sess (idle s) = s" "sh_locked (idle s) = False"
  by (simp_all add: idle_def)

section \<open>Calls that nothing interrupts\<close>

lemma call_step_simps [simp]:
  "call_step now (EncodeCall p fl) sh = map_option (\<lambda>(c, sh). (c, [], sh)) (encode_step (EncodeCall p fl) sh)"
  "call_step now (EncodeKeyed p fl k c) sh =
     map_option (\<lambda>(c, sh). (c, [], sh)) (encode_step (EncodeKeyed p fl k c) sh)"
  "call_step now (EncodeSequenced p fl k c q) sh =
     map_option (\<lambda>(c, sh). (c, [], sh)) (encode_step (EncodeSequenced p fl k c q) sh)"
  "call_step now (EncodeReturn k n f) sh = None"
  "call_step now (DecodeCall w) sh = map_option (\<lambda>(c, sh). (c, [], sh)) (decode_step now (DecodeCall w) sh)"
  "call_step now (DecodeKeyed w k c) sh =
     map_option (\<lambda>(c, sh). (c, [], sh)) (decode_step now (DecodeKeyed w k c) sh)"
  "call_step now (DecodeMarked f) sh =
     map_option (\<lambda>(c, sh). (c, [], sh)) (decode_step now (DecodeMarked f) sh)"
  "call_step now (DecodeStamped f) sh =
     map_option (\<lambda>(c, sh). (c, [], sh)) (decode_step now (DecodeStamped f) sh)"
  "call_step now (DecodeReturn r) sh = None"
  "call_step now (HandshakeCall c k) sh =
     map_option (\<lambda>(c, sh). (c, [], sh)) (handshake_step now (HandshakeCall c k) sh)"
  "call_step now HandshakeKeyed sh =
     map_option (\<lambda>(c, sh). (c, [], sh)) (handshake_step now HandshakeKeyed sh)"
  "call_step now HandshakeCounted sh =
     map_option (\<lambda>(c, sh). (c, [], sh)) (handshake_step now HandshakeCounted sh)"
  "call_step now HandshakeCleared sh =
     map_option (\<lambda>(c, sh). (c, [], sh)) (handshake_step now HandshakeCleared sh)"
  "call_step now HandshakeReturn sh = None"
  by (simp_all add: call_step_def split: option.split sum.split prod.split)

lemma encode_alone:
  "run_alone call_step [t1, t2, t3] (EncodeCall p fl) (idle s) =
     Some (EncodeReturn (s_SessionKey s) (s_sendCounter s) (out_frame fl s 0 p), [], idle (advance 1 s))"
  by (simp add: NextSendSequence_eq NextSendCounter_eq out_frame_def advance_def idle_def)

lemma decode_alone_error:
  "DecodeIncoming now w s = (Inl e, s1) \<Longrightarrow>
   run_alone call_step [t1, t2] (DecodeCall w) (idle s) = Some (DecodeReturn (Inl e), [], idle s1)"
  by (auto simp: DecodeIncoming_def Let_def split: sum.splits prod.splits bool.splits)

lemma decode_alone_replay:
  "DecodeIncoming now w s = (Inr res, s1) \<Longrightarrow> \<not> Accepted res \<Longrightarrow>
   run_alone call_step [t1, t2] (DecodeCall w) (idle s) = Some (DecodeReturn (Inr res), [], idle s1)"
  by (auto simp: DecodeIncoming_def Let_def idle_def split: sum.splits prod.splits bool.splits)

lemma decode_alone_accept:
  "DecodeIncoming now w s = (Inr res, s1) \<Longrightarrow> Accepted res \<Longrightarrow>
   run_alone call_step [t1, t2, now, t4] (DecodeCall w) (idle s) = Some (DecodeReturn (Inr res), [], idle s1)"
  by (auto simp: DecodeIncoming_def Let_def idle_def split: sum.splits prod.splits bool.splits)

lemma handshake_alone:
  "run_alone call_step [t1, t2, t3, now] (HandshakeCall cid key) (idle s) =
     Some (HandshakeReturn, [], idle (CompleteHandshake now cid key s))"
  by (simp add: idle_def CompleteHandshake_def)

section \<open>Concurrent calls under one key\<close>

text \<open>The control points that a call can reach while no handshake changes key and connection.\<close>

fun encode_point :: "bytes \<Rightarrow> u32 \<Rightarrow> bytes \<Rightarrow> byte \<Rightarrow> call \<Rightarrow> bool" where
  "encode_point key cid p fl (EncodeCall p' fl') = (p' = p \<and> fl' = fl)"
| "encode_point key cid p fl (EncodeKeyed p' fl' k c) = (p' = p \<and> fl' = fl \<and> k = key \<and> c = cid)"
| "encode_point key cid p fl (EncodeSequenced p' fl' k c q) =
     (p' = p \<and> fl' = fl \<and> k = key \<and> c = cid)"
| "encode_point key cid p fl (EncodeReturn k n f) =
     (k = key \<and> f = \<lparr>df_ConnectionID = cid, df_StreamID = 0, df_Sequence = df_Sequence f, df_Ack = 0,
       df_Flags = fl OR FlagData, df_Payload = p\<rparr>)"
| "encode_point key cid p fl _ = False"

fun decode_point :: "bytes \<Rightarrow> u32 \<Rightarrow> bytes \<Rightarrow> call \<Rightarrow> bool" where
  "decode_point key cid w (DecodeCall w') = (w' = w)"
| "decode_point key cid w (DecodeKeyed w' k c) = (w' = w \<and> k = key \<and> c = cid)"
| "decode_point key cid w (DecodeMarked f) = (\<exists>n. DecodeDataFrame key cid w = Inr (f, n))"
| "decode_point key cid w (DecodeStamped f) = (\<exists>n. DecodeDataFrame key cid w = Inr (f, n))"
| "decode_point key cid w (DecodeReturn r) =
     (case r of Inl e \<Rightarrow> DecodeDataFrame key cid w = Inl e
      | Inr res \<Rightarrow> (\<exists>n. DecodeDataFrame key cid w = Inr (Frame res, n)))"
| "decode_point key cid w _ = False"

fun point_of :: "bytes \<Rightarrow> u32 \<Rightarrow> call \<Rightarrow> call \<Rightarrow> bool" where
  "point_of key cid (EncodeCall p fl) c = encode_point key cid p fl c"
| "point_of key cid (DecodeCall w) c = decode_point key cid w c"
| "point_of key cid _ c = False"

fun is_call :: "call \<Rightarrow> bool" where
  "is_call (EncodeCall p fl) = True"
| "is_call (DecodeCall w) = True"
| "is_call _ = False"

lemma point_of_start: "list_all is_call ts \<Longrightarrow> list_all2 (point_of key cid) ts ts"
proof (induction ts)
  case (Cons t ts)
  then show ?case by (cases t) simp_all
qed simp

lemma list_all2_update_right:
  "list_all2 P xs ys \<Longrightarrow> i < length ys \<Longrightarrow> (P (xs ! i) (ys ! i) \<Longrightarrow> P (xs ! i) y) \<Longrightarrow>
   list_all2 P xs (ys[i := y])"
  by (auto simp: list_all2_conv_all_nth nth_list_update)

lemma call_step_point:
  assumes "call_step now c sh = Some (c', new, sh')" "point_of key cid c0 c"
    "\<not> sh_locked sh" "s_SessionKey (sh_sess sh) = key" "s_ConnectionID (sh_sess sh) = cid"
  shows "point_of key cid c0 c' \<and> new = [] \<and> \<not> sh_locked sh' \<and> s_SessionKey (sh_sess sh') = key \<and>
    s_ConnectionID (sh_sess sh') = cid"
  using assms
  by (cases c0; cases c)
    (auto simp: NextSendSequence_eq NextSendCounter_eq split: sum.splits prod.splits if_splits)

definition one_key :: "bytes \<Rightarrow> u32 \<Rightarrow> call list \<Rightarrow> shared \<Rightarrow> call list \<Rightarrow> bool" where
  "one_key key cid ts0 sh ts \<longleftrightarrow> \<not> sh_locked sh \<and> s_SessionKey (sh_sess sh) = key \<and>
     s_ConnectionID (sh_sess sh) = cid \<and> list_all2 (point_of key cid) ts0 ts"

lemma one_key_move:
  assumes "one_key key cid ts0 sh ts" "i < length ts" "call_step now (ts ! i) sh = Some (t, new, sh')"
  shows "one_key key cid ts0 sh' (ts[i := t]) \<and> new = []"
proof -
  have "point_of key cid (ts0 ! i) (ts ! i)"
    using assms(1,2) by (auto simp: one_key_def list_all2_conv_all_nth)
  from call_step_point [OF assms(3) this] show ?thesis
    using assms(1,2) by (auto simp: one_key_def intro!: list_all2_update_right)
qed

section \<open>Concurrent senders\<close>

fun counter_of :: "call \<Rightarrow> u32 list" where
  "counter_of (EncodeReturn key ctr f) = [ctr]"
| "counter_of _ = []"

fun sequence_of :: "call \<Rightarrow> u32 list" where
  "sequence_of (EncodeSequenced p fl key cid seq) = [seq]"
| "sequence_of (EncodeReturn key ctr f) = [df_Sequence f]"
| "sequence_of _ = []"

definition send_inv :: "Session \<Rightarrow> call list \<Rightarrow> shared \<Rightarrow> call list \<Rightarrow> bool" where
  "send_inv s ts0 sh ts \<longleftrightarrow> one_key (s_SessionKey s) (s_ConnectionID s) ts0 sh ts \<and>
     handed_out (s_sendCounter s) (collect counter_of ts) (s_sendCounter (sh_sess sh)) \<and>
     handed_out (s_sendSequence s) (collect sequence_of ts) (s_sendSequence (sh_sess sh))"

text \<open>A step takes a ticket or leaves the counter alone.\<close>

lemma call_step_counter:
  assumes "call_step now c sh = Some (c', new, sh')" "point_of key cid c0 c"
  shows "counter_of c' = counter_of c \<and> s_sendCounter (sh_sess sh') = s_sendCounter (sh_sess sh) \<or>
    counter_of c = [] \<and> counter_of c' = [s_sendCounter (sh_sess sh)] \<and>
    s_sendCounter (sh_sess sh') = s_sendCounter (sh_sess sh) + 1"
  using assms
  by (cases c0; cases c)
    (auto simp: NextSendSequence_eq NextSendCounter_eq split: sum.splits prod.splits if_splits)

lemma call_step_sequence:
  assumes "call_step now c sh = Some (c', new, sh')" "point_of key cid c0 c"
  shows "sequence_of c' = sequence_of c \<and> s_sendSequence (sh_sess sh') = s_sendSequence (sh_sess sh) \<or>
    sequence_of c = [] \<and> sequence_of c' = [s_sendSequence (sh_sess sh)] \<and>
    s_sendSequence (sh_sess sh') = s_sendSequence (sh_sess sh) + 1"
  using assms
  by (cases c0; cases c)
    (auto simp: NextSendSequence_eq NextSendCounter_eq split: sum.splits prod.splits if_splits)

lemma handed_out_move:
  assumes "handed_out x0 (collect g ts) x" "i < length ts"
    "g t = g (ts ! i) \<and> x' = x \<or> g (ts ! i) = [] \<and> g t = [x] \<and> x' = x + 1"
  shows "handed_out x0 (collect g (ts[i := t])) x'"
  using assms(3)
proof
  assume "g t = g (ts ! i) \<and> x' = x"
  then show ?thesis using assms(1,2) by (simp add: collect_update_same)
next
  assume h: "g (ts ! i) = [] \<and> g t = [x] \<and> x' = x + 1"
  then have "mset (collect g (ts[i := t])) = add_mset x (mset (collect g ts))"
    using mset_collect_update [OF assms(2), of g t] by simp
  then show ?thesis using handed_out_next [OF assms(1)] h by simp
qed

interpretation senders: thread_machine call_step "send_inv s ts0" for s ts0
proof
  fix sh ts i now t new sh'
  assume inv: "send_inv s ts0 sh ts" and i: "i < length ts"
    and st: "call_step now (ts ! i) sh = Some (t, new, sh')"
  have one: "one_key (s_SessionKey s) (s_ConnectionID s) ts0 sh ts" using inv by (simp add: send_inv_def)
  then have pt: "point_of (s_SessionKey s) (s_ConnectionID s) (ts0 ! i) (ts ! i)"
    using i by (auto simp: one_key_def list_all2_conv_all_nth)
  show "send_inv s ts0 sh' (ts[i := t] @ new)"
    using one_key_move [OF one i st] inv handed_out_move [OF _ i call_step_counter [OF st pt]]
      handed_out_move [OF _ i call_step_sequence [OF st pt]]
    by (simp add: send_inv_def)
qed

lemma send_inv_start:
  assumes "list_all is_call ts"
  shows "send_inv s ts (idle s) ts"
proof -
  have "collect counter_of ts = []" "collect sequence_of ts = []"
    using assms by (auto intro!: collect_nil simp: list_all_iff elim!: is_call.elims)
  then show ?thesis
    using point_of_start [OF assms] by (simp add: send_inv_def one_key_def)
qed

section \<open>Every call returns\<close>

fun steps_left :: "call \<Rightarrow> nat" where
  "steps_left (EncodeCall p fl) = 3"
| "steps_left (EncodeKeyed p fl key cid) = 2"
| "steps_left (EncodeSequenced p fl key cid seq) = 1"
| "steps_left (DecodeCall w) = 4"
| "steps_left (DecodeKeyed w key cid) = 3"
| "steps_left (DecodeMarked f) = 2"
| "steps_left (DecodeStamped f) = 1"
| "steps_left (HandshakeCall cid key) = 4"
| "steps_left HandshakeKeyed = 3"
| "steps_left HandshakeCounted = 2"
| "steps_left HandshakeCleared = 1"
| "steps_left _ = 0"

fun holds_lock :: "call \<Rightarrow> unit list" where
  "holds_lock HandshakeKeyed = [()]"
| "holds_lock HandshakeCounted = [()]"
| "holds_lock HandshakeCleared = [()]"
| "holds_lock _ = []"

text \<open>\<open>mu\<close> is held exactly while one handshake is writing.\<close>

definition lock_inv :: "shared \<Rightarrow> call list \<Rightarrow> bool" where
  "lock_inv sh ts \<longleftrightarrow> length (collect holds_lock ts) = (if sh_locked sh then 1 else 0)"

lemma call_step_left:
  "call_step now c sh = Some (c', new, sh') \<Longrightarrow> new = [] \<and> steps_left c' < steps_left c"
  by (cases c) (auto split: sum.splits prod.splits if_splits)

lemma call_step_lock:
  assumes "call_step now c sh = Some (c', new, sh')" "holds_lock c \<noteq> [] \<Longrightarrow> sh_locked sh"
  shows "length (holds_lock c') + (if sh_locked sh then 1 else 0) =
    length (holds_lock c) + (if sh_locked sh' then 1 else 0)"
  using assms by (cases c) (auto split: sum.splits prod.splits if_splits simp: NextSendSequence_eq NextSendCounter_eq)

interpretation locking: thread_machine call_step lock_inv
proof
  fix sh ts i now t new sh'
  assume inv: "lock_inv sh ts" and i: "i < length ts" and st: "call_step now (ts ! i) sh = Some (t, new, sh')"
  have "sh_locked sh" if "holds_lock (ts ! i) \<noteq> []"
  proof (rule ccontr)
    assume "\<not> sh_locked sh"
    then have "collect holds_lock ts = []" using inv by (simp add: lock_inv_def)
    then show False using that nth_mem [OF i] by (simp add: collect_def)
  qed
  from call_step_lock [OF st this] show "lock_inv sh' (ts[i := t] @ new)"
    using length_collect_update [OF i, of holds_lock t] call_step_left [OF st] inv
    by (auto simp: lock_inv_def split: if_splits)
qed

lemma call_step_blocked:
  "call_step now c sh = None \<Longrightarrow> returned c \<or> sh_locked sh"
  by (cases c) (auto split: sum.splits prod.splits if_splits)

lemma holder_moves: "holds_lock c \<noteq> [] \<Longrightarrow> call_step now c sh \<noteq> None"
  by (cases c) auto

lemma no_deadlock:
  assumes "lock_inv sh ts" "\<not> list_all returned ts"
  shows "\<exists>c'. interleave call_step (sh, ts) c'"
proof -
  obtain i where i: "i < length ts" "call_step 0 (ts ! i) sh \<noteq> None"
  proof (cases "sh_locked sh")
    case True
    then have "collect holds_lock ts \<noteq> []" using assms(1) by (auto simp: lock_inv_def)
    then obtain t where "t \<in> set ts" "holds_lock t \<noteq> []" using collect_nil [of ts holds_lock] by blast
    then show ?thesis using that holder_moves by (metis in_set_conv_nth)
  next
    case False
    obtain j where j: "j < length ts" "\<not> returned (ts ! j)"
      using assms(2) by (auto simp: list_all_length)
    then have "call_step 0 (ts ! j) sh \<noteq> None" using call_step_blocked False by metis
    with j(1) show ?thesis by (rule that)
  qed
  then obtain t new sh' where "call_step 0 (ts ! i) sh = Some (t, new, sh')" by auto
  then show ?thesis by (intro exI) (rule interleave.move [OF i(1)])
qed

lemma interleave_left:
  assumes "interleave call_step (sh, ts) (sh', ts')"
  shows "sum_list (map steps_left ts') < sum_list (map steps_left ts)" "length ts' = length ts"
proof -
  from assms obtain i now t new where st: "i < length ts" "call_step now (ts ! i) sh = Some (t, new, sh')"
    "ts' = ts[i := t] @ new"
    by (auto elim: interleaveE)
  have "sum_list (map steps_left (ts[i := t])) + steps_left (ts ! i) = sum_list (map steps_left ts) + steps_left t"
    using st(1) by (induction ts arbitrary: i) (auto simp: nth_Cons split: nat.split)
  then show "sum_list (map steps_left ts') < sum_list (map steps_left ts)" "length ts' = length ts"
    using call_step_left [OF st(2)] st(3) by auto
qed

lemma relpow_left:
  "((interleave call_step) ^^ k) (sh, ts) (sh', ts') \<Longrightarrow>
   k + sum_list (map steps_left ts') \<le> sum_list (map steps_left ts)"
proof (induction k arbitrary: sh' ts')
  case (Suc k)
  then obtain sh1 ts1 where "((interleave call_step) ^^ k) (sh, ts) (sh1, ts1)"
    "interleave call_step (sh1, ts1) (sh', ts')"
    by auto
  then show ?case using Suc.IH interleave_left(1) by fastforce
qed simp

lemma steps_left_bound: "sum_list (map steps_left ts) \<le> 4 * length ts"
proof (induction ts)
  case (Cons t ts)
  have "steps_left t \<le> 4" by (cases t) simp_all
  then show ?case using Cons by simp
qed simp

lemma complete_run:
  "lock_inv sh ts \<Longrightarrow> \<exists>sh' ts'. (interleave call_step)\<^sup>*\<^sup>* (sh, ts) (sh', ts') \<and> list_all returned ts'"
proof (induction "sum_list (map steps_left ts)" arbitrary: sh ts rule: less_induct)
  case less
  show ?case
  proof (cases "list_all returned ts")
    case False
    then obtain sh1 ts1 where st: "interleave call_step (sh, ts) (sh1, ts1)"
      using no_deadlock [OF less.prems] by auto
    then have "lock_inv sh1 ts1" using locking.inv_interleave [OF st] less.prems by simp
    then obtain sh' ts' where "(interleave call_step)\<^sup>*\<^sup>* (sh1, ts1) (sh', ts')" "list_all returned ts'"
      using less.hyps interleave_left(1) [OF st] by blast
    then show ?thesis using st by (meson converse_rtranclp_into_rtranclp)
  qed blast
qed

section \<open>A handshake that overlaps\<close>

text \<open>
  A sender reads the key, the handshake runs, the sender goes on: its frame is sealed under the old
  key with counter 0 of the new one.
\<close>

definition rekey_while_sending :: "bytes \<Rightarrow> u32 \<Rightarrow> bytes \<Rightarrow> Session \<Rightarrow> shared \<times> call list" where
  "rekey_while_sending p cid key s = schedule call_step
     [(0, 0), (1, 0), (1, 0), (1, 0), (1, 0), (0, 0), (0, 0)] (idle s, [EncodeCall p 0, HandshakeCall cid key])"

lemma rekey_while_sending_eq:
  "rekey_while_sending p cid key s =
     (idle (advance 1 (CompleteHandshake 0 cid key s)),
      [EncodeReturn (s_SessionKey s) 0 (out_frame 0 s 0 p), HandshakeReturn])"
  by (simp add: rekey_while_sending_def move_thread_def NextSendSequence_eq NextSendCounter_eq idle_def
      CompleteHandshake_def advance_def out_frame_def)

text \<open>
  A receiver reads the key, the handshake runs, the receiver goes on: the counter of a frame under
  the old key is marked in the window of the new one.
\<close>

definition rekey_while_receiving :: "bytes \<Rightarrow> u32 \<Rightarrow> bytes \<Rightarrow> Session \<Rightarrow> shared \<times> call list" where
  "rekey_while_receiving w cid key r = schedule call_step
     [(0, 0), (1, 0), (1, 0), (1, 0), (1, 0), (0, 0), (0, 0), (0, 0)]
     (idle r, [DecodeCall w, HandshakeCall cid key])"

lemma CheckAndMark_Reset:
  "CheckAndMark c (replay_Reset w) = (True, (replay_Reset w)\<lparr>rw_initiated := True, rw_highest := c, rw_seen := 1\<rparr>)"
  by (simp add: CheckAndMark_def replay_Reset_def)

lemma rekey_while_receiving_window:
  assumes "DecodeDataFrame (s_SessionKey r) (s_ConnectionID r) w = Inr (f, c)" "window_repr (s_replay r) A"
  shows "s_SessionKey (sh_sess (fst (rekey_while_receiving w cid key r))) = key \<and>
    s_ConnectionID (sh_sess (fst (rekey_while_receiving w cid key r))) = cid \<and>
    window_repr (s_replay (sh_sess (fst (rekey_while_receiving w cid key r)))) {c} \<and>
    list_all returned (snd (rekey_while_receiving w cid key r))"
proof -
  obtain ready b where ins: "Insert (df_Sequence f) (df_Payload f) (s_reorder r) = (ready, b)"
    by (cases "Insert (df_Sequence f) (df_Payload f) (s_reorder r)")
  have "window_repr (snd (CheckAndMark c (replay_Reset (s_replay r)))) {c}"
    using rw.check_repr [OF window_repr_Reset [OF assms(2)], of c] by (simp add: acceptable_def)
  then show ?thesis
    using assms(1) ins by (simp add: rekey_while_receiving_def move_thread_def CheckAndMark_Reset)
qed

lemma encode_batch_epoch:
  "aes_key_ok (s_SessionKey s) \<Longrightarrow> sent_wires ps s = map (\<lambda>i. out_wire 0 s i (ps ! i)) [0..<length ps]"
  by (simp add: sent_wires_of wires_of_def)

lemma timely_Suc: "timely (map Suc seen) (map Suc arr) = timely seen arr"
proof (induction arr arbitrary: seen)
  case (Cons i arr)
  have "list_all (\<lambda>a. a < Suc i + 64) (map Suc seen) = list_all (\<lambda>a. a < i + 64) seen"
    by (simp add: list_all_iff add.commute)
  moreover have "Suc i \<in> set (map Suc seen) \<longleftrightarrow> i \<in> set seen" by auto
  ultimately show ?case using Cons.IH [of "i # seen"] by (simp only: list.map timely.simps)
qed simp

text \<open>
  After the race the sender goes on with counter 1 and sequence number 2; the receiver holds frame 0
  and has done the same handshake.
\<close>

lemma stalled_after_race:
  assumes keys: "aes_key_ok key2" and fits: "\<forall>q \<in> set qs. length q < 65536" "length qs < 2 ^ 32 - 2"
    and s: "s_SessionKey s = key2" "s_ConnectionID s = cid" "s_sendCounter s = 1" "s_sendSequence s = 2"
    and r: "in_step 1 1 s1 r"
    and arr: "set arr \<subseteq> {..<length qs}" "timely [] arr"
  shows "fst (decode_batch now (map ((!) (sent_wires qs s)) arr) (CompleteHandshake now cid key2 r)) = []"
proof -
  let ?r = "CompleteHandshake now cid key2 r"
  let ?s = "s\<lparr>s_sendCounter := 0, s_sendSequence := 1\<rparr>"
  let ?f = "\<lambda>i. if 2 \<le> i \<and> i < 2 + length qs then qs ! (i - 2) else []"
  have peer: "peers ?s ?r" using keys s by (simp add: peers_def CompleteHandshake_def)
  have "window_repr (s_replay r) (word_of_nat ` {..<1})" "buffer_repr ?f (s_reorder r) {..<1}"
    using r buffer_repr_complete by (auto simp: in_step_def)
  then have rr: "recv_repr ?f {..<1} 1 ?r {}" by (rule recv_repr_fresh)
  have "out_wire 0 s i p = out_wire 0 ?s (Suc i) p" for i p
    using s by (simp add: out_wire_def out_frame_def Let_def)
  then have eq: "map ((!) (sent_wires qs s)) arr = map (\<lambda>i. out_wire 0 ?s i (?f (1 + i))) (map Suc arr)"
    using arr(1) keys s(1) by (auto simp: encode_batch_epoch)
  have mex: "mex (frame_set {..<1} 1 (set (map Suc arr))) = 1" by (rule mex_eqI) (auto simp: frame_set_def)
  have "fst (decode_batch now (map (\<lambda>i. out_wire 0 ?s i (?f (1 + i))) (map Suc arr)) ?r) =
      map ?f [mex (frame_set {..<1} 1 (set []))..<mex (frame_set {..<1} 1 (set [] \<union> set (map Suc arr)))]"
  proof (rule decode_batch_spec [THEN conjunct1])
    show "\<forall>i < Suc (length qs). length (?f (1 + i)) < 65536" using fits(1) by auto
    show "1 + Suc (length qs) \<le> seq_bound" using fits(2) by (simp add: seq_bound_def)
    show "timely [] (map Suc arr)" using timely_Suc [of "[]" arr] arr(2) by simp
  qed (use peer rr arr(1) in auto)
  then show ?thesis unfolding eq using mex by simp
qed

section \<open>Properties\<close>

text \<open>A call that nothing interrupts does what the method does as one step: the same result and the
  same session, for \<open>EncodeOutgoing\<close>, \<open>DecodeIncoming\<close> and \<open>CompleteHandshake\<close>.\<close>

theorem uninterrupted_calls_are_methods:
  "(\<exists>key ctr f. run_alone call_step [t1, t2, t3] (EncodeCall p fl) (idle s) =
       Some (EncodeReturn key ctr f, [], idle (snd (EncodeOutgoing p fl s))) \<and>
     encode_result key ctr f = fst (EncodeOutgoing p fl s)) \<and>
   (\<exists>ts. run_alone call_step ts (DecodeCall w) (idle s) =
     Some (DecodeReturn (fst (DecodeIncoming now w s)), [], idle (snd (DecodeIncoming now w s)))) \<and>
   run_alone call_step [t1, t2, t3, now] (HandshakeCall cid key) (idle s) =
     Some (HandshakeReturn, [], idle (CompleteHandshake now cid key s))"
proof (intro conjI)
  show "\<exists>key ctr f. run_alone call_step [t1, t2, t3] (EncodeCall p fl) (idle s) =
       Some (EncodeReturn key ctr f, [], idle (snd (EncodeOutgoing p fl s))) \<and>
     encode_result key ctr f = fst (EncodeOutgoing p fl s)"
    unfolding encode_alone encode_result_def by (simp add: EncodeOutgoing_eq)
  obtain res s1 where dec: "DecodeIncoming now w s = (res, s1)" by (cases "DecodeIncoming now w s")
  show "\<exists>ts. run_alone call_step ts (DecodeCall w) (idle s) =
     Some (DecodeReturn (fst (DecodeIncoming now w s)), [], idle (snd (DecodeIncoming now w s)))"
    unfolding dec fst_conv snd_conv
  proof (cases res)
    case (Inl e)
    then show "\<exists>ts. run_alone call_step ts (DecodeCall w) (idle s) = Some (DecodeReturn res, [], idle s1)"
      using decode_alone_error [of now w s e s1 now now] dec by blast
  next
    case (Inr r)
    then show "\<exists>ts. run_alone call_step ts (DecodeCall w) (idle s) = Some (DecodeReturn res, [], idle s1)"
      using decode_alone_replay [of now w s r s1 now now] decode_alone_accept [of now w s r s1 now now now] dec
      by (cases "Accepted r") blast+
  qed
qed (rule handshake_alone)

text \<open>C18: Calls of \<open>EncodeOutgoing\<close>, \<open>DecodeIncoming\<close> and \<open>CompleteHandshake\<close> that share a session never
  deadlock, and none runs forever: any interleaving makes at most four steps for every call, and while
  some call has not returned, some call can go on.\<close>

theorem calls_return:
  assumes "((interleave call_step) ^^ k) (idle s, ts0) (sh, ts)"
    "list_all (\<lambda>c. is_call c \<or> (\<exists>cid key. c = HandshakeCall cid key)) ts0"
  shows "k \<le> 4 * length ts0 \<and> (list_all returned ts \<or> (\<exists>c. interleave call_step (sh, ts) c))"
proof -
  have "k \<le> sum_list (map steps_left ts0)" using relpow_left [OF assms(1)] by simp
  moreover have "collect holds_lock ts0 = []"
    using assms(2) by (auto intro!: collect_nil simp: list_all_iff elim!: is_call.elims)
  then have "lock_inv (idle s) ts0" by (simp add: lock_inv_def)
  then have "lock_inv sh ts"
    using locking.inv_reachable [OF relpowp_imp_rtranclp [OF assms(1)]] by blast
  ultimately show ?thesis using steps_left_bound [of ts0] no_deadlock by fastforce
qed

theorem calls_return_witness:
  "\<exists>sh ts. ((interleave call_step) ^^ 1) (idle (NewSession 0 7), [EncodeCall [1] 0, HandshakeCall 1 [2]]) (sh, ts) \<and>
    (list_all returned ts \<or> (\<exists>c. interleave call_step (sh, ts) c))"
proof -
  let ?s = "NewSession 0 7" and ?ts = "[EncodeCall [1] 0, HandshakeCall 1 [2]]"
  have "interleave call_step (idle ?s, ?ts)
      (idle ?s, ?ts[0 := EncodeKeyed [1] 0 (s_SessionKey ?s) (s_ConnectionID ?s)] @ [])"
    by (rule interleave.move [where e = 0]) simp_all
  then have st: "((interleave call_step) ^^ 1) (idle ?s, ?ts)
      (idle ?s, ?ts[0 := EncodeKeyed [1] 0 (s_SessionKey ?s) (s_ConnectionID ?s)] @ [])"
    unfolding relpowp_1 .
  from calls_return [OF st] have "1 \<le> 4 * length ?ts \<and> (list_all returned
      (?ts[0 := EncodeKeyed [1] 0 (s_SessionKey ?s) (s_ConnectionID ?s)] @ []) \<or> (\<exists>c. interleave call_step
      (idle ?s, ?ts[0 := EncodeKeyed [1] 0 (s_SessionKey ?s) (s_ConnectionID ?s)] @ []) c))"
    by simp
  then show ?thesis using st by blast
qed

text \<open>C14: However concurrent calls of \<open>EncodeOutgoing\<close> and \<open>DecodeIncoming\<close> interleave, no two senders
  get the same counter or the same sequence number, and every frame that is sealed has the key,
  connection id, payload and flags of its call. The counters handed out are the next ones of the
  session, as many as there are frames.\<close>

theorem concurrent_sends_distinct:
  assumes "(interleave call_step)\<^sup>*\<^sup>* (idle s, ts0) (sh, ts)" "list_all is_call ts0"
    "length ts0 \<le> 2 ^ 32"
  shows "distinct (collect counter_of ts) \<and> distinct (collect sequence_of ts) \<and>
    s_sendCounter (sh_sess sh) = s_sendCounter s + word_of_nat (length (collect counter_of ts)) \<and>
    (\<forall>i < length ts. \<forall>key ctr f. ts ! i = EncodeReturn key ctr f \<longrightarrow>
      (\<exists>p fl. ts0 ! i = EncodeCall p fl \<and> key = s_SessionKey s \<and> df_ConnectionID f = s_ConnectionID s \<and>
        df_Payload f = p \<and> df_Flags f = fl OR FlagData))"
proof -
  have inv: "send_inv s ts0 sh ts"
    using senders.inv_reachable [OF assms(1)] send_inv_start [OF assms(2)] by blast
  have "\<exists>p fl. ts0 ! i = EncodeCall p fl \<and> key = s_SessionKey s \<and> df_ConnectionID f = s_ConnectionID s \<and>
        df_Payload f = p \<and> df_Flags f = fl OR FlagData"
    if "i < length ts" "ts ! i = EncodeReturn key ctr f" for i key ctr f
  proof -
    have "point_of (s_SessionKey s) (s_ConnectionID s) (ts0 ! i) (ts ! i)"
      using inv that(1) by (auto simp: send_inv_def one_key_def list_all2_conv_all_nth)
    then show ?thesis
      using that(2) by (cases "ts0 ! i") (auto dest: arg_cong [of _ _ df_Payload]
          arg_cong [of _ _ df_ConnectionID] arg_cong [of _ _ df_Flags])
  qed
  moreover have len: "length ts \<le> 2 ^ 32"
    using inv assms(3) by (auto simp: send_inv_def one_key_def list_all2_lengthD)
  have "length (counter_of t) \<le> 1" "length (sequence_of t) \<le> 1" for t by (cases t, simp_all)+
  then have "length (collect counter_of ts) \<le> 2 ^ 32" "length (collect sequence_of ts) \<le> 2 ^ 32"
    using length_collect [of counter_of ts] length_collect [of sequence_of ts] len by simp_all
  then have "distinct (collect counter_of ts)" "distinct (collect sequence_of ts)"
    using inv handed_out_distinct [of "s_sendCounter s" _ "s_sendCounter (sh_sess sh)"]
      handed_out_distinct [of "s_sendSequence s" _ "s_sendSequence (sh_sess sh)"]
    by (simp_all add: send_inv_def)
  ultimately show ?thesis using inv by (simp add: send_inv_def handed_out_def)
qed

theorem concurrent_sends_distinct_witness:
  "\<exists>sh k f g. (interleave call_step)\<^sup>*\<^sup>* (idle (connected 0 7 1 k), [EncodeCall [1] 0, EncodeCall [2] 0])
      (sh, [EncodeReturn k 1 f, EncodeReturn k 0 g]) \<and> df_Sequence f = 0 \<and> df_Sequence g = 1 \<and>
    distinct (collect counter_of [EncodeReturn k 1 f, EncodeReturn k 0 g])"
proof -
  let ?s = "connected 0 7 1 (replicate 32 5)"
  let ?ms = "[(0, 0), (1, 0), (0, 0), (1, 0), (1, 0), (0, 0)] :: (nat \<times> nanos) list"
  let ?c = "schedule call_step ?ms (idle ?s, [EncodeCall [1] 0, EncodeCall [2] 0])"
  have run: "\<exists>sh f g. ?c = (sh, [EncodeReturn (replicate 32 5) 1 f, EncodeReturn (replicate 32 5) 0 g]) \<and>
      df_Sequence f = 0 \<and> df_Sequence g = 1"
    by (simp add: move_thread_def NextSendSequence_eq NextSendCounter_eq)
  then obtain sh f g where c: "?c = (sh, [EncodeReturn (replicate 32 5) 1 f, EncodeReturn (replicate 32 5) 0 g])"
    "df_Sequence f = 0" "df_Sequence g = 1" by blast
  have "(interleave call_step)\<^sup>*\<^sup>* (idle ?s, [EncodeCall [1] 0, EncodeCall [2] 0])
      (sh, [EncodeReturn (replicate 32 5) 1 f, EncodeReturn (replicate 32 5) 0 g])"
    unfolding c(1) [symmetric] by (rule schedule_run)
  from this concurrent_sends_distinct [OF this] show ?thesis using c(2,3) by (intro exI conjI) auto
qed

text \<open>C15: A send that overlaps with a handshake repeats a nonce: the key was read before the handshake, the
  counter is taken after it was reset, and the frame has the counter, the key and the connection id
  of the first frame under that key. The two ciphertexts show the exclusive or of the payloads.\<close>

theorem rekey_race_repeats_nonce:
  assumes "aes_key_ok key" "length p = length p0"
  shows "let s = connected t d cid key; (first, s1) = EncodeOutgoing p0 0 s in
    \<exists>sh ctr f w0 w. (interleave call_step)\<^sup>*\<^sup>* (idle s1, [EncodeCall p 0, HandshakeCall cid2 key2])
        (sh, [EncodeReturn key ctr f, HandshakeReturn]) \<and>
      first = Inr w0 \<and> encode_result key ctr f = Inr w \<and> take 4 w = take 4 w0 \<and>
      xor_bytes (slice 21 (21 + length p) w) (slice 21 (21 + length p0) w0) = xor_bytes p p0"
proof -
  let ?s = "connected t d cid key"
  let ?s' = "(advance 1 ?s)\<lparr>s_sendCounter := 0\<rparr>"
  have run: "(interleave call_step)\<^sup>*\<^sup>* (idle (advance 1 ?s), [EncodeCall p 0, HandshakeCall cid2 key2])
      (idle (advance 1 (CompleteHandshake 0 cid2 key2 (advance 1 ?s))),
       [EncodeReturn key 0 (out_frame 0 (advance 1 ?s) 0 p), HandshakeReturn])"
    using rekey_while_sending_eq [of p cid2 key2 "advance 1 ?s"] schedule_run
    unfolding rekey_while_sending_def by (metis advance_key(1) connected_sel(1))
  have frame: "out_frame 0 (advance 1 ?s) 0 p = out_frame 0 ?s' 0 p"
    by (simp add: out_frame_def)
  have first: "EncodeOutgoing p0 0 ?s = (Inr (out_wire 0 ?s 0 p0), advance 1 ?s)"
    using assms(1) by (simp add: EncodeOutgoing_wire)
  have w: "encode_result key 0 (out_frame 0 (advance 1 ?s) 0 p) = Inr (out_wire 0 ?s' 0 p)"
    unfolding frame encode_result_def EncodeDataFrame_ok [OF assms(1)] by (simp add: out_wire_def out_frame_def)
  have "xor_bytes (slice 21 (21 + length p) (out_wire 0 ?s' 0 p)) (slice 21 (21 + length p0) (out_wire 0 ?s 0 p0)) =
      xor_bytes p p0"
    using assms by (intro shared_counter_leak) simp_all
  moreover have "take 4 (out_wire 0 ?s' 0 p) = take 4 (out_wire 0 ?s 0 p0)" by (simp add: out_wire_def)
  ultimately show ?thesis unfolding first Let_def prod.case using run w by blast
qed

theorem rekey_race_repeats_nonce_witness:
  "let s = connected 0 7 1 (replicate 32 5); (first, s1) = EncodeOutgoing [1, 2] 0 s in
    \<exists>sh ctr f w0 w. (interleave call_step)\<^sup>*\<^sup>* (idle s1, [EncodeCall [7, 7] 0, HandshakeCall 1 (replicate 32 6)])
        (sh, [EncodeReturn (replicate 32 5) ctr f, HandshakeReturn]) \<and>
      first = Inr w0 \<and> encode_result (replicate 32 5) ctr f = Inr w \<and> take 4 w = take 4 w0 \<and>
      xor_bytes (slice 21 (21 + length [7 :: byte, 7]) w) (slice 21 (21 + length [1 :: byte, 2]) w0) =
        xor_bytes [7, 7] [1, 2]"
  by (rule rekey_race_repeats_nonce) (simp_all add: aes_key_ok_def)

text \<open>C16: The same race stalls the stream. The racing frame took the sequence number after the one that
  the peer had received, under a key the peer no longer has: whatever the sender sends afterwards
  under the new key, nothing is delivered.\<close>

theorem rekey_race_stalls_stream:
  assumes "in_step 1 1 s1 r" "s_SessionKey s1 = key" "aes_key_ok key2"
    "list_all (\<lambda>q. length q < 65536) qs" "length qs < 2 ^ 32 - 2"
    "set arr \<subseteq> {..<length qs}" "timely [] arr"
  shows "\<exists>sh f. (interleave call_step)\<^sup>*\<^sup>* (idle s1, [EncodeCall p 0, HandshakeCall cid key2])
        (sh, [EncodeReturn key 0 f, HandshakeReturn]) \<and>
      fst (decode_batch now (map ((!) (sent_wires qs (sh_sess sh))) arr) (CompleteHandshake now cid key2 r)) = []"
proof -
  let ?s2 = "advance 1 (CompleteHandshake 0 cid key2 s1)"
  have run: "(interleave call_step)\<^sup>*\<^sup>* (idle s1, [EncodeCall p 0, HandshakeCall cid key2])
      (idle ?s2, [EncodeReturn key 0 (out_frame 0 s1 0 p), HandshakeReturn])"
    using rekey_while_sending_eq [of p cid key2 s1] schedule_run assms(2)
    unfolding rekey_while_sending_def by metis
  have "s_sendCounter ?s2 = 1" "s_sendSequence ?s2 = 2" "s_SessionKey ?s2 = key2" "s_ConnectionID ?s2 = cid"
    using assms(1) by (simp_all add: advance_def CompleteHandshake_def in_step_def)
  then have "fst (decode_batch now (map ((!) (sent_wires qs ?s2)) arr) (CompleteHandshake now cid key2 r)) = []"
    using assms by (intro stalled_after_race [OF assms(3) _ _ _ _ _ _ assms(1)]) (simp_all add: list_all_iff)
  then have "fst (decode_batch now (map ((!) (sent_wires qs (sh_sess (idle ?s2)))) arr)
      (CompleteHandshake now cid key2 r)) = []"
    by (simp only: idle_sel)
  with run show ?thesis by blast
qed

text \<open>Two sessions that exchanged one frame.\<close>

lemma in_step_first:
  assumes "aes_key_ok key" "length p < 65536"
  shows "\<exists>r. in_step 1 1 (advance 1 (connected t1 d1 cid key)) r \<and>
    snd (DecodeIncoming now (out_wire 0 (connected t1 d1 cid key) 0 p) (connected t2 d2 cid key)) = r"
proof -
  have "in_step 0 0 (connected t1 d1 cid key) (connected t2 d2 cid key)"
    using assms(1) connected_recv [of "\<lambda>_. []" t2 d2 cid key]
    by (simp add: in_step_def recv_repr_def frame_set_def seq_bound_def lessThan_0)
  from in_step_one [OF this assms(2), of now 0] show ?thesis by (auto simp: seq_bound_def)
qed

theorem rekey_race_stalls_stream_witness:
  "\<exists>s1 r sh f. (interleave call_step)\<^sup>*\<^sup>* (idle s1, [EncodeCall [9] 0, HandshakeCall 1 (replicate 32 6)])
        (sh, [EncodeReturn (replicate 32 5) 0 f, HandshakeReturn]) \<and>
      fst (decode_batch 0 (map ((!) (sent_wires [[1], [2]] (sh_sess sh))) [0, 1])
        (CompleteHandshake 0 1 (replicate 32 6) r)) = []"
proof -
  let ?s1 = "advance 1 (connected 0 7 1 (replicate 32 5))"
  obtain r where r: "in_step 1 1 ?s1 r"
    using in_step_first [of "replicate 32 5" "[8]" 0 7 1] by (auto simp: aes_key_ok_def)
  have "\<exists>sh f. (interleave call_step)\<^sup>*\<^sup>* (idle ?s1, [EncodeCall [9] 0, HandshakeCall 1 (replicate 32 6)])
        (sh, [EncodeReturn (replicate 32 5) 0 f, HandshakeReturn]) \<and>
      fst (decode_batch 0 (map ((!) (sent_wires [[1], [2]] (sh_sess sh))) [0, 1])
        (CompleteHandshake 0 1 (replicate 32 6) r)) = []"
    by (rule rekey_race_stalls_stream [OF r]) (auto simp: aes_key_ok_def)
  then show ?thesis by blast
qed

text \<open>C17: A receive that overlaps with a handshake spoils the new replay window: the counter of the frame,
  which was sealed under the old key, is marked after the window was cleared, and the frame of the
  new key with that counter is then refused as a replay although it was never received.\<close>

theorem rekey_race_refuses_new_frame:
  assumes "aes_key_ok key" "aes_key_ok key2" "length p < 65536" "length q < 65536"
    "in_step 0 0 s r" "s_SessionKey s = key"
  shows "\<exists>sh w0 w. fst (EncodeOutgoing p 0 s) = Inr w0 \<and>
    fst (EncodeOutgoing q 0 (CompleteHandshake now cid key2 (snd (EncodeOutgoing p 0 s)))) = Inr w \<and>
    (\<exists>ts. (interleave call_step)\<^sup>*\<^sup>* (idle r, [DecodeCall w0, HandshakeCall cid key2]) (sh, ts) \<and>
      list_all returned ts) \<and>
    (\<exists>res. fst (DecodeIncoming now w (sh_sess sh)) = Inr res \<and> \<not> Accepted res \<and> is_Replay res \<and>
      Ready res = [] \<and> df_Payload (Frame res) = q)"
proof -
  let ?old = "out_wire 0 s 0 p" and ?s2 = "CompleteHandshake now cid key2 (advance 1 s)"
  let ?cur = "out_wire 0 ?s2 0 q"
  have peer: "peers s r" using assms(5) by (simp add: peers_def in_step_def)
  have dec: "DecodeDataFrame (s_SessionKey r) (s_ConnectionID r) ?old = Inr (out_frame 0 s 0 p, 0)"
    using Decode_out_wire [OF peer assms(3), of 0 0] by simp
  have win: "window_repr (s_replay r) {}" using assms(5) by (simp add: in_step_def lessThan_0)
  obtain sh ts where c: "rekey_while_receiving ?old cid key2 r = (sh, ts)"
    by (cases "rekey_while_receiving ?old cid key2 r")
  then have run: "(interleave call_step)\<^sup>*\<^sup>* (idle r, [DecodeCall ?old, HandshakeCall cid key2]) (sh, ts)"
    using schedule_run unfolding rekey_while_receiving_def by metis
  note st = rekey_while_receiving_window [OF dec win, of cid key2, unfolded c fst_conv snd_conv]
  have "peers ?s2 (sh_sess sh)"
    using st assms(2) by (simp add: peers_def CompleteHandshake_def)
  from Decode_out_wire [OF this assms(4), of 0 0]
  have "fst (DecodeIncoming now ?cur (sh_sess sh)) =
      Inr \<lparr>Accepted = False, is_Replay = True, Ready = [], Frame = out_frame 0 ?s2 0 q\<rparr>"
    using st by (intro DecodeIncoming_again [where A = "{0}" and c = 0]) simp_all
  moreover have "fst (EncodeOutgoing p 0 s) = Inr ?old" "snd (EncodeOutgoing p 0 s) = advance 1 s"
    using assms(1,6) by (simp_all add: EncodeOutgoing_wire)
  moreover have "fst (EncodeOutgoing q 0 ?s2) = Inr ?cur"
    using assms(2) by (simp add: EncodeOutgoing_wire CompleteHandshake_def)
  ultimately show ?thesis using run st by (auto simp: out_frame_def intro!: exI [of _ sh])
qed

theorem rekey_race_refuses_new_frame_witness:
  "\<exists>s r sh w0 w. fst (EncodeOutgoing [1] 0 s) = Inr w0 \<and>
    fst (EncodeOutgoing [2] 0 (CompleteHandshake 0 1 (replicate 32 6) (snd (EncodeOutgoing [1] 0 s)))) = Inr w \<and>
    (\<exists>ts. (interleave call_step)\<^sup>*\<^sup>* (idle r, [DecodeCall w0, HandshakeCall 1 (replicate 32 6)]) (sh, ts) \<and>
      list_all returned ts) \<and>
    (\<exists>res. fst (DecodeIncoming 0 w (sh_sess sh)) = Inr res \<and> \<not> Accepted res \<and> is_Replay res \<and>
      Ready res = [] \<and> df_Payload (Frame res) = [2])"
proof -
  let ?s = "connected 0 7 1 (replicate 32 5)"
  have "in_step 0 0 ?s ?s"
    using connected_recv [of "\<lambda>_. []" 0 7 1 "replicate 32 5"]
    by (simp add: in_step_def recv_repr_def frame_set_def seq_bound_def aes_key_ok_def lessThan_0)
  from rekey_race_refuses_new_frame [OF _ _ _ _ this, of "replicate 32 5" "replicate 32 6" "[1]" "[2]" 0 1]
  show ?thesis by (simp add: aes_key_ok_def) blast
qed

end
