(* ===== verification/SessionBurst.thy ===== *)
theory SessionBurst
  imports SessionThreads "HOL-Library.Sublist"
begin

text \<open>
  Concurrent receivers of one session, and a burst: payloads sent by concurrent calls of
  \<open>EncodeOutgoing\<close> on one side and received by concurrent calls of \<open>DecodeIncoming\<close> on the other.
\<close>

section \<open>Concurrent receivers\<close>

text \<open>The frames whose counter was marked, those inserted in the reorder buffer, the payloads returned.\<close>

fun taken :: "call \<Rightarrow> DataFrame list" where
  "taken (DecodeMarked f) = [f]"
| "taken (DecodeStamped f) = [f]"
| "taken (DecodeReturn (Inr res)) = (if Accepted res then [Frame res] else [])"
| "taken _ = []"

fun inserted :: "call \<Rightarrow> DataFrame list" where
  "inserted (DecodeReturn (Inr res)) = (if Accepted res then [Frame res] else [])"
| "inserted _ = []"

fun delivered :: "call \<Rightarrow> bytes list" where
  "delivered (DecodeReturn (Inr res)) = Ready res"
| "delivered _ = []"

fun marked :: "call \<Rightarrow> bool" where
  "marked (DecodeMarked f) = True"
| "marked (DecodeStamped f) = True"
| "marked (DecodeReturn r) = True"
| "marked _ = False"

definition seqno :: "DataFrame \<Rightarrow> nat" where
  "seqno f = unat (df_Sequence f)"

definition inserted_numbers :: "call list \<Rightarrow> nat set" where
  "inserted_numbers ts = seqno ` set (collect inserted ts)"

text \<open>
  A wire frame of the burst: its counter \<open>c\<close> is one of the 64 from \<open>n\<close> on, its sequence number is
  \<open>g c\<close> and its payload the one of that number. Anything else is a frame from before the burst, or
  fails to open.
\<close>

definition burst_frame :: "bytes \<Rightarrow> u32 \<Rightarrow> (nat \<Rightarrow> bytes) \<Rightarrow> (nat \<Rightarrow> nat) \<Rightarrow> nat \<Rightarrow> bytes \<Rightarrow> nat \<Rightarrow> bool" where
  "burst_frame key cid f g n w c \<longleftrightarrow> n \<le> c \<and> c < n + 64 \<and>
     (\<exists>fr. DecodeDataFrame key cid w = Inr (fr, word_of_nat c) \<and> seqno fr = g c \<and> df_Payload fr = f (g c))"

definition burst_call :: "bytes \<Rightarrow> u32 \<Rightarrow> (nat \<Rightarrow> bytes) \<Rightarrow> (nat \<Rightarrow> nat) \<Rightarrow> nat \<Rightarrow> call \<Rightarrow> bool" where
  "burst_call key cid f g n c \<longleftrightarrow>
     (\<forall>w. c = DecodeCall w \<longrightarrow> (\<exists>e. DecodeDataFrame key cid w = Inl e) \<or>
        (\<exists>fr k. k < n \<and> DecodeDataFrame key cid w = Inr (fr, word_of_nat k)) \<or>
        (\<exists>k. burst_frame key cid f g n w k))"

text \<open>A run of consecutive payloads of the stream \<open>f\<close> from number \<open>m\<close> to \<open>M\<close>.\<close>

definition segment :: "(nat \<Rightarrow> bytes) \<Rightarrow> nat \<Rightarrow> nat \<Rightarrow> bytes list \<Rightarrow> bool" where
  "segment f m M ps \<longleftrightarrow> (\<exists>a b. m \<le> a \<and> a \<le> b \<and> b \<le> M \<and> ps = map f [a..<b])"

lemma segment_nil: "m \<le> M \<Longrightarrow> segment f m M []"
  unfolding segment_def by (intro exI [of _ m]) simp

lemma segment_mono: "segment f m M ps \<Longrightarrow> M \<le> M' \<Longrightarrow> segment f m M' ps"
  unfolding segment_def by (elim exE conjE, intro exI conjI) (assumption | erule (1) order_trans)+

lemma segment_sublist: "segment f m M ps \<Longrightarrow> sublist ps (map f [m..<M])"
proof -
  assume "segment f m M ps"
  then obtain a b where ab: "m \<le> a" "a \<le> b" "b \<le> M" "ps = map f [a..<b]" by (auto simp: segment_def)
  then have "[m..<M] = [m..<a] @ [a..<b] @ [b..<M]"
    by (metis le_Suc_ex order_trans upt_add_eq_append)
  then show ?thesis using ab(4) by (simp add: sublist_appendI)
qed

text \<open>The counters \<open>N\<close> marked so far belong to the frames taken so far.\<close>

definition recv_state ::
  "(nat \<Rightarrow> bytes) \<Rightarrow> (nat \<Rightarrow> nat) \<Rightarrow> nat \<Rightarrow> nat \<Rightarrow> nat set \<Rightarrow> Session \<Rightarrow> call list \<Rightarrow> bool" where
  "recv_state f g n m N s ts \<longleftrightarrow> N \<subseteq> {n..<n + 64} \<and>
     window_repr (s_replay s) (word_of_nat ` ({..<n} \<union> N)) \<and>
     mset (map seqno (collect taken ts)) = mset_set (g ` N) \<and>
     (\<forall>fr \<in> set (collect taken ts). df_Payload fr = f (seqno fr)) \<and>
     buffer_repr f (s_reorder s) ({..<m} \<union> inserted_numbers ts) \<and>
     mset (collect delivered ts) = mset (map f [m..<mex ({..<m} \<union> inserted_numbers ts)]) \<and>
     (\<forall>t \<in> set ts. segment f m (mex ({..<m} \<union> inserted_numbers ts)) (delivered t))"

definition recv_with ::
  "bytes \<Rightarrow> u32 \<Rightarrow> (nat \<Rightarrow> bytes) \<Rightarrow> (nat \<Rightarrow> nat) \<Rightarrow> nat \<Rightarrow> nat \<Rightarrow> call list \<Rightarrow> nat set \<Rightarrow> shared \<Rightarrow> call list \<Rightarrow> bool"
where
  "recv_with key cid f g n m ts0 N sh ts \<longleftrightarrow> one_key key cid ts0 sh ts \<and>
     list_all (burst_call key cid f g n) ts0 \<and> recv_state f g n m N (sh_sess sh) ts \<and>
     (\<forall>i < length ts. \<forall>w k. ts0 ! i = DecodeCall w \<longrightarrow> marked (ts ! i) \<longrightarrow>
        burst_frame key cid f g n w k \<longrightarrow> k \<in> N) \<and>
     (\<forall>k \<in> N. \<exists>w. DecodeCall w \<in> set ts0 \<and> burst_frame key cid f g n w k)"

definition recv_inv ::
  "bytes \<Rightarrow> u32 \<Rightarrow> (nat \<Rightarrow> bytes) \<Rightarrow> (nat \<Rightarrow> nat) \<Rightarrow> nat \<Rightarrow> nat \<Rightarrow> call list \<Rightarrow> shared \<Rightarrow> call list \<Rightarrow> bool" where
  "recv_inv key cid f g n m ts0 sh ts \<longleftrightarrow> (\<exists>N. recv_with key cid f g n m ts0 N sh ts)"

text \<open>The burst does not reach the bounds of the counters, and no two frames share a number.\<close>

definition burst_ok :: "(nat \<Rightarrow> nat) \<Rightarrow> nat \<Rightarrow> bool" where
  "burst_ok g n \<longleftrightarrow> n + 64 \<le> 2 ^ 32 \<and> inj_on g {n..<n + 64} \<and> g ` {n..<n + 64} \<subseteq> {..<seq_bound}"

lemma u32_nat_eq: "a < 2 ^ 32 \<Longrightarrow> b < 2 ^ 32 \<Longrightarrow> (word_of_nat a :: u32) = word_of_nat b \<longleftrightarrow> a = b"
  by (metis unat_seq)

lemma burst_frame_unique:
  "n + 64 \<le> 2 ^ 32 \<Longrightarrow> burst_frame key cid f g n w k \<Longrightarrow> burst_frame key cid f g n w k' \<Longrightarrow> k = k'"
  unfolding burst_frame_def using unat_seq [of k] unat_seq [of k'] by fastforce

lemma recv_state_same:
  assumes "recv_state f g n m N s ts" "i < length ts" "taken t = taken (ts ! i)"
    "inserted t = inserted (ts ! i)" "delivered t = delivered (ts ! i)"
    "s_replay s' = s_replay s" "s_reorder s' = s_reorder s"
  shows "recv_state f g n m N s' (ts[i := t])"
proof -
  have "collect taken (ts[i := t]) = collect taken ts" "collect inserted (ts[i := t]) = collect inserted ts"
    "collect delivered (ts[i := t]) = collect delivered ts"
    using assms(2-5) by (simp_all add: collect_update_same)
  moreover have "segment f m (mex ({..<m} \<union> inserted_numbers ts)) (delivered u)"
    if "u \<in> set (ts[i := t])" for u
    using that set_update_subset_insert [of ts i t] assms(1,2,5) by (auto simp: recv_state_def)
  ultimately show ?thesis
    using assms(1,6,7) by (simp add: recv_state_def inserted_numbers_def)
qed

lemma acceptable_burst:
  assumes "n + 64 \<le> 2 ^ 32" "N \<subseteq> {n..<n + 64}" "n \<le> k" "k < n + 64"
  shows "acceptable (word_of_nat ` ({..<n} \<union> N)) (word_of_nat k :: u32) \<longleftrightarrow> k \<notin> N"
proof -
  have "\<forall>a \<in> {..<n} \<union> N. a < 2 ^ 32" "k < 2 ^ 32" using assms by auto
  then show ?thesis using assms(2-4) by (subst acceptable_iff) auto
qed

text \<open>The step at the replay window.\<close>

lemma recv_state_mark:
  assumes "recv_state f g n m N s ts" "i < length ts" "ts ! i = DecodeKeyed w key cid" "burst_ok g n"
    "burst_frame key cid f g n w k" "DecodeDataFrame key cid w = Inr (fr, word_of_nat k)"
    "CheckAndMark (word_of_nat k) (s_replay s) = (ok, win)"
    "t = (if ok then DecodeMarked fr else DecodeReturn (Inr \<lparr>Accepted = False, is_Replay = True, Ready = [], Frame = fr\<rparr>))"
  shows "recv_state f g n m (insert k N) (s\<lparr>s_replay := win\<rparr>) (ts[i := t])"
proof -
  have k: "n \<le> k" "k < n + 64" "seqno fr = g k" "df_Payload fr = f (g k)"
    using assms(5,6) by (auto simp: burst_frame_def)
  have N: "N \<subseteq> {n..<n + 64}" and w: "window_repr (s_replay s) (word_of_nat ` ({..<n} \<union> N))"
    using assms(1) by (simp_all add: recv_state_def)
  have ok: "ok \<longleftrightarrow> k \<notin> N"
    using rw.check_verdict [OF w, of "word_of_nat k"] assms(7) acceptable_burst [OF _ N k(1,2)] assms(4)
    by (simp add: burst_ok_def)
  have win: "window_repr win (word_of_nat ` ({..<n} \<union> insert k N))"
    using rw.check_repr [OF w, of "word_of_nat k"] assms(7) acceptable_burst [OF _ N k(1,2)] assms(4) ok
    by (auto simp: burst_ok_def insert_absorb)
  have same: "collect inserted (ts[i := t]) = collect inserted ts" "collect delivered (ts[i := t]) = collect delivered ts"
    using assms(2,3,8) by (simp_all add: collect_update_same)
  have "m \<le> mex ({..<m} \<union> inserted_numbers ts)"
    using mex_mono [of "{..<m}" "{..<m} \<union> inserted_numbers ts"] by (simp add: inserted_numbers_def)
  then have "segment f m (mex ({..<m} \<union> inserted_numbers ts)) (delivered t)"
    using assms(8) by (simp add: segment_nil)
  then have seg: "segment f m (mex ({..<m} \<union> inserted_numbers ts)) (delivered u)"
    if "u \<in> set (ts[i := t])" for u
    using that set_update_subset_insert [of ts i t] assms(1) unfolding recv_state_def by blast
  have "mset (map seqno (collect taken (ts[i := t]))) = mset_set (g ` insert k N) \<and>
    (\<forall>fr \<in> set (collect taken (ts[i := t])). df_Payload fr = f (seqno fr))"
  proof (cases ok)
    case True
    have up: "mset (collect taken (ts[i := t])) = add_mset fr (mset (collect taken ts))"
      using mset_collect_update [OF assms(2), of taken t] assms(3,8) True by simp
    have "g k \<notin> g ` N"
      using inj_on_image_mem_iff [of g "{n..<n + 64}" k N] assms(4) N k(1,2) ok True
      by (simp add: burst_ok_def)
    moreover have "finite N" using N finite_subset by blast
    ultimately have "mset (map seqno (collect taken (ts[i := t]))) = mset_set (g ` insert k N)"
      using up assms(1) k(3) by (simp add: recv_state_def)
    moreover have "set (collect taken (ts[i := t])) = insert fr (set (collect taken ts))"
      using arg_cong [OF up, of set_mset] by simp
    ultimately show ?thesis using assms(1) k(3,4) by (simp add: recv_state_def)
  next
    case False
    then have "collect taken (ts[i := t]) = collect taken ts"
      using assms(2,3,8) by (simp add: collect_update_same)
    then show ?thesis using assms(1) ok False by (simp add: recv_state_def insert_absorb)
  qed
  then show ?thesis
    using assms(1) N k(1,2) win same seg by (simp add: recv_state_def inserted_numbers_def)
qed

text \<open>A frame from before the burst is a replay.\<close>

lemma recv_state_old:
  assumes "recv_state f g n m N s ts" "i < length ts" "ts ! i = DecodeKeyed w key cid" "k < n"
    "CheckAndMark (word_of_nat k) (s_replay s) = (ok, win)"
    "t = (if ok then DecodeMarked fr else DecodeReturn (Inr \<lparr>Accepted = False, is_Replay = True, Ready = [], Frame = fr\<rparr>))"
  shows "recv_state f g n m N (s\<lparr>s_replay := win\<rparr>) (ts[i := t])"
proof -
  let ?A = "word_of_nat ` ({..<n} \<union> N) :: u32 set"
  have w: "window_repr (s_replay s) ?A" using assms(1) by (simp add: recv_state_def)
  have "\<not> acceptable ?A (word_of_nat k)" using assms(4) by (simp add: acceptable_def)
  then have "\<not> ok" "window_repr win ?A"
    using rw.check_verdict [OF w, of "word_of_nat k"] rw.check_repr [OF w, of "word_of_nat k"] assms(5)
    by simp_all
  moreover have "recv_state f g n m N s (ts[i := t])"
    using calculation(1) assms(3,6) by (intro recv_state_same [OF assms(1,2)]) auto
  ultimately show ?thesis by (simp add: recv_state_def)
qed

text \<open>The step at the reorder buffer.\<close>

lemma recv_state_insert:
  assumes "recv_state f g n m N s ts" "i < length ts" "ts ! i = DecodeStamped fr" "burst_ok g n"
    "Insert (df_Sequence fr) (df_Payload fr) (s_reorder s) = (ready, r)"
    "t = DecodeReturn (Inr \<lparr>Accepted = True, is_Replay = False, Ready = ready, Frame = fr\<rparr>)"
  shows "recv_state f g n m N (s\<lparr>s_reorder := r\<rparr>) (ts[i := t])"
proof -
  let ?S = "{..<m} \<union> inserted_numbers ts" and ?S' = "{..<m} \<union> inserted_numbers (ts[i := t])"
  have buf: "buffer_repr f (s_reorder s) ?S" using assms(1) by (simp add: recv_state_def)
  have tk: "fr \<in> set (collect taken ts)" using nth_mem [OF assms(2)] assms(3)
    by (auto simp: set_collect intro!: bexI [of _ "DecodeStamped fr"])
  have "set_mset (mset (map seqno (collect taken ts))) = set_mset (mset_set (g ` N))"
    using assms(1) by (simp add: recv_state_def)
  moreover have "finite N" using assms(1) finite_subset by (auto simp: recv_state_def)
  ultimately have "seqno ` set (collect taken ts) = g ` N" by simp
  then have "seqno fr \<in> g ` N" using tk by blast
  then have bound: "seqno fr < seq_bound"
    using assms(1,4) by (auto simp: burst_ok_def recv_state_def)
  have num: "?S' = insert (seqno fr) ?S"
    using arg_cong [OF mset_collect_update [OF assms(2), of inserted t], of set_mset] assms(3,6)
    by (auto simp: inserted_numbers_def)
  have "Insert (word_of_nat (seqno fr)) (f (seqno fr)) (s_reorder s) = (ready, r)"
    using assms(1,5) tk by (simp add: seqno_def recv_state_def)
  then have ready: "ready = map f [mex ?S..<mex ?S']" "buffer_repr f r ?S'"
    using rb.ins_spec [OF buf bound] unfolding num by blast+
  have mono: "m \<le> mex ?S" "mex ?S \<le> mex ?S'"
    using mex_mono [of "{..<m}" ?S] mex_mono [of ?S ?S'] rb.repr_finite [OF buf]
      rb.repr_finite [OF ready(2)] num by auto
  have "mset (collect delivered (ts[i := t])) = mset (collect delivered ts) + mset ready"
    using mset_collect_update [OF assms(2), of delivered t] assms(3,6) by simp
  also have "\<dots> = mset (map f ([m..<mex ?S] @ [mex ?S..<mex ?S']))"
    using assms(1) ready(1) by (simp add: recv_state_def)
  also have "[m..<mex ?S] @ [mex ?S..<mex ?S'] = [m..<mex ?S']"
    using mono by (metis le_Suc_ex upt_add_eq_append)
  finally have del: "mset (collect delivered (ts[i := t])) = mset (map f [m..<mex ?S'])" .
  have "collect taken (ts[i := t]) = collect taken ts"
    using assms(2,3,6) by (simp add: collect_update_same)
  moreover have "segment f m (mex ?S') (delivered u)" if "u \<in> set (ts[i := t])" for u
  proof (cases "u = t")
    case True
    have "delivered t = ready" by (simp add: assms(6))
    moreover have "segment f m (mex ?S') ready"
      unfolding segment_def using mono ready(1) by (intro exI [of _ "mex ?S"] exI [of _ "mex ?S'"]) auto
    ultimately show ?thesis unfolding True by (rule ssubst)
  next
    case False
    then have "u \<in> set ts" using that set_update_subset_insert [of ts i t] by blast
    then have "segment f m (mex ?S) (delivered u)" using assms(1) by (simp add: recv_state_def)
    then show ?thesis using mono(2) by (rule segment_mono)
  qed
  ultimately show ?thesis using assms(1) ready(2) del by (simp add: recv_state_def)
qed

text \<open>A step that leaves the marked counters alone, and one that may mark a counter.\<close>

lemma recv_inv_update:
  assumes w: "recv_with key cid f g n m ts0 N sh ts" and one: "one_key key cid ts0 sh' (ts[i := t])"
    and st: "recv_state f g n m N' (sh_sess sh') (ts[i := t])" and N: "N \<subseteq> N'"
    and cur: "\<And>w k. ts0 ! i = DecodeCall w \<Longrightarrow> marked t \<Longrightarrow> burst_frame key cid f g n w k \<Longrightarrow> k \<in> N'"
    and src: "\<And>k. k \<in> N' - N \<Longrightarrow> \<exists>w. DecodeCall w \<in> set ts0 \<and> burst_frame key cid f g n w k"
  shows "recv_inv key cid f g n m ts0 sh' (ts[i := t])"
proof -
  have "k \<in> N'" if h: "j < length (ts[i := t])" "ts0 ! j = DecodeCall w" "marked (ts[i := t] ! j)"
    "burst_frame key cid f g n w k" for j w k
  proof (cases "j = i")
    case True
    then show ?thesis using cur [of w k] h by simp
  next
    case False
    then have "k \<in> N" using assms(1) h unfolding recv_with_def by (metis length_list_update nth_list_update_neq)
    then show ?thesis using N by blast
  qed
  then have marks: "\<forall>j < length (ts[i := t]). \<forall>w k. ts0 ! j = DecodeCall w \<longrightarrow> marked (ts[i := t] ! j) \<longrightarrow>
      burst_frame key cid f g n w k \<longrightarrow> k \<in> N'"
    by blast
  have "\<forall>k \<in> N'. \<exists>w. DecodeCall w \<in> set ts0 \<and> burst_frame key cid f g n w k"
    using src w unfolding recv_with_def by blast
  with one st marks w show ?thesis
    unfolding recv_inv_def recv_with_def by (intro conjI exI [of _ N']) simp_all
qed

lemma recv_inv_keep:
  assumes "recv_with key cid f g n m ts0 N sh ts" "one_key key cid ts0 sh' (ts[i := t])" "i < length ts"
    "recv_state f g n m N (sh_sess sh') (ts[i := t])"
    "\<And>w k. ts0 ! i = DecodeCall w \<Longrightarrow> marked t \<Longrightarrow> burst_frame key cid f g n w k \<Longrightarrow> marked (ts ! i)"
  shows "recv_inv key cid f g n m ts0 sh' (ts[i := t])"
proof (rule recv_inv_update [OF assms(1,2,4)])
  show "k \<in> N" if "ts0 ! i = DecodeCall w" "marked t" "burst_frame key cid f g n w k" for w k
    using assms(1,3) assms(5) [OF that] that(1,3) unfolding recv_with_def by blast
qed simp_all

text \<open>The step that opens the frame and asks the replay window.\<close>

lemma recv_inv_marks:
  assumes inv: "recv_with key cid f g n m ts0 N sh ts" and one: "one_key key cid ts0 sh' (ts[i := t])"
    and i: "i < length ts" "ts0 ! i = DecodeCall w" "ts ! i = DecodeKeyed w key cid" and ok: "burst_ok g n"
    and dec: "DecodeDataFrame key cid w = Inr (fr, word_of_nat k)"
    and k: "k < n \<or> burst_frame key cid f g n w k"
    and ch: "CheckAndMark (word_of_nat k) (s_replay (sh_sess sh)) = (okk, win)"
    and t: "t = (if okk then DecodeMarked fr
      else DecodeReturn (Inr \<lparr>Accepted = False, is_Replay = True, Ready = [], Frame = fr\<rparr>))"
      "sh_sess sh' = (sh_sess sh)\<lparr>s_replay := win\<rparr>"
  shows "recv_inv key cid f g n m ts0 sh' (ts[i := t])"
proof -
  have st: "recv_state f g n m N (sh_sess sh) ts" using inv by (simp add: recv_with_def)
  show ?thesis
    using k
  proof
    assume old: "k < n"
    have "recv_state f g n m N (sh_sess sh') (ts[i := t])"
      using recv_state_old [OF st i(1) i(3) old ch t(1)] t(2) by simp
    then show ?thesis
    proof (rule recv_inv_keep [OF inv one i(1)])
      show "marked (ts ! i)" if "ts0 ! i = DecodeCall w2" "burst_frame key cid f g n w2 k2" for w2 k2
        using that i(2) dec old ok u32_nat_eq [of k k2] by (auto simp: burst_frame_def burst_ok_def)
    qed
  next
    assume cur: "burst_frame key cid f g n w k"
    have "recv_state f g n m (insert k N) (sh_sess sh') (ts[i := t])"
      using recv_state_mark [OF st i(1) i(3) ok cur dec ch t(1)] t(2) by simp
    then show ?thesis
    proof (rule recv_inv_update [OF inv one])
      show "k2 \<in> insert k N" if "ts0 ! i = DecodeCall w2" "burst_frame key cid f g n w2 k2" for w2 k2
        using burst_frame_unique [OF _ _ cur, of k2] that i(2) ok by (simp add: burst_ok_def)
      have "length ts = length ts0" using inv by (auto simp: recv_with_def one_key_def dest: list_all2_lengthD)
      then have "DecodeCall w \<in> set ts0" using i(1,2) nth_mem [of i ts0] by simp
      then show "\<exists>w. DecodeCall w \<in> set ts0 \<and> burst_frame key cid f g n w k2" if "k2 \<in> insert k N - N" for k2
        using that cur by blast
    qed auto
  qed
qed

lemma recv_inv_open:
  assumes inv: "recv_with key cid f g n m ts0 N sh ts" and i: "i < length ts" and ok: "burst_ok g n"
    and one: "one_key key cid ts0 sh' (ts[i := t])" and keyed: "ts ! i = DecodeKeyed w key cid"
    "ts0 ! i = DecodeCall w" and st: "call_step now (ts ! i) sh = Some (t, new, sh')"
  shows "recv_inv key cid f g n m ts0 sh' (ts[i := t])"
proof (cases "DecodeDataFrame key cid w")
  case (Inl e)
  have "recv_state f g n m N (sh_sess sh') (ts[i := t])"
    using inv st keyed Inl unfolding recv_with_def by (auto intro!: recv_state_same [OF _ i])
  then show ?thesis
    by (rule recv_inv_keep [OF inv one i]) (use keyed Inl in \<open>simp add: burst_frame_def\<close>)
next
  case (Inr fc)
  have "list_all (burst_call key cid f g n) ts0" "length ts = length ts0"
    using inv by (auto simp: recv_with_def one_key_def dest: list_all2_lengthD)
  then have "burst_call key cid f g n (ts0 ! i)" using i by (simp add: list_all_length)
  then obtain k fr where k: "DecodeDataFrame key cid w = Inr (fr, word_of_nat k)"
    "k < n \<or> burst_frame key cid f g n w k"
    using keyed(2) Inr by (auto simp: burst_call_def burst_frame_def)
  obtain okk win where ch: "CheckAndMark (word_of_nat k) (s_replay (sh_sess sh)) = (okk, win)"
    by (cases "CheckAndMark (word_of_nat k) (s_replay (sh_sess sh))")
  have "t = (if okk then DecodeMarked fr
      else DecodeReturn (Inr \<lparr>Accepted = False, is_Replay = True, Ready = [], Frame = fr\<rparr>))"
    "sh_sess sh' = (sh_sess sh)\<lparr>s_replay := win\<rparr>"
    using st keyed(1) k(1) ch by auto
  from recv_inv_marks [OF inv one i keyed(2,1) ok k ch this] show ?thesis .
qed

lemma recv_inv_move:
  assumes inv: "recv_inv key cid f g n m ts0 sh ts" and i: "i < length ts" and ok: "burst_ok g n"
    and st: "call_step now (ts ! i) sh = Some (t, new, sh')"
  shows "recv_inv key cid f g n m ts0 sh' (ts[i := t] @ new)"
proof -
  obtain N where N: "recv_with key cid f g n m ts0 N sh ts" using inv by (auto simp: recv_inv_def)
  then have one: "one_key key cid ts0 sh ts" and rs: "recv_state f g n m N (sh_sess sh) ts"
    by (simp_all add: recv_with_def)
  have pt: "point_of key cid (ts0 ! i) (ts ! i)"
    using one i by (auto simp: one_key_def list_all2_conv_all_nth)
  have one': "one_key key cid ts0 sh' (ts[i := t])" and new: "new = []"
    using one_key_move [OF one i st] by simp_all
  have same: ?thesis
    if "taken t = taken (ts ! i)" "inserted t = inserted (ts ! i)" "delivered t = delivered (ts ! i)"
      "s_replay (sh_sess sh') = s_replay (sh_sess sh)" "s_reorder (sh_sess sh') = s_reorder (sh_sess sh)"
      "marked t \<Longrightarrow> marked (ts ! i)"
    unfolding new append_Nil2 using recv_state_same [OF rs i that(1-5)] that(6)
    by (rule recv_inv_keep [OF N one' i])
  show ?thesis
  proof (cases "ts ! i")
    case (DecodeKeyed w k c)
    then have "ts0 ! i = DecodeCall w" "k = key" "c = cid" using pt by (cases "ts0 ! i"; simp)+
    then show ?thesis
      unfolding new append_Nil2 using DecodeKeyed by (intro recv_inv_open [OF N i ok one' _ _ st]) simp_all
  next
    case (DecodeStamped fr)
    obtain ready r where ins: "Insert (df_Sequence fr) (df_Payload fr) (s_reorder (sh_sess sh)) = (ready, r)"
      by (cases "Insert (df_Sequence fr) (df_Payload fr) (s_reorder (sh_sess sh))")
    have t: "t = DecodeReturn (Inr \<lparr>Accepted = True, is_Replay = False, Ready = ready, Frame = fr\<rparr>)"
      "sh_sess sh' = (sh_sess sh)\<lparr>s_reorder := r\<rparr>"
      using st DecodeStamped ins by auto
    have "recv_state f g n m N (sh_sess sh') (ts[i := t])"
      unfolding t(2) by (rule recv_state_insert [OF rs i DecodeStamped ok ins t(1)])
    then show ?thesis
      unfolding new append_Nil2 by (rule recv_inv_keep [OF N one' i]) (simp add: DecodeStamped)
  next
    case (EncodeCall p fl)
    show ?thesis by (rule same) (use st EncodeCall in \<open>auto split: if_splits\<close>)
  next
    case (EncodeKeyed p fl k c)
    show ?thesis by (rule same) (use st EncodeKeyed in \<open>auto simp: NextSendSequence_eq\<close>)
  next
    case (EncodeSequenced p fl k c q)
    show ?thesis by (rule same) (use st EncodeSequenced in \<open>auto simp: NextSendCounter_eq\<close>)
  next
    case (DecodeCall w)
    show ?thesis by (rule same) (use st DecodeCall in \<open>auto split: if_splits\<close>)
  next
    case (DecodeMarked fr)
    show ?thesis by (rule same) (use st DecodeMarked in \<open>auto split: if_splits\<close>)
  qed (use st pt in \<open>cases "ts0 ! i"; simp\<close>)+
qed

interpretation receivers: thread_machine call_step
  "\<lambda>sh ts. burst_ok g n \<and> recv_inv key cid f g n m ts0 sh ts" for key cid f g n m ts0
  by unfold_locales (blast intro: recv_inv_move)

lemma recv_inv_start:
  assumes "in_step n m s r" "list_all is_call ts" "list_all (burst_call (s_SessionKey r) (s_ConnectionID r) f g n) ts"
  shows "recv_inv (s_SessionKey r) (s_ConnectionID r) f g n m ts (idle r) ts"
proof -
  have none: "taken t = []" "inserted t = []" "delivered t = []" "\<not> marked t" if "t \<in> set ts" for t
    using assms(2) that by (auto simp: list_all_iff elim!: is_call.elims)
  then have "collect taken ts = []" "collect inserted ts = []" "collect delivered ts = []"
    by (simp_all add: collect_nil)
  moreover have "buffer_repr f (s_reorder r) {..<m}"
    using assms(1) buffer_repr_complete by (auto simp: in_step_def)
  moreover have "segment f m m (delivered t)" if "t \<in> set ts" for t
    using none(3) [OF that] by (simp add: segment_nil)
  ultimately have "recv_state f g n m {} r ts"
    using assms(1) by (simp add: recv_state_def inserted_numbers_def in_step_def)
  then show ?thesis
    unfolding recv_inv_def recv_with_def
    using point_of_start [OF assms(2)] assms(3) none(4)
    by (intro conjI exI [of _ "{}"]) (simp_all add: one_key_def)
qed

text \<open>When every call has returned and every frame of the burst was among the calls.\<close>

lemma recv_finished:
  assumes inv: "recv_inv key cid f g n m ts0 sh ts" and ok: "burst_ok g n" and ret: "list_all returned ts"
    and all: "\<forall>c \<in> {n..<n + k}. \<exists>w. DecodeCall w \<in> set ts0 \<and> burst_frame key cid f g n w c"
    and only: "\<forall>w c. DecodeCall w \<in> set ts0 \<longrightarrow> burst_frame key cid f g n w c \<longrightarrow> c < n + k"
    and g: "g ` {n..<n + k} = {m..<m + k}"
  shows "mset (collect delivered ts) = mset (map f [m..<m + k])"
    "\<forall>t \<in> set ts. segment f m (m + k) (delivered t)"
    "window_repr (s_replay (sh_sess sh)) (word_of_nat ` {..<n + k})"
    "buffer_repr f (s_reorder (sh_sess sh)) {..<m + k}"
proof -
  obtain N where st: "recv_state f g n m N (sh_sess sh) ts"
    and marks: "\<And>i w k. i < length ts \<Longrightarrow> ts0 ! i = DecodeCall w \<Longrightarrow> marked (ts ! i) \<Longrightarrow>
       burst_frame key cid f g n w k \<Longrightarrow> k \<in> N"
    and src: "\<And>k. k \<in> N \<Longrightarrow> \<exists>w. DecodeCall w \<in> set ts0 \<and> burst_frame key cid f g n w k"
    and one: "one_key key cid ts0 sh ts"
    using inv unfolding recv_inv_def recv_with_def by blast
  then have pts: "list_all2 (point_of key cid) ts0 ts" by (simp add: one_key_def)
  have "N = {n..<n + k}"
  proof (intro equalityI subsetI)
    fix c assume c: "c \<in> N"
    then obtain w where "DecodeCall w \<in> set ts0" "burst_frame key cid f g n w c" using src by blast
    then show "c \<in> {n..<n + k}" using only by (simp add: burst_frame_def)
  next
    fix c assume c: "c \<in> {n..<n + k}"
    then obtain w where w: "DecodeCall w \<in> set ts0" "burst_frame key cid f g n w c" using all by blast
    then obtain i where i: "i < length ts" "ts0 ! i = DecodeCall w"
      using pts by (auto simp: in_set_conv_nth list_all2_conv_all_nth)
    then have "decode_point key cid w (ts ! i)" "returned (ts ! i)"
      using pts ret by (force simp: list_all2_conv_all_nth list_all_length)+
    then have "marked (ts ! i)" by (cases "ts ! i") simp_all
    then show "c \<in> N" using marks i w(2) by blast
  qed
  moreover have "collect taken ts = collect inserted ts"
  proof -
    have "taken t = inserted t" if "t \<in> set ts" for t
      using ret that by (cases t rule: taken.cases) (auto simp: list_all_iff)
    then show ?thesis by (simp add: collect_def cong: map_cong)
  qed
  ultimately have "set_mset (mset (map seqno (collect inserted ts))) = set_mset (mset_set {m..<m + k})"
    using st g by (simp add: recv_state_def)
  then have num: "inserted_numbers ts = {m..<m + k}" by (simp add: inserted_numbers_def)
  have un: "{..<m} \<union> {m..<m + k} = {..<m + k}" "{..<n} \<union> {n..<n + k} = {..<n + k}" by auto
  show "mset (collect delivered ts) = mset (map f [m..<m + k])"
    "\<forall>t \<in> set ts. segment f m (m + k) (delivered t)"
    "window_repr (s_replay (sh_sess sh)) (word_of_nat ` {..<n + k})"
    "buffer_repr f (s_reorder (sh_sess sh)) {..<m + k}"
    using st unfolding recv_state_def num \<open>N = {n..<n + k}\<close> un mex_lessThan by simp_all
qed

section \<open>What concurrent senders have sealed\<close>

fun payload_of :: "call \<Rightarrow> bytes list" where
  "payload_of (EncodeCall p fl) = [p]"
| "payload_of _ = []"

fun sealed :: "call \<Rightarrow> (u32 \<times> DataFrame) list" where
  "sealed (EncodeReturn key ctr f) = [(ctr, f)]"
| "sealed _ = []"

fun wire_of :: "call \<Rightarrow> bytes list" where
  "wire_of (EncodeReturn key ctr f) = (case encode_result key ctr f of Inl e \<Rightarrow> [] | Inr w \<Rightarrow> [w])"
| "wire_of _ = []"

lemma collect_sealed:
  "list_all returned ts \<Longrightarrow> collect counter_of ts = map fst (collect sealed ts) \<and>
    collect sequence_of ts = map (df_Sequence \<circ> snd) (collect sealed ts)"
proof (induction ts)
  case (Cons t ts)
  then show ?case by (cases t) simp_all
qed simp

lemma collect_payloads:
  "list_all2 (point_of key cid) ts0 ts \<Longrightarrow> list_all returned ts \<Longrightarrow>
   map (df_Payload \<circ> snd) (collect sealed ts) = collect payload_of ts0 \<and>
   (\<forall>(ctr, f) \<in> set (collect sealed ts). df_ConnectionID f = cid) \<and>
   collect wire_of ts = concat (map (\<lambda>(ctr, f). case encode_result key ctr f of Inl e \<Rightarrow> [] | Inr w \<Rightarrow> [w])
     (collect sealed ts))"
proof (induction rule: list_all2_induct)
  case (Cons t0 ts0 t ts)
  then show ?case
    by (cases t0; cases t) (auto dest: arg_cong [of _ _ df_Payload] arg_cong [of _ _ df_ConnectionID])
qed simp

lemma unat_interval:
  assumes "mset xs = mset (map (\<lambda>i. word_of_nat n + word_of_nat i :: u32) [0..<k])" "n + k \<le> 2 ^ 32"
  shows "mset (map unat xs) = mset [n..<n + k]"
proof -
  have "mset (map unat xs) = mset (map unat (map (\<lambda>i. word_of_nat n + word_of_nat i :: u32) [0..<k]))"
    using assms(1) by (metis mset_map)
  also have "map unat (map (\<lambda>i. word_of_nat n + word_of_nat i :: u32) [0..<k]) = map ((+) n) [0..<k]"
    using assms(2) by (simp flip: of_nat_add)
  also have "map ((+) n) [0..<k] = [n..<n + k]"
    by (rule nth_equalityI) simp_all
  finally show ?thesis .
qed

lemma send_finished:
  assumes inv: "send_inv s ts0 sh ts" and ret: "list_all returned ts" and st: "in_step n m s r"
    and k: "k = length (collect payload_of ts0)" and bound: "m + k \<le> 2 ^ 32"
  shows "mset (map (unat \<circ> fst) (collect sealed ts)) = mset [n..<n + k]"
    "mset (map (seqno \<circ> snd) (collect sealed ts)) = mset [m..<m + k]"
    "s_sendCounter (sh_sess sh) = word_of_nat (n + k)" "s_sendSequence (sh_sess sh) = word_of_nat (m + k)"
proof -
  have "list_all2 (point_of (s_SessionKey s) (s_ConnectionID s)) ts0 ts"
    using inv by (simp add: send_inv_def one_key_def)
  then have len: "length (collect sealed ts) = k"
    using collect_payloads [OF _ ret] k by (metis length_map)
  note cs = collect_sealed [OF ret]
  have h: "handed_out (word_of_nat n) (map fst (collect sealed ts)) (s_sendCounter (sh_sess sh))"
    "handed_out (word_of_nat m) (map (df_Sequence \<circ> snd) (collect sealed ts)) (s_sendSequence (sh_sess sh))"
    using inv st cs by (simp_all add: send_inv_def in_step_def)
  have nm: "n \<le> m" using st by (simp add: in_step_def)
  show "mset (map (unat \<circ> fst) (collect sealed ts)) = mset [n..<n + k]"
    using unat_interval [of "map fst (collect sealed ts)" n k] h(1) bound nm len
    by (simp add: handed_out_def comp_def)
  have "map (seqno \<circ> snd) (collect sealed ts) = map unat (map (df_Sequence \<circ> snd) (collect sealed ts))"
    by (simp add: seqno_def comp_def)
  then show "mset (map (seqno \<circ> snd) (collect sealed ts)) = mset [m..<m + k]"
    using unat_interval [of "map (df_Sequence \<circ> snd) (collect sealed ts)" m k] h(2) bound len
    by (simp only: handed_out_def length_map)
  show "s_sendCounter (sh_sess sh) = word_of_nat (n + k)" "s_sendSequence (sh_sess sh) = word_of_nat (m + k)"
    using h len by (simp_all add: handed_out_def)
qed

text \<open>Sequence numbers by counter and payloads by sequence number, from a list of sealed frames.\<close>

definition number_of :: "nat \<Rightarrow> nat \<Rightarrow> (u32 \<times> DataFrame) list \<Rightarrow> nat \<Rightarrow> nat" where
  "number_of n m P c =
     (case map_of (map (\<lambda>(ctr, f). (unat ctr, seqno f)) P) c of Some q \<Rightarrow> q | None \<Rightarrow> m + (c - n))"

definition stream_of :: "(u32 \<times> DataFrame) list \<Rightarrow> nat \<Rightarrow> bytes" where
  "stream_of P q = the (map_of (map (\<lambda>(ctr, f). (seqno f, df_Payload f)) P) q)"

lemma number_of_sealed:
  assumes "distinct (map (unat \<circ> fst) P)" "(ctr, f) \<in> set P"
  shows "number_of n m P (unat ctr) = seqno f"
proof -
  have "map_of (map (\<lambda>(ctr, f). (unat ctr, seqno f)) P) (unat ctr) = Some (seqno f)"
    using assms by (intro map_of_is_SomeI) (auto simp: comp_def case_prod_beta intro!: rev_image_eqI)
  then show ?thesis by (simp add: number_of_def)
qed

lemma stream_of_sealed:
  assumes "distinct (map (seqno \<circ> snd) P)" "(ctr, f) \<in> set P"
  shows "stream_of P (seqno f) = df_Payload f"
proof -
  have "map_of (map (\<lambda>(ctr, f). (seqno f, df_Payload f)) P) (seqno f) = Some (df_Payload f)"
    using assms by (intro map_of_is_SomeI) (auto simp: comp_def case_prod_beta intro!: rev_image_eqI)
  then show ?thesis by (simp add: stream_of_def)
qed

lemma number_of_fresh:
  "c \<notin> unat ` fst ` set P \<Longrightarrow> number_of n m P c = m + (c - n)"
  by (auto simp: number_of_def map_of_eq_None_iff image_image case_prod_beta split: option.split
      dest!: map_of_SomeD)

text \<open>The numbering of the frames sealed, continued to 64 counters.\<close>

lemma number_of_ok:
  assumes cs: "mset (map (unat \<circ> fst) P) = mset [n..<n + k]"
    and qs: "mset (map (seqno \<circ> snd) P) = mset [m..<m + k]"
    and k: "k \<le> 64" and nm: "n \<le> m" "m + 64 \<le> seq_bound"
  shows "burst_ok (number_of n m P) n" "number_of n m P ` {n..<n + k} = {m..<m + k}"
proof -
  let ?g = "number_of n m P"
  have d: "distinct (map (unat \<circ> fst) P)" "distinct (map (seqno \<circ> snd) P)"
    using cs qs mset_eq_imp_distinct_iff distinct_upt by metis+
  have sets: "unat ` fst ` set P = {n..<n + k}" "seqno ` snd ` set P = {m..<m + k}"
    using arg_cong [OF cs, of set_mset] arg_cong [OF qs, of set_mset] by (simp_all add: image_image)
  have "?g ` {n..<n + k} = (\<lambda>(ctr, f). ?g (unat ctr)) ` set P"
    unfolding sets(1) [symmetric] by (simp add: image_image case_prod_beta)
  also have "\<dots> = (\<lambda>(ctr, f). seqno f) ` set P"
    using number_of_sealed [OF d(1)] by (intro image_cong) auto
  also have "\<dots> = {m..<m + k}"
    unfolding sets(2) [symmetric] by (simp add: image_image case_prod_beta)
  finally show img: "?g ` {n..<n + k} = {m..<m + k}" .
  have card: "inj_on ?g {n..<n + k}" using img by (intro eq_card_imp_inj_on) simp_all
  have rest: "?g c = m + (c - n)" if "n + k \<le> c" for c
    using that sets(1) by (intro number_of_fresh) auto
  have small: "?g c < m + k" if "n \<le> c" "c < n + k" for c
    using img that by (metis (no_types, lifting) atLeastLessThan_iff imageI)
  have "inj_on ?g {n..<n + 64}"
  proof (rule inj_onI)
    fix a b assume ab: "a \<in> {n..<n + 64}" "b \<in> {n..<n + 64}" "?g a = ?g b"
    show "a = b"
    proof (cases "a < n + k"; cases "b < n + k")
      assume "a < n + k" "b < n + k"
      then show ?thesis using card ab by (auto simp: inj_on_def)
    next
      assume "a < n + k" "\<not> b < n + k"
      then show ?thesis using small [of a] rest [of b] ab by auto
    next
      assume "\<not> a < n + k" "b < n + k"
      then show ?thesis using small [of b] rest [of a] ab by auto
    next
      assume "\<not> a < n + k" "\<not> b < n + k"
      then show ?thesis using rest [of a] rest [of b] ab by auto
    qed
  qed
  moreover have "?g c < seq_bound" if "c \<in> {n..<n + 64}" for c
    using small [of c] rest [of c] that k nm by (cases "c < n + k") auto
  ultimately show "burst_ok ?g n" using nm by (auto simp: burst_ok_def seq_bound_def)
qed

lemma mset_stream_of:
  assumes "mset (map (seqno \<circ> snd) P) = mset [m..<m + k]"
  shows "mset (map (stream_of P) [m..<m + k]) = mset (map (df_Payload \<circ> snd) P)"
proof -
  have d: "distinct (map (seqno \<circ> snd) P)"
    using assms mset_eq_imp_distinct_iff distinct_upt by metis
  have "mset (map (stream_of P) [m..<m + k]) = mset (map (stream_of P) (map (seqno \<circ> snd) P))"
    using assms by (metis mset_map)
  also have "map (stream_of P) (map (seqno \<circ> snd) P) = map (df_Payload \<circ> snd) P"
    using stream_of_sealed [OF d] by auto
  finally show ?thesis .
qed

section \<open>Properties\<close>

text \<open>What reaches the receiver besides the burst: frames from before it, and bytes that do not open.\<close>

definition stale :: "nat \<Rightarrow> Session \<Rightarrow> bytes \<Rightarrow> bool" where
  "stale n r w \<longleftrightarrow> (case DecodeDataFrame (s_SessionKey r) (s_ConnectionID r) w of
     Inl e \<Rightarrow> True | Inr (f, c) \<Rightarrow> unat c < n)"

lemma sealed_wires:
  assumes "list_all2 (point_of key cid) ts0 ts" "list_all returned ts" "aes_key_ok key"
    "\<forall>p \<in> set (collect payload_of ts0). length p < 65536"
  shows "set (collect wire_of ts) =
      (\<lambda>(ctr, f). projr (EncodeDataFrame key ctr f)) ` set (collect sealed ts)"
    "\<And>ctr f. (ctr, f) \<in> set (collect sealed ts) \<Longrightarrow>
      DecodeDataFrame key cid (projr (EncodeDataFrame key ctr f)) = Inr (f, ctr)"
proof -
  note cp = collect_payloads [OF assms(1,2)]
  show "set (collect wire_of ts) =
      (\<lambda>(ctr, f). projr (EncodeDataFrame key ctr f)) ` set (collect sealed ts)"
    using cp by (auto simp: encode_result_def EncodeDataFrame_ok [OF assms(3)])
  fix ctr f
  assume m: "(ctr, f) \<in> set (collect sealed ts)"
  then have "df_Payload f \<in> set (map (df_Payload \<circ> snd) (collect sealed ts))" by force
  then have "payload_fits f" using cp assms(4) by auto
  moreover have "df_ConnectionID f = cid" using cp m by auto
  ultimately show "DecodeDataFrame key cid (projr (EncodeDataFrame key ctr f)) = Inr (f, ctr)"
    using DecodeDataFrame_encoded [of key ctr f] EncodeDataFrame_ok [OF assms(3), of ctr f] by force
qed

text \<open>Which calls of the receiver belong to the burst.\<close>

lemma arrivals:
  assumes frame: "\<And>w. w \<in> W \<Longrightarrow> \<exists>c \<in> C. burst_frame key cid f g n w c"
    and every: "\<And>c. c \<in> C \<Longrightarrow> \<exists>w \<in> W. burst_frame key cid f g n w c"
    and key: "key = s_SessionKey r" "cid = s_ConnectionID r" and ok: "burst_ok g n"
    and arrive: "\<forall>w \<in> W. DecodeCall w \<in> set us0" "\<forall>w. DecodeCall w \<in> set us0 \<longrightarrow> w \<in> W \<or> stale n r w"
  shows "list_all (burst_call key cid f g n) us0"
    "\<forall>c \<in> C. \<exists>w. DecodeCall w \<in> set us0 \<and> burst_frame key cid f g n w c"
    "\<forall>w c. DecodeCall w \<in> set us0 \<longrightarrow> burst_frame key cid f g n w c \<longrightarrow> c \<in> C"
proof -
  have "(\<exists>e. DecodeDataFrame key cid w = Inl e) \<or>
      (\<exists>fr k. k < n \<and> DecodeDataFrame key cid w = Inr (fr, word_of_nat k)) \<or>
      (\<exists>k. burst_frame key cid f g n w k)" if "DecodeCall w \<in> set us0" for w
  proof (cases "w \<in> W")
    case True
    then show ?thesis using frame by blast
  next
    case False
    then have st: "stale n r w" using arrive(2) that by blast
    show ?thesis
    proof (cases "DecodeDataFrame key cid w")
      case (Inr fc)
      obtain fr c where fc: "fc = (fr, c)" by (cases fc)
      then have "unat c < n" using st Inr key by (simp add: stale_def)
      then have "\<exists>fr k. k < n \<and> DecodeDataFrame key cid w = Inr (fr, word_of_nat k)"
        using Inr fc by (intro exI [of _ fr] exI [of _ "unat c"]) simp
      then show ?thesis by blast
    qed simp
  qed
  then show "list_all (burst_call key cid f g n) us0" by (auto simp: list_all_iff burst_call_def)
  show "\<forall>c \<in> C. \<exists>w. DecodeCall w \<in> set us0 \<and> burst_frame key cid f g n w c"
    using every arrive(1) by blast
  show "\<forall>w c. DecodeCall w \<in> set us0 \<longrightarrow> burst_frame key cid f g n w c \<longrightarrow> c \<in> C"
  proof (intro allI impI)
    fix w c
    assume w: "DecodeCall w \<in> set us0" "burst_frame key cid f g n w c"
    then have "\<not> stale n r w"
      using ok unat_seq [of c] key by (auto simp: burst_frame_def burst_ok_def stale_def)
    then have "w \<in> W" using w(1) arrive(2) by blast
    then show "c \<in> C" using frame burst_frame_unique [OF _ w(2)] ok by (auto simp: burst_ok_def)
  qed
qed

text \<open>The frames of a finished sender are the burst.\<close>

lemma sent_burst:
  assumes pts: "list_all2 (point_of key cid) ts0 ts" and ret: "list_all returned ts" and key: "aes_key_ok key"
    and fits: "\<forall>p \<in> set (collect payload_of ts0). length p < 65536" and k: "k \<le> 64"
    and cs: "mset (map (unat \<circ> fst) (collect sealed ts)) = mset [n..<n + k]"
    and qs: "mset (map (seqno \<circ> snd) (collect sealed ts)) = mset [m..<m + k]"
  defines "P \<equiv> collect sealed ts"
  shows "\<And>w. w \<in> set (collect wire_of ts) \<Longrightarrow>
      \<exists>c \<in> {n..<n + k}. burst_frame key cid (stream_of P) (number_of n m P) n w c"
    "\<And>c. c \<in> {n..<n + k} \<Longrightarrow>
      \<exists>w \<in> set (collect wire_of ts). burst_frame key cid (stream_of P) (number_of n m P) n w c"
proof -
  have d: "distinct (map (unat \<circ> fst) P)" "distinct (map (seqno \<circ> snd) P)"
    using cs qs mset_eq_imp_distinct_iff distinct_upt unfolding P_def by metis+
  have cset: "unat ` fst ` set P = {n..<n + k}"
    using arg_cong [OF cs, of set_mset] by (simp add: image_image P_def)
  note wires = sealed_wires [OF pts ret key fits, folded P_def]
  have frame: "burst_frame key cid (stream_of P) (number_of n m P) n (projr (EncodeDataFrame key ctr fr)) (unat ctr)"
    if "(ctr, fr) \<in> set P" for ctr fr
  proof -
    have "unat ctr \<in> {n..<n + k}" unfolding cset [symmetric] using that by force
    then show ?thesis
      using wires(2) [OF that] number_of_sealed [OF d(1) that] stream_of_sealed [OF d(2) that] k
      by (simp add: burst_frame_def)
  qed
  show "\<exists>c \<in> {n..<n + k}. burst_frame key cid (stream_of P) (number_of n m P) n w c"
    if "w \<in> set (collect wire_of ts)" for w
    using that frame cset unfolding wires(1) by force
  show "\<exists>w \<in> set (collect wire_of ts). burst_frame key cid (stream_of P) (number_of n m P) n w c"
    if "c \<in> {n..<n + k}" for c
    using that frame unfolding wires(1) cset [symmetric] by force
qed

text \<open>C5: A burst of up to 64 payloads sent by concurrent calls and received by concurrent calls, in
  whatever interleaving on both sides, with frames repeated and with old frames and garbage among
  them: every payload is delivered exactly once, each call delivers a piece of the stream in its
  order, and afterwards both sides are in step, so that the next burst finds them as this one did.\<close>

theorem concurrent_burst_delivered:
  assumes st: "in_step n m s r" and small: "m + 64 \<le> seq_bound"
    and fits: "length (collect payload_of ts0) \<le> 64" "\<forall>p \<in> set (collect payload_of ts0). length p < 65536"
    and sent: "(interleave call_step)\<^sup>*\<^sup>* (idle s, ts0) (sh, ts)" "list_all is_call ts0" "list_all returned ts"
    and recv: "(interleave call_step)\<^sup>*\<^sup>* (idle r, us0) (sh', us)" "list_all is_call us0" "list_all returned us"
    and arrive: "\<forall>w \<in> set (collect wire_of ts). DecodeCall w \<in> set us0"
      "\<forall>w. DecodeCall w \<in> set us0 \<longrightarrow> w \<in> set (collect wire_of ts) \<or> stale n r w"
  shows "\<exists>stream. mset stream = mset (collect payload_of ts0) \<and>
    mset (collect delivered us) = mset stream \<and> (\<forall>u \<in> set us. sublist (delivered u) stream) \<and>
    in_step (n + length stream) (m + length stream) (sh_sess sh) (sh_sess sh')"
proof -
  let ?key = "s_SessionKey r" and ?cid = "s_ConnectionID r"
  let ?P = "collect sealed ts" and ?ps = "collect payload_of ts0"
  let ?k = "length ?ps"
  let ?g = "number_of n m ?P" and ?f = "stream_of ?P"
  have s: "s_SessionKey s = ?key" "s_ConnectionID s = ?cid" "aes_key_ok ?key" "n \<le> m"
    using st by (simp_all add: in_step_def)
  have sinv: "send_inv s ts0 sh ts"
    using senders.inv_reachable [OF sent(1)] send_inv_start [OF sent(2)] by blast
  then have pts: "list_all2 (point_of ?key ?cid) ts0 ts" using s by (simp add: send_inv_def one_key_def)
  have "m + ?k \<le> 2 ^ 32" using small fits(1) by (simp add: seq_bound_def)
  note fin = send_finished [OF sinv sent(3) st refl this]
  note num = number_of_ok [OF fin(1,2) fits(1) s(4) small]
  note burst = sent_burst [OF pts sent(3) s(3) fits(2,1) fin(1,2)]
  note arr = arrivals [OF burst refl refl num(1) arrive]
  have "burst_ok ?g n \<and> recv_inv ?key ?cid ?f ?g n m us0 sh' us"
    using recv_inv_start [OF st recv(2) arr(1)] num(1) by (intro receivers.inv_reachable [OF recv(1)]) blast
  then have rinv: "recv_inv ?key ?cid ?f ?g n m us0 sh' us" by blast
  have "\<forall>w c. DecodeCall w \<in> set us0 \<longrightarrow> burst_frame ?key ?cid ?f ?g n w c \<longrightarrow> c < n + ?k"
    using arr(3) by auto
  note fin_recv = recv_finished [OF rinv num(1) recv(3) arr(2) this num(2)]
  let ?stream = "map ?f [m..<m + ?k]"
  have "mset ?stream = mset ?ps"
    using mset_stream_of [OF fin(2)] collect_payloads [OF pts sent(3)] by simp
  moreover have "mset (collect delivered us) = mset ?stream" using fin_recv(1) by simp
  moreover have "\<forall>u \<in> set us. sublist (delivered u) ?stream" using fin_recv(2) segment_sublist by blast
  moreover have "in_step (n + ?k) (m + ?k) (sh_sess sh) (sh_sess sh')"
    using sinv rinv s fin(3,4) fin_recv(3,4) buffer_repr_complete small fits(1)
    by (auto simp: in_step_def send_inv_def recv_inv_def recv_with_def one_key_def)
  ultimately show ?thesis by (intro exI [of _ ?stream]) simp
qed

theorem concurrent_burst_delivered_witness:
  "\<exists>sh ts sh' us. (interleave call_step)\<^sup>*\<^sup>* (idle (connected 0 7 1 (replicate 32 5)),
       [EncodeCall [1] 0, EncodeCall [2] 0]) (sh, ts) \<and>
     collect counter_of ts = [1, 0] \<and> collect sequence_of ts = [0, 1] \<and>
     (interleave call_step)\<^sup>*\<^sup>* (idle (connected 0 7 1 (replicate 32 5)),
       map DecodeCall (collect wire_of ts @ collect wire_of ts)) (sh', us) \<and>
     mset (collect delivered us) = {#[1], [2]#} \<and> in_step 2 2 (sh_sess sh) (sh_sess sh')"
proof -
  let ?s = "connected 0 7 1 (replicate 32 5)" and ?ts0 = "[EncodeCall [1] 0, EncodeCall [2] 0]"
  let ?c = "schedule call_step [(0, 0), (1, 0), (0, 0), (1, 0), (1, 0), (0, 0)] (idle ?s, ?ts0)"
  obtain sh ts where c: "?c = (sh, ts)" by (cases ?c)
  then have sent: "(interleave call_step)\<^sup>*\<^sup>* (idle ?s, ?ts0) (sh, ts)"
    using schedule_run by metis
  have ts: "collect counter_of ts = [1, 0]" "collect sequence_of ts = [0, 1]" "list_all returned ts"
    using c by (auto simp: move_thread_def NextSendSequence_eq NextSendCounter_eq)
  let ?us0 = "map DecodeCall (collect wire_of ts @ collect wire_of ts)"
  have calls: "list_all is_call ?us0" by (simp add: list_all_iff)
  have "collect holds_lock ?us0 = []" by (rule collect_nil) auto
  then obtain sh' us where recv: "(interleave call_step)\<^sup>*\<^sup>* (idle ?s, ?us0) (sh', us)" "list_all returned us"
    using complete_run [of "idle ?s" ?us0] by (auto simp: lock_inv_def)
  have "in_step 0 0 ?s ?s"
    using connected_recv [of "\<lambda>_. []" 0 7 1 "replicate 32 5"]
    by (simp add: in_step_def recv_repr_def frame_set_def seq_bound_def aes_key_ok_def lessThan_0)
  then have "\<exists>stream. mset stream = mset (collect payload_of ?ts0) \<and>
    mset (collect delivered us) = mset stream \<and> (\<forall>u \<in> set us. sublist (delivered u) stream) \<and>
    in_step (0 + length stream) (0 + length stream) (sh_sess sh) (sh_sess sh')"
    by (rule concurrent_burst_delivered [OF _ _ _ _ sent _ ts(3) recv(1) calls recv(2)])
      (auto simp: seq_bound_def)
  then obtain stream where st: "mset stream = {#[1], [2]#}" "mset (collect delivered us) = mset stream"
    "in_step (length stream) (length stream) (sh_sess sh) (sh_sess sh')"
    by auto
  then have "length stream = 2" by (metis add_mset_add_single size_mset size_add_mset size_empty numeral_2_eq_2)
  then show ?thesis using sent ts(1,2) recv(1) st by auto
qed

end
