(* ===== verification/ServerThreads.thy ===== *)
theory ServerThreads
  imports Server SessionThreads
begin

text \<open>
  \<open>server/server.go\<close>, with its handlers and goroutines cut where they release a mutex or call a
  socket. \<open>handlePush\<close> decodes its frames, then forwards the payloads; \<open>forwardPayload\<close> picks the
  socket under the mutex of the connection and writes outside; \<open>queueOutgoing\<close> seals a frame, then
  appends it to the outbox under the server's mutex; \<open>closeOutbound\<close> takes the socket out, then closes
  it. The goroutines are started as calls of their own, so that the field \<open>sv_gos\<close> is not used. The
  methods of the session are one step each here; \<open>SessionThreads\<close> cuts them further.
\<close>

section \<open>Model\<close>

text \<open>Where \<open>queueOutgoing\<close> returns to: the failed dial, the read loop, the end of the read loop.\<close>

datatype after_queue = ThenFail | ThenPump nat | ThenEnd

datatype handler =
    PushCall request
  | PushDecode u32 nat "bytes list" "bytes list"   \<comment> \<open>frames to decode, \<open>delivered\<close>\<close>
  | PushForward u32 nat "bytes list"
  | PushWrite u32 nat nat bytes "bytes list"       \<comment> \<open>\<open>conn\<close> read, mutex released\<close>
  | PushFailed u32 nat "bytes list"                \<comment> \<open>before \<open>closeOutbound\<close>\<close>
  | PushClose u32 nat nat "bytes list"             \<comment> \<open>socket taken out, before \<open>Close\<close>\<close>
  | PullCall request
  | PullTake u32
  | OpenCall request
  | OpenBound string HandshakePlaintext bytes      \<comment> \<open>after \<open>TryBind\<close>\<close>
  | OpenTouched HandshakePlaintext bytes
  | OpenTable u32 nat bool bytes                   \<comment> \<open>entry found or made, before \<open>CompleteHandshake\<close>\<close>
  | Dialling u32 nat string
  | Dialled u32 nat nat
  | QueueEncode u32 nat bytes after_queue
  | QueueAppend u32 nat bytes after_queue          \<comment> \<open>frame sealed\<close>
  | DialFailed u32 nat
  | Pumping u32 nat nat
  | PumpEnd u32 nat
  | PumpClose nat
  | Replied response
  | Finished

fun queue_return :: "u32 \<Rightarrow> nat \<Rightarrow> after_queue \<Rightarrow> handler" where
  "queue_return c r ThenFail = DialFailed c r"
| "queue_return c r (ThenPump h) = Pumping c r h"
| "queue_return c r ThenEnd = PumpEnd c r"

type_synonym moved = "(handler \<times> handler list \<times> Server) option"

text \<open>The lock region of \<open>closeOutbound\<close>: the socket that was there.\<close>

definition take_outbound :: "nat \<Rightarrow> Server \<Rightarrow> nat option \<times> Server" where
  "take_outbound r s = (cs_outbound (sv_heap s ! r), upd_cs r (\<lambda>cs. cs\<lparr>cs_outbound := None\<rparr>) s)"

definition close_socket :: "nat \<Rightarrow> Server \<Rightarrow> Server" where
  "close_socket h s = s\<lparr>sv_io := sv_io s @ [NetClose h]\<rparr>"

definition push_call :: "request \<Rightarrow> Server \<Rightarrow> moved" where
  "push_call rq s =
     (if rq_method rq \<noteq> ''POST'' then Some (Replied (http_Error [] ''method not allowed'' 405), [], s)
      else case connStateFromRequest rq s of
             None \<Rightarrow> Some (Replied (http_NotFound no_store), [], s)
           | Some (connID, r) \<Rightarrow>
               (case ReadAll_limited (8 * 2 ^ 20) (rq_body rq) (rq_broken rq) of
                  None \<Rightarrow> Some (Replied (http_Error no_store ''read error'' 502), [], s)
                | Some body \<Rightarrow> Some (PushDecode connID r (split_frames body) [], [], s)))"

definition push_decode :: "nanos \<Rightarrow> u32 \<Rightarrow> nat \<Rightarrow> bytes list \<Rightarrow> bytes list \<Rightarrow> Server \<Rightarrow> moved" where
  "push_decode now connID r frames dl s =
     (case frames of
        [] \<Rightarrow> Some (PushForward connID r dl, [], s)
      | wire # rest \<Rightarrow>
          (case DecodeIncoming now wire (cs_sess (sv_heap s ! r)) of (res, sess) \<Rightarrow>
             Some (PushDecode connID r rest (dl @ (case res of
                     Inl e \<Rightarrow> [] | Inr result \<Rightarrow> if Accepted result then Ready result else [])),
                   [], upd_cs r (\<lambda>cs. cs\<lparr>cs_sess := sess\<rparr>) s)))"

text \<open>The lock region of \<open>forwardPayload\<close> for the next payload.\<close>

definition push_forward :: "u32 \<Rightarrow> nat \<Rightarrow> bytes list \<Rightarrow> Server \<Rightarrow> moved" where
  "push_forward connID r payloads s =
     (case payloads of
        [] \<Rightarrow> Some (Replied (http_reply no_store 200 []), [], s)
      | payload # rest \<Rightarrow>
          (case cs_outbound (sv_heap s ! r) of
             None \<Rightarrow>
               if cs_connecting (sv_heap s ! r) then Some (PushForward connID r rest, [], s)
               else
                 let target = string_of (TrimSpace payload)
                 in Some (PushForward connID r rest, [Dialling connID r target],
                      upd_cs r (\<lambda>cs. cs\<lparr>cs_connecting := True, cs_targetAddr := target\<rparr>) s)
           | Some conn \<Rightarrow> Some (PushWrite connID r conn payload rest, [], s)))"

definition push_write :: "server_env \<Rightarrow> u32 \<Rightarrow> nat \<Rightarrow> nat \<Rightarrow> bytes \<Rightarrow> bytes list \<Rightarrow> Server \<Rightarrow> moved" where
  "push_write env connID r h payload rest s =
     (let ok = env_write_ok env (sv_io s) h payload
      in Some (if ok then PushForward connID r rest else PushFailed connID r rest, [],
           s\<lparr>sv_io := sv_io s @ [NetWrite h payload ok]\<rparr>))"

definition open_call :: "server_env \<Rightarrow> nanos \<Rightarrow> request \<Rightarrow> Server \<Rightarrow> moved" where
  "open_call env now rq s =
     (if rq_method rq \<noteq> ''POST'' then Some (Replied (http_Error [] ''method not allowed'' 405), [], s)
      else
        let notFound = Some (Replied (http_NotFound no_store), [], s);
            token = rq_header rq HeaderProvisionToken
        in if token = [] then notFound
           else case ReadAll_limited HandshakeWireSize (rq_body rq) (rq_broken rq) of
                  None \<Rightarrow> notFound
                | Some body \<Rightarrow>
                    if length body \<noteq> HandshakeWireSize then notFound
                    else case DecodeHandshake (env_dh env) body (sv_StaticPriv s) HKDFInfo of
                           Inl e \<Rightarrow> notFound
                         | Inr (plaintext, sessionKey, _) \<Rightarrow>
                             (case TryBind now token (hp_DeviceID plaintext) (sv_Tokens s) of
                                (res, tokens) \<Rightarrow>
                                  Some (if res = BindAccepted then OpenBound token plaintext sessionKey
                                        else Replied (http_NotFound no_store), [],
                                        s\<lparr>sv_Tokens := tokens\<rparr>)))"

fun open_step :: "nanos \<Rightarrow> handler \<Rightarrow> Server \<Rightarrow> moved" where
  "open_step now (OpenBound token pt key) s =
     Some (OpenTouched pt key, [], s\<lparr>sv_Tokens := Touch now token (sv_Tokens s)\<rparr>)"
| "open_step now (OpenTouched pt key) s =
     (case open_conn now pt s of ((connID, r, confirmed), s1) \<Rightarrow>
        Some (OpenTable connID r confirmed key, [], s1))"
| "open_step now (OpenTable connID r confirmed key) s =
     Some (Replied (http_reply no_store 200 (put32 connID @ [if confirmed then FlagKeyConfirmed else 0])), [],
       upd_cs r (\<lambda>cs. cs\<lparr>cs_sess := CompleteHandshake now connID key (cs_sess cs)\<rparr>) s)"
| "open_step now _ s = None"

fun pull_step :: "handler \<Rightarrow> Server \<Rightarrow> moved" where
  "pull_step (PullCall rq) s =
     (if rq_method rq \<noteq> ''GET'' then Some (Replied (http_Error [] ''method not allowed'' 405), [], s)
      else case connStateFromRequest rq s of
             None \<Rightarrow> Some (Replied (http_NotFound no_store), [], s)
           | Some (connID, r) \<Rightarrow> Some (PullTake connID, [], s))"
| "pull_step (PullTake connID) s =
     Some (Replied (http_reply no_store 200 (join_frames (sv_outbox s connID))), [],
       s\<lparr>sv_outbox := (sv_outbox s)(connID := [])\<rparr>)"
| "pull_step _ s = None"

text \<open>The goroutine of \<open>dialAndPumpAsync\<close>; \<open>inp\<close> is what the dial or the read of the socket gives.\<close>

fun dial_step :: "server_env \<Rightarrow> go_input \<Rightarrow> handler \<Rightarrow> Server \<Rightarrow> moved" where
  "dial_step env inp (Dialling c r target) s =
     (case validateTarget target s of
        Inl e \<Rightarrow>
          Some (QueueEncode c r (bytes_of (''ERROR: '' @ target_error_text (env_quote env) e)) ThenFail, [], s)
      | Inr _ \<Rightarrow>
          (case inp of
             DialError text \<Rightarrow>
               Some (QueueEncode c r (bytes_of (''ERROR: dial failed: '' @ text)) ThenFail, [], s)
           | DialOk \<Rightarrow> Some (Dialled c r (sv_dialled s), [], s\<lparr>sv_dialled := sv_dialled s + 1\<rparr>)
           | ReadResult _ _ \<Rightarrow> None))"
| "dial_step env inp (Dialled c r h) s =
     Some (QueueEncode c r (bytes_of ''OK CONNECTED'') (ThenPump h), [],
       upd_cs r (\<lambda>cs. cs\<lparr>cs_outbound := Some h, cs_connecting := False\<rparr>) s)"
| "dial_step env inp (DialFailed c r) s =
     Some (Finished, [], upd_cs r (\<lambda>cs. cs\<lparr>cs_connecting := False\<rparr>) s)"
| "dial_step env inp _ s = None"

fun queue_step :: "handler \<Rightarrow> Server \<Rightarrow> moved" where
  "queue_step (QueueEncode c r payload k) s =
     (case EncodeOutgoing payload 0 (cs_sess (sv_heap s ! r)) of (res, sess) \<Rightarrow>
        Some (case res of Inl e \<Rightarrow> queue_return c r k | Inr wire \<Rightarrow> QueueAppend c r wire k, [],
          upd_cs r (\<lambda>cs. cs\<lparr>cs_sess := sess\<rparr>) s))"
| "queue_step (QueueAppend c r wire k) s =
     Some (queue_return c r k, [], s\<lparr>sv_outbox := (sv_outbox s)(c := sv_outbox s c @ [wire])\<rparr>)"
| "queue_step _ s = None"

text \<open>\<open>closeOutbound\<close>, from a failed write and at the end of the read loop, and the read loop.\<close>

fun close_step :: "handler \<Rightarrow> Server \<Rightarrow> moved" where
  "close_step (PushFailed c r rest) s =
     (case take_outbound r s of
        (None, s1) \<Rightarrow> Some (PushForward c r rest, [], s1)
      | (Some h, s1) \<Rightarrow> Some (PushClose c r h rest, [], s1))"
| "close_step (PushClose c r h rest) s = Some (PushForward c r rest, [], close_socket h s)"
| "close_step (PumpEnd c r) s =
     (case take_outbound r s of
        (None, s1) \<Rightarrow> Some (Finished, [], s1)
      | (Some h, s1) \<Rightarrow> Some (PumpClose h, [], s1))"
| "close_step (PumpClose h) s = Some (Finished, [], close_socket h s)"
| "close_step _ s = None"

fun pump_step :: "go_input \<Rightarrow> handler \<Rightarrow> Server \<Rightarrow> moved" where
  "pump_step (ReadResult chunk err) (Pumping c r h) s =
     Some (if length chunk > 0 then QueueEncode c r chunk (if err then ThenEnd else ThenPump h)
           else if err then PumpEnd c r else Pumping c r h, [], s)"
| "pump_step _ _ s = None"

definition handler_step :: "server_env \<Rightarrow> (nanos \<times> go_input, handler, Server) thread_fun" where
  "handler_step env = (\<lambda>(now, inp) t s.
     case t of
       PushCall rq \<Rightarrow> push_call rq s
     | PushDecode c r frames dl \<Rightarrow> push_decode now c r frames dl s
     | PushForward c r payloads \<Rightarrow> push_forward c r payloads s
     | PushWrite c r h payload rest \<Rightarrow> push_write env c r h payload rest s
     | PushFailed c r rest \<Rightarrow> close_step t s
     | PushClose c r h rest \<Rightarrow> close_step t s
     | PullCall rq \<Rightarrow> pull_step t s
     | PullTake c \<Rightarrow> pull_step t s
     | OpenCall rq \<Rightarrow> open_call env now rq s
     | OpenBound token pt key \<Rightarrow> open_step now t s
     | OpenTouched pt key \<Rightarrow> open_step now t s
     | OpenTable c r confirmed key \<Rightarrow> open_step now t s
     | Dialling c r target \<Rightarrow> dial_step env inp t s
     | Dialled c r h \<Rightarrow> dial_step env inp t s
     | QueueEncode c r payload k \<Rightarrow> queue_step t s
     | QueueAppend c r wire k \<Rightarrow> queue_step t s
     | DialFailed c r \<Rightarrow> dial_step env inp t s
     | Pumping c r h \<Rightarrow> pump_step inp t s
     | PumpEnd c r \<Rightarrow> close_step t s
     | PumpClose h \<Rightarrow> close_step t s
     | Replied resp \<Rightarrow> None
     | Finished \<Rightarrow> None)"

lemma handler_step_simps [simp]:
  "handler_step env (now, inp) (PushCall rq) s = push_call rq s"
  "handler_step env (now, inp) (PushDecode c r fs dl) s = push_decode now c r fs dl s"
  "handler_step env (now, inp) (PushForward c r ps) s = push_forward c r ps s"
  "handler_step env (now, inp) (PushWrite c r h p ps) s = push_write env c r h p ps s"
  "handler_step env (now, inp) (PushFailed c r ps) s = close_step (PushFailed c r ps) s"
  "handler_step env (now, inp) (PushClose c r h ps) s = close_step (PushClose c r h ps) s"
  "handler_step env (now, inp) (PullCall rq) s = pull_step (PullCall rq) s"
  "handler_step env (now, inp) (PullTake c) s = pull_step (PullTake c) s"
  "handler_step env (now, inp) (OpenCall rq) s = open_call env now rq s"
  "handler_step env (now, inp) (OpenBound tk pt key) s = open_step now (OpenBound tk pt key) s"
  "handler_step env (now, inp) (OpenTouched pt key) s = open_step now (OpenTouched pt key) s"
  "handler_step env (now, inp) (OpenTable c r cf key) s = open_step now (OpenTable c r cf key) s"
  "handler_step env (now, inp) (Dialling c r tg) s = dial_step env inp (Dialling c r tg) s"
  "handler_step env (now, inp) (Dialled c r h) s = dial_step env inp (Dialled c r h) s"
  "handler_step env (now, inp) (QueueEncode c r p k) s = queue_step (QueueEncode c r p k) s"
  "handler_step env (now, inp) (QueueAppend c r p k) s = queue_step (QueueAppend c r p k) s"
  "handler_step env (now, inp) (DialFailed c r) s = dial_step env inp (DialFailed c r) s"
  "handler_step env (now, inp) (Pumping c r h) s = pump_step inp (Pumping c r h) s"
  "handler_step env (now, inp) (PumpEnd c r) s = close_step (PumpEnd c r) s"
  "handler_step env (now, inp) (PumpClose h) s = close_step (PumpClose h) s"
  "handler_step env (now, inp) (Replied resp) s = None"
  "handler_step env (now, inp) Finished s = None"
  by (simp_all add: handler_step_def)

lemma handler_step_cases:
  assumes "handler_step env (now, inp) t s = Some m"
  obtains (push) rq where "t = PushCall rq" "push_call rq s = Some m"
  | (decode) c r fs dl where "t = PushDecode c r fs dl" "push_decode now c r fs dl s = Some m"
  | (forward) c r ps where "t = PushForward c r ps" "push_forward c r ps s = Some m"
  | (writing) c r h p ps where "t = PushWrite c r h p ps" "push_write env c r h p ps s = Some m"
  | (handshaking) rq where "t = OpenCall rq" "open_call env now rq s = Some m"
  | (closing) "close_step t s = Some m"
  | (pulling) "pull_step t s = Some m"
  | (reopen) "open_step now t s = Some m"
  | (dial) "dial_step env inp t s = Some m"
  | (queue) "queue_step t s = Some m"
  | (pump) "pump_step inp t s = Some m"
  using assms by (cases t) (simp_all only: handler_step_simps option.distinct)

text \<open>A request as the mux hands it to its handler.\<close>

definition arrival :: "request \<Rightarrow> handler" where
  "arrival rq =
     (if rq_path rq = ''/api/v1/open'' then OpenCall rq
      else if rq_path rq = ''/api/v1/push'' then PushCall rq
      else if rq_path rq = ''/api/v1/pull'' then PullCall rq
      else Replied (handleHealth rq))"

section \<open>Accounting for dials and sockets\<close>

text \<open>The connections a call refers to, the dials it carries out, and the sockets only it knows.\<close>

fun refs_of :: "handler \<Rightarrow> nat list" where
  "refs_of (PushDecode c r fs dl) = [r]"
| "refs_of (PushForward c r ps) = [r]"
| "refs_of (PushWrite c r h p ps) = [r]"
| "refs_of (PushFailed c r ps) = [r]"
| "refs_of (PushClose c r h ps) = [r]"
| "refs_of (OpenTable c r confirmed key) = [r]"
| "refs_of (Dialling c r target) = [r]"
| "refs_of (Dialled c r h) = [r]"
| "refs_of (QueueEncode c r p k) = [r]"
| "refs_of (QueueAppend c r w k) = [r]"
| "refs_of (DialFailed c r) = [r]"
| "refs_of (Pumping c r h) = [r]"
| "refs_of (PumpEnd c r) = [r]"
| "refs_of _ = []"

fun dials :: "handler \<Rightarrow> nat list" where
  "dials (Dialling c r target) = [r]"
| "dials (Dialled c r h) = [r]"
| "dials (QueueEncode c r p ThenFail) = [r]"
| "dials (QueueAppend c r w ThenFail) = [r]"
| "dials (DialFailed c r) = [r]"
| "dials _ = []"

fun in_hand :: "handler \<Rightarrow> nat list" where
  "in_hand (Dialled c r h) = [h]"
| "in_hand (PushClose c r h ps) = [h]"
| "in_hand (PumpClose h) = [h]"
| "in_hand _ = []"

definition outbound_of :: "connState \<Rightarrow> nat list" where
  "outbound_of cs = (case cs_outbound cs of None \<Rightarrow> [] | Some h \<Rightarrow> [h])"

definition is_connecting :: "Server \<Rightarrow> nat \<Rightarrow> bool" where
  "is_connecting s r \<longleftrightarrow> r < length (sv_heap s) \<and> cs_connecting (sv_heap s ! r)"

text \<open>
  Every connection has one dial under way exactly while its flag is set, and no socket then; every
  socket is the outbound socket of one connection, or known to one call that stores or closes it
  next, or closed, and only one of these.
\<close>

definition books_balance :: "Server \<Rightarrow> handler list \<Rightarrow> bool" where
  "books_balance s ts \<longleftrightarrow>
     (\<forall>c r. sv_conns s c = Some r \<longrightarrow> r < length (sv_heap s)) \<and>
     (\<forall>t \<in> set ts. \<forall>r \<in> set (refs_of t). r < length (sv_heap s)) \<and>
     (\<forall>r. count_list (collect dials ts) r = of_bool (is_connecting s r)) \<and>
     (\<forall>r < length (sv_heap s). cs_connecting (sv_heap s ! r) \<longrightarrow> cs_outbound (sv_heap s ! r) = None) \<and>
     mset (collect outbound_of (sv_heap s)) + mset (collect in_hand ts) + mset (closed_of (sv_io s)) =
       mset [0..<sv_dialled s]"

lemma books_distinct:
  assumes "books_balance s ts"
  shows "distinct (collect outbound_of (sv_heap s) @ collect in_hand ts @ closed_of (sv_io s))"
    "set (collect outbound_of (sv_heap s) @ collect in_hand ts @ closed_of (sv_io s)) = {..<sv_dialled s}"
proof -
  have eq: "mset (collect outbound_of (sv_heap s) @ collect in_hand ts @ closed_of (sv_io s)) = mset [0..<sv_dialled s]"
    using assms by (simp add: books_balance_def add.assoc)
  show "distinct (collect outbound_of (sv_heap s) @ collect in_hand ts @ closed_of (sv_io s))"
    using mset_eq_imp_distinct_iff [OF eq] by simp
  show "set (collect outbound_of (sv_heap s) @ collect in_hand ts @ closed_of (sv_io s)) = {..<sv_dialled s}"
    using mset_eq_setD [OF eq] by (simp add: atLeast0LessThan)
qed

text \<open>What one step must do for this.\<close>

definition account :: "handler \<Rightarrow> handler \<Rightarrow> handler list \<Rightarrow> Server \<Rightarrow> Server \<Rightarrow> bool" where
  "account t t' new s s' \<longleftrightarrow>
     length (sv_heap s) \<le> length (sv_heap s') \<and>
     (\<forall>c r. sv_conns s' c = Some r \<longrightarrow> sv_conns s c = Some r \<or> r < length (sv_heap s')) \<and>
     (\<forall>u \<in> set (t' # new). \<forall>r \<in> set (refs_of u). r < length (sv_heap s')) \<and>
     (\<forall>r. count_list (dials t') r + count_list (collect dials new) r + of_bool (is_connecting s r) =
        count_list (dials t) r + of_bool (is_connecting s' r)) \<and>
     (\<forall>r < length (sv_heap s'). cs_connecting (sv_heap s' ! r) \<longrightarrow> cs_outbound (sv_heap s' ! r) = None) \<and>
     mset (collect outbound_of (sv_heap s')) + mset (in_hand t') + mset (collect in_hand new) +
         mset (closed_of (sv_io s')) + mset [0..<sv_dialled s] =
       mset (collect outbound_of (sv_heap s)) + mset (in_hand t) + mset (closed_of (sv_io s)) +
         mset [0..<sv_dialled s']"

lemma count_list_mset: "count_list xs x = count (mset xs) x"
  by (induction xs) auto

lemma mset_books:
  assumes "X + a = H + b" "O1 + H + C = D" "O2 + b + N + C' + D = O1 + a + C + D'"
  shows "O2 + (X + N) + C' = (D' :: 'a multiset)"
proof (rule multiset_eqI)
  fix x
  show "count (O2 + (X + N) + C') x = count D' x"
    using assms [THEN arg_cong [of _ _ "\<lambda>m. count m x"]] by simp
qed

lemma books_move:
  assumes books: "books_balance s ts" and i: "i < length ts" and acc: "account (ts ! i) t new s s'"
  shows "books_balance s' (ts[i := t] @ new)"
proof -
  have le: "length (sv_heap s) \<le> length (sv_heap s')" using acc by (simp add: account_def)
  have refs: "r < length (sv_heap s')" if "u \<in> set (ts[i := t] @ new)" "r \<in> set (refs_of u)" for u r
    using that set_update_subset_insert [of ts i t] books acc le
    by (fastforce simp: books_balance_def account_def)
  have "count_list (collect dials (ts[i := t] @ new)) r = of_bool (is_connecting s' r)" for r
  proof -
    have "count_list (collect dials (ts[i := t])) r + count_list (dials (ts ! i)) r =
        count_list (collect dials ts) r + count_list (dials t) r"
      using arg_cong [OF mset_collect_update [OF i, of dials t], of "\<lambda>m. count m r"]
      by (simp add: count_list_mset)
    moreover have "count_list (collect dials ts) r = of_bool (is_connecting s r)"
      using books by (simp add: books_balance_def)
    moreover have "count_list (dials t) r + count_list (collect dials new) r + of_bool (is_connecting s r) =
        count_list (dials (ts ! i)) r + of_bool (is_connecting s' r)"
      using acc by (simp add: account_def)
    ultimately show ?thesis by simp
  qed
  moreover have "mset (collect outbound_of (sv_heap s')) + mset (collect in_hand (ts[i := t] @ new)) +
      mset (closed_of (sv_io s')) = mset [0..<sv_dialled s']"
  proof -
    have "mset (collect in_hand (ts[i := t])) + mset (in_hand (ts ! i)) = mset (collect in_hand ts) + mset (in_hand t)"
      by (rule mset_collect_update [OF i])
    moreover have "mset (collect outbound_of (sv_heap s)) + mset (collect in_hand ts) + mset (closed_of (sv_io s)) =
        mset [0..<sv_dialled s]"
      using books by (simp add: books_balance_def)
    moreover have "mset (collect outbound_of (sv_heap s')) + mset (in_hand t) + mset (collect in_hand new) +
         mset (closed_of (sv_io s')) + mset [0..<sv_dialled s] =
       mset (collect outbound_of (sv_heap s)) + mset (in_hand (ts ! i)) + mset (closed_of (sv_io s)) +
         mset [0..<sv_dialled s']"
      using acc by (simp add: account_def)
    ultimately show ?thesis unfolding collect_simps mset_append by (rule mset_books)
  qed
  ultimately show ?thesis
    using books acc refs le unfolding books_balance_def account_def by (meson order_less_le_trans)
qed

text \<open>What the books say of one call.\<close>

definition in_order :: "Server \<Rightarrow> handler \<Rightarrow> bool" where
  "in_order s t \<longleftrightarrow> (\<forall>c r. sv_conns s c = Some r \<longrightarrow> r < length (sv_heap s)) \<and>
     (\<forall>r \<in> set (refs_of t). r < length (sv_heap s)) \<and> (\<forall>r \<in> set (dials t). is_connecting s r) \<and>
     (\<forall>r < length (sv_heap s). cs_connecting (sv_heap s ! r) \<longrightarrow> cs_outbound (sv_heap s ! r) = None)"

lemma books_in_order:
  assumes "books_balance s ts" "t \<in> set ts"
  shows "in_order s t"
proof -
  have "is_connecting s r" if "r \<in> set (dials t)" for r
  proof -
    have "r \<in> set (collect dials ts)" using that assms(2) by (auto simp: set_collect)
    then have "count_list (collect dials ts) r \<noteq> 0" by (simp add: count_list_0_iff)
    then show ?thesis using assms(1) by (auto simp: books_balance_def split: if_splits)
  qed
  then show ?thesis using assms by (auto simp: books_balance_def in_order_def)
qed

text \<open>Steps that leave dials and sockets alone.\<close>

definition conn_flags :: "connState \<Rightarrow> nat option \<times> bool" where
  "conn_flags cs = (cs_outbound cs, cs_connecting cs)"

lemma outbound_flags: "collect outbound_of css = collect (\<lambda>f. case fst f of None \<Rightarrow> [] | Some h \<Rightarrow> [h]) (map conn_flags css)"
  by (induction css) (simp_all add: outbound_of_def conn_flags_def)

lemma account_quiet:
  assumes "in_order s t" "map conn_flags (sv_heap s') = map conn_flags (sv_heap s)"
    "sv_conns s' = sv_conns s" "sv_dialled s' = sv_dialled s" "closed_of (sv_io s') = closed_of (sv_io s)"
    "dials t' = dials t" "in_hand t' = in_hand t" "\<forall>r \<in> set (refs_of t'). r < length (sv_heap s)"
  shows "account t t' [] s s'"
proof -
  have len: "length (sv_heap s') = length (sv_heap s)" using assms(2) by (metis length_map)
  have flags: "cs_connecting (sv_heap s' ! r) = cs_connecting (sv_heap s ! r)"
    "cs_outbound (sv_heap s' ! r) = cs_outbound (sv_heap s ! r)" if "r < length (sv_heap s)" for r
    using arg_cong [OF assms(2), of "\<lambda>fs. fs ! r"] that len by (simp_all add: conn_flags_def)
  have "is_connecting s' r = is_connecting s r" for r
    using flags(1) [of r] len by (auto simp: is_connecting_def)
  moreover have "collect outbound_of (sv_heap s') = collect outbound_of (sv_heap s)"
    by (simp add: outbound_flags assms(2))
  ultimately show ?thesis
    using assms(1,3-8) len flags by (auto simp: account_def in_order_def)
qed

lemma flags_upd [simp]:
  "(\<And>cs. conn_flags (f cs) = conn_flags cs) \<Longrightarrow> map conn_flags (sv_heap (upd_cs r f s)) = map conn_flags (sv_heap s)"
  by (simp add: upd_cs_def map_update_same)

lemma account_push_call:
  "in_order s (PushCall rq) \<Longrightarrow> push_call rq s = Some (t, new, s') \<Longrightarrow> account (PushCall rq) t new s s'"
  by (auto simp: push_call_def in_order_def split: if_splits option.splits
      dest!: connStateFromRequest_Some intro!: account_quiet)

lemma account_push_decode:
  "in_order s (PushDecode c r fs dl) \<Longrightarrow> push_decode now c r fs dl s = Some (t, new, s') \<Longrightarrow>
   account (PushDecode c r fs dl) t new s s'"
  by (auto simp: push_decode_def split: list.splits prod.splits intro!: account_quiet)
    (auto simp: in_order_def conn_flags_def)

lemma account_push_write:
  "in_order s (PushWrite c r h p ps) \<Longrightarrow> push_write env c r h p ps s = Some (t, new, s') \<Longrightarrow>
   account (PushWrite c r h p ps) t new s s'"
  by (auto simp: push_write_def Let_def intro!: account_quiet) (auto simp: in_order_def split: if_splits)

lemma account_pull:
  "in_order s t \<Longrightarrow> pull_step t s = Some (t', new, s') \<Longrightarrow> account t t' new s s'"
  by (cases t) (auto split: if_splits option.splits intro!: account_quiet)

lemma account_queue:
  "in_order s t \<Longrightarrow> queue_step t s = Some (t', new, s') \<Longrightarrow> account t t' new s s'"
proof (cases t)
  case (QueueEncode c r p k)
  assume "in_order s t" "queue_step t s = Some (t', new, s')"
  then show ?thesis
    using QueueEncode
    by (cases k) (auto split: prod.splits sum.splits intro!: account_quiet simp: in_order_def conn_flags_def)
next
  case (QueueAppend c r w k)
  assume "in_order s t" "queue_step t s = Some (t', new, s')"
  then show ?thesis using QueueAppend by (cases k) (auto intro!: account_quiet simp: in_order_def)
qed auto

lemma account_pump:
  "in_order s t \<Longrightarrow> pump_step inp t s = Some (t', new, s') \<Longrightarrow> account t t' new s s'"
  by (cases t; cases inp) (auto split: if_splits intro!: account_quiet simp: in_order_def)

lemma account_open_call:
  "in_order s (OpenCall rq) \<Longrightarrow> open_call env now rq s = Some (t, new, s') \<Longrightarrow> account (OpenCall rq) t new s s'"
  by (auto simp: open_call_def Let_def split: if_splits option.splits sum.splits prod.splits
      intro!: account_quiet)

text \<open>Steps that change them.\<close>

lemma outbound_upd:
  assumes "r < length (sv_heap s)"
  shows "mset (collect outbound_of (sv_heap (upd_cs r f s))) + mset (outbound_of (sv_heap s ! r)) =
    mset (collect outbound_of (sv_heap s)) + mset (outbound_of (f (sv_heap s ! r)))"
  using mset_collect_update [OF assms, of outbound_of "f (sv_heap s ! r)"] by (simp add: upd_cs_def)

lemma connecting_upd:
  "is_connecting (upd_cs r f s) q =
     (if q = r \<and> r < length (sv_heap s) then cs_connecting (f (sv_heap s ! r)) else is_connecting s q)"
  by (auto simp: is_connecting_def upd_cs_def nth_list_update)

lemma is_connecting_frame [simp]:
  "is_connecting (s\<lparr>sv_dialled := d\<rparr>) = is_connecting s" "is_connecting (s\<lparr>sv_io := io\<rparr>) = is_connecting s"
  by (rule ext, simp add: is_connecting_def)+

lemma account_push_forward:
  assumes "in_order s (PushForward c r ps)" "push_forward c r ps s = Some (t, new, s')"
  shows "account (PushForward c r ps) t new s s'"
proof -
  have quiet: "account (PushForward c r ps) t [] s s" if "dials t = []" "in_hand t = []" "\<forall>q \<in> set (refs_of t). q = r"
    using that assms(1) by (intro account_quiet) (auto simp: in_order_def)
  show ?thesis
  proof (cases ps)
    case Nil
    then show ?thesis using assms(2) quiet by (auto simp: push_forward_def)
  next
    case (Cons p rest)
    show ?thesis
    proof (cases "cs_outbound (sv_heap s ! r)")
      case (Some h)
      then show ?thesis using assms(2) Cons quiet by (auto simp: push_forward_def)
    next
      case None
      show ?thesis
      proof (cases "cs_connecting (sv_heap s ! r)")
        case True
        then show ?thesis using assms(2) Cons None quiet by (auto simp: push_forward_def)
      next
        case False
        let ?f = "\<lambda>cs. cs\<lparr>cs_connecting := True, cs_targetAddr := string_of (TrimSpace p)\<rparr>"
        have st: "t = PushForward c r rest" "new = [Dialling c r (string_of (TrimSpace p))]" "s' = upd_cs r ?f s"
          using assms(2) Cons None False by (simp_all add: push_forward_def Let_def)
        have r: "r < length (sv_heap s)" using assms(1) by (simp add: in_order_def)
        have "mset (collect outbound_of (sv_heap s')) = mset (collect outbound_of (sv_heap s))"
          using outbound_upd [OF r, of ?f] st(3) by (simp add: outbound_of_def)
        moreover have "of_bool (is_connecting s' q) = (of_bool (is_connecting s q) + of_bool (q = r) :: nat)" for q
          using connecting_upd [of r ?f s q] r False st(3) by (auto simp: is_connecting_def)
        ultimately show ?thesis
          using assms(1) r None st by (auto simp: account_def in_order_def upd_cs_def nth_list_update)
      qed
    qed
  qed
qed

lemma account_open_step:
  assumes "in_order s t" "open_step now t s = Some (t', new, s')"
  shows "account t t' new s s'"
proof (cases t)
  case (OpenBound token pt key)
  then show ?thesis using assms by (auto intro!: account_quiet)
next
  case (OpenTable c r confirmed key)
  then show ?thesis using assms by (auto intro!: account_quiet simp: in_order_def conn_flags_def)
next
  case (OpenTouched pt key)
  show ?thesis
  proof (cases "find_conn pt s")
    case (Some r)
    have "r < length (sv_heap s)"
      using Some assms(1) by (auto simp: find_conn_def in_order_def split: if_splits option.splits)
    then show ?thesis
      using assms OpenTouched Some by (auto simp: open_conn_def intro!: account_quiet)
  next
    case None
    let ?cs = "\<lparr>cs_sess = NewSession now (hp_DeviceID pt), cs_outbound = None, cs_connecting = False, cs_targetAddr = []\<rparr>"
    let ?r = "length (sv_heap s)" and ?c = "sv_nextConnID s"
    have st: "t' = OpenTable ?c ?r False key" "new = []"
      "s' = s\<lparr>sv_nextConnID := ?c + 1, sv_heap := sv_heap s @ [?cs], sv_conns := (sv_conns s)(?c \<mapsto> ?r)\<rparr>"
      using assms(2) OpenTouched None by (auto simp: open_conn_def Let_def)
    have "is_connecting s' q = is_connecting s q" for q
      unfolding is_connecting_def st(3) by (auto simp: nth_append)
    moreover have "collect outbound_of (sv_heap s') = collect outbound_of (sv_heap s)"
      by (simp add: st(3) outbound_of_def)
    ultimately show ?thesis
      using assms(1) OpenTouched st
      by (auto simp: account_def in_order_def nth_append less_Suc_eq split: if_splits)
  qed
qed (use assms in auto)

lemma account_dial:
  assumes ord: "in_order s t" and st: "dial_step env inp t s = Some (t', new, s')"
  shows "account t t' new s s'"
proof (cases t)
  case (Dialling c r target)
  have r: "r < length (sv_heap s)" using ord Dialling by (simp add: in_order_def)
  show ?thesis
  proof (cases "\<exists>u. validateTarget target s = Inr u \<and> inp = DialOk")
    case True
    then have "t' = Dialled c r (sv_dialled s)" "new = []" "s' = s\<lparr>sv_dialled := sv_dialled s + 1\<rparr>"
      using st Dialling by auto
    then show ?thesis using ord r Dialling by (auto simp: account_def in_order_def)
  next
    case False
    then show ?thesis
      using st ord r Dialling by (auto split: sum.splits go_input.splits intro!: account_quiet)
  qed
next
  case (Dialled c r h)
  let ?f = "\<lambda>cs. cs\<lparr>cs_outbound := Some h, cs_connecting := False\<rparr>"
  have st': "t' = QueueEncode c r (bytes_of ''OK CONNECTED'') (ThenPump h)" "new = []" "s' = upd_cs r ?f s"
    using st Dialled by auto
  have r: "r < length (sv_heap s)" and conn: "is_connecting s r"
    using ord Dialled by (simp_all add: in_order_def)
  then have none: "cs_outbound (sv_heap s ! r) = None" using ord by (auto simp: in_order_def is_connecting_def)
  have "mset (collect outbound_of (sv_heap s')) = add_mset h (mset (collect outbound_of (sv_heap s)))"
    using outbound_upd [OF r, of ?f] st'(3) none by (simp add: outbound_of_def)
  moreover have "of_bool (is_connecting s q) = (of_bool (is_connecting s' q) + of_bool (q = r) :: nat)" for q
    using connecting_upd [of r ?f s q] r conn st'(3) by auto
  ultimately show ?thesis
    using ord r Dialled st' by (auto simp: account_def in_order_def upd_cs_def nth_list_update)
next
  case (DialFailed c r)
  let ?f = "\<lambda>cs. cs\<lparr>cs_connecting := False\<rparr>"
  have st': "t' = Finished" "new = []" "s' = upd_cs r ?f s" using st DialFailed by auto
  have r: "r < length (sv_heap s)" and conn: "is_connecting s r"
    using ord DialFailed by (simp_all add: in_order_def)
  have "mset (collect outbound_of (sv_heap s')) = mset (collect outbound_of (sv_heap s))"
    using outbound_upd [OF r, of ?f] st'(3) by (simp add: outbound_of_def)
  moreover have "of_bool (is_connecting s q) = (of_bool (is_connecting s' q) + of_bool (q = r) :: nat)" for q
    using connecting_upd [of r ?f s q] r conn st'(3) by auto
  ultimately show ?thesis
    using ord r DialFailed st' by (auto simp: account_def in_order_def upd_cs_def nth_list_update)
qed (use st in auto)

text \<open>Taking a socket out hands it from the connection to the call.\<close>

lemma account_take:
  assumes ord: "in_order s t" and r: "r \<in> set (refs_of t)"
    and t: "in_hand t = []" "dials t' = dials t" "in_hand t' = (case cs_outbound (sv_heap s ! r) of None \<Rightarrow> [] | Some h \<Rightarrow> [h])"
      "\<forall>q \<in> set (refs_of t'). q = r"
  shows "account t t' [] s (snd (take_outbound r s))"
proof -
  let ?f = "\<lambda>cs. cs\<lparr>cs_outbound := None\<rparr>"
  have len: "r < length (sv_heap s)" using ord r by (simp add: in_order_def)
  have "mset (collect outbound_of (sv_heap (upd_cs r ?f s))) + mset (in_hand t') = mset (collect outbound_of (sv_heap s))"
    using outbound_upd [OF len, of ?f] t(3) by (simp add: outbound_of_def)
  moreover have "is_connecting (upd_cs r ?f s) q = is_connecting s q" for q
    using connecting_upd [of r ?f s q] by (simp add: is_connecting_def)
  ultimately show ?thesis
    using ord len t by (auto simp: take_outbound_def account_def in_order_def upd_cs_def nth_list_update)
qed

lemma account_closed:
  assumes "in_order s t" "in_hand t = [h]" "in_hand t' = []" "dials t' = dials t"
    "\<forall>q \<in> set (refs_of t'). q \<in> set (refs_of t)"
  shows "account t t' [] s (close_socket h s)"
  using assms by (auto simp: close_socket_def account_def in_order_def)

lemma account_close:
  assumes ord: "in_order s t" and st: "close_step t s = Some (t', new, s')"
  shows "account t t' new s s'"
proof (cases t)
  case (PushFailed c r ps)
  have eq: "s' = snd (take_outbound r s)" "new = []"
    "t' = (case cs_outbound (sv_heap s ! r) of None \<Rightarrow> PushForward c r ps | Some h \<Rightarrow> PushClose c r h ps)"
    using st PushFailed by (auto simp: take_outbound_def split: option.splits)
  show ?thesis
    unfolding eq(1,2) by (rule account_take [OF ord]) (auto simp: eq(3) PushFailed split: option.split)
next
  case (PumpEnd c r)
  have eq: "s' = snd (take_outbound r s)" "new = []"
    "t' = (case cs_outbound (sv_heap s ! r) of None \<Rightarrow> Finished | Some h \<Rightarrow> PumpClose h)"
    using st PumpEnd by (auto simp: take_outbound_def split: option.splits)
  show ?thesis
    unfolding eq(1,2) by (rule account_take [OF ord]) (auto simp: eq(3) PumpEnd split: option.split)
next
  case (PushClose c r h ps)
  then show ?thesis using st account_closed [OF ord, of h t'] by auto
next
  case (PumpClose h)
  then show ?thesis using st account_closed [OF ord, of h t'] by auto
qed (use st in auto)

lemma handler_step_account:
  assumes ord: "in_order s t" and step: "handler_step env e t s = Some (t', new, s')"
  shows "account t t' new s s'"
proof -
  obtain now inp where "e = (now, inp)" by (cases e)
  from step [unfolded this] show ?thesis
  proof (cases rule: handler_step_cases)
    case push
    then show ?thesis using account_push_call ord by simp
  next
    case decode
    then show ?thesis using account_push_decode ord by simp
  next
    case forward
    then show ?thesis using account_push_forward ord by simp
  next
    case writing
    then show ?thesis using account_push_write ord by simp
  next
    case handshaking
    then show ?thesis using account_open_call ord by simp
  qed (use ord in \<open>blast intro: account_close account_pull account_open_step account_dial account_queue
      account_pump\<close>)+
qed

interpretation books: thread_machine "handler_step env" books_balance for env
  by unfold_locales (blast intro: books_move handler_step_account books_in_order nth_mem)

section \<open>Properties\<close>

lemma books_start: "books_balance (server_New priv tokens) (map arrival rqs)"
proof -
  have "refs_of (arrival rq) = []" "dials (arrival rq) = []" "in_hand (arrival rq) = []" for rq
    by (simp_all add: arrival_def)
  then have "collect dials (map arrival rqs) = []" "collect in_hand (map arrival rqs) = []"
    "\<forall>t \<in> set (map arrival rqs). refs_of t = []"
    by (auto intro!: collect_nil)
  then show ?thesis by (simp add: books_balance_def server_New_def is_connecting_def)
qed

text \<open>C7: However the handlers of any requests and the goroutines they start interleave, between any two
  lock regions: every connection has exactly one dial under way while its flag is set, and none and no
  flag otherwise; a connection that is dialling has no socket; and every socket that was dialled is in
  exactly one place, as the outbound socket of one connection, in the hands of one goroutine that
  stores or closes it next, or closed. So no socket is leaked, shared or closed twice.\<close>

theorem concurrent_handlers_invariant:
  assumes "(interleave (handler_step env))\<^sup>*\<^sup>* (server_New priv tokens, map arrival rqs) (s, ts)"
  shows "(\<forall>r. count_list (collect dials ts) r = of_bool (is_connecting s r)) \<and>
    (\<forall>r < length (sv_heap s). cs_connecting (sv_heap s ! r) \<longrightarrow> cs_outbound (sv_heap s ! r) = None) \<and>
    distinct (collect outbound_of (sv_heap s) @ collect in_hand ts @ closed_of (sv_io s)) \<and>
    set (collect outbound_of (sv_heap s) @ collect in_hand ts @ closed_of (sv_io s)) = {..<sv_dialled s}"
proof -
  have books: "books_balance s ts" using books.inv_reachable [OF assms] books_start by blast
  then show ?thesis using books_distinct [OF books] by (simp add: books_balance_def)
qed

theorem concurrent_handlers_invariant_witness:
  "\<exists>s ts. (interleave (handler_step sample_env))\<^sup>*\<^sup>* (server_New [] NewTokenStore, map arrival
       [\<lparr>rq_method = ''GET'', rq_path = ''/api/v1/open'', rq_header = (\<lambda>_. []), rq_body = [], rq_broken = False\<rparr>,
        \<lparr>rq_method = ''POST'', rq_path = ''/api/v1/push'', rq_header = (\<lambda>_. []), rq_body = [], rq_broken = False\<rparr>]) (s, ts) \<and>
     ts = [Replied (http_Error [] ''method not allowed'' 405), Replied (http_NotFound no_store)] \<and>
     distinct (collect outbound_of (sv_heap s) @ collect in_hand ts @ closed_of (sv_io s))"
proof -
  let ?rqs = "[\<lparr>rq_method = ''GET'', rq_path = ''/api/v1/open'', rq_header = (\<lambda>_. []), rq_body = [], rq_broken = False\<rparr>,
        \<lparr>rq_method = ''POST'', rq_path = ''/api/v1/push'', rq_header = (\<lambda>_. []), rq_body = [], rq_broken = False\<rparr>]"
  let ?c = "schedule (handler_step sample_env) [(1, (0, DialOk)), (0, (0, DialOk))] (server_New [] NewTokenStore, map arrival ?rqs)"
  have c: "?c = (server_New [] NewTokenStore,
      [Replied (http_Error [] ''method not allowed'' 405), Replied (http_NotFound no_store)])"
    by (simp add: move_thread_def arrival_def push_call_def open_call_def connStateFromRequest_def)
  have run: "(interleave (handler_step sample_env))\<^sup>*\<^sup>* (server_New [] NewTokenStore, map arrival ?rqs)
      (server_New [] NewTokenStore,
       [Replied (http_Error [] ''method not allowed'' 405), Replied (http_NotFound no_store)])"
    using schedule_run [of "handler_step sample_env" _ "[(1, (0, DialOk)), (0, (0, DialOk))]"] unfolding c [symmetric] .
  from concurrent_handlers_invariant [OF run] show ?thesis using run by blast
qed

end
