(* ===== verification/ServerSessions.thy ===== *)
theory ServerSessions
  imports ServerThreads
begin

text \<open>
  What the releases of the mutexes in \<open>server/server.go\<close> let the calls see of each other. \<open>handleOpen\<close>
  publishes a connection before \<open>CompleteHandshake\<close>, so that a request can find a session without a key;
  \<open>forwardPayload\<close> writes to a socket after it released the mutex, so that the socket can be closed in
  between. The theorems bound both: nothing happens on a connection before its handshake is complete,
  and only the calls that had picked a socket up before its close write to it afterwards.
\<close>

section \<open>Sessions before and after their handshake\<close>

text \<open>A session under the id of its place in the table, with a usable key.\<close>

definition established :: "nat \<Rightarrow> connState \<Rightarrow> bool" where
  "established r cs \<longleftrightarrow> s_ConnectionID (cs_sess cs) = word_of_nat (Suc r) \<and>
     aes_key_ok (s_SessionKey (cs_sess cs)) \<and> s_State (cs_sess cs) = StateActive"

text \<open>A connection as \<open>handleOpen\<close> puts it into the table.\<close>

definition untouched :: "connState \<Rightarrow> bool" where
  "untouched cs \<longleftrightarrow> (\<exists>now d. cs = \<lparr>cs_sess = NewSession now d, cs_outbound = None,
     cs_connecting = False, cs_targetAddr = []\<rparr>)"

text \<open>The connections on which a call acts with decoded data, a dial or a socket, and those whose handshake it completes.\<close>

fun acts_on :: "handler \<Rightarrow> nat list" where
  "acts_on (PushDecode c r fs dl) = (if dl = [] then [] else [r])"
| "acts_on (PushForward c r ps) = (if ps = [] then [] else [r])"
| "acts_on (OpenTable c r confirmed key) = []"
| "acts_on t = refs_of t"

fun completes :: "handler \<Rightarrow> nat list" where
  "completes (OpenTable c r confirmed key) = [r]"
| "completes t = []"

fun open_ok :: "handler \<Rightarrow> bool" where
  "open_ok (OpenBound token pt key) = aes_key_ok key"
| "open_ok (OpenTouched pt key) = aes_key_ok key"
| "open_ok (OpenTable c r confirmed key) = (aes_key_ok key \<and> c = word_of_nat (Suc r))"
| "open_ok t = True"

definition in_bounds :: "Server \<Rightarrow> handler \<Rightarrow> bool" where
  "in_bounds s t \<longleftrightarrow> open_ok t \<and> (\<forall>r \<in> set (refs_of t). r < length (sv_heap s))"

definition sessions_ok :: "Server \<Rightarrow> handler list \<Rightarrow> bool" where
  "sessions_ok s ts \<longleftrightarrow> ids_inv s \<and> (\<forall>t \<in> set ts. in_bounds s t) \<and>
     (\<forall>r < length (sv_heap s). established r (sv_heap s ! r) \<or>
        untouched (sv_heap s ! r) \<and> r \<in> set (collect completes ts) \<and> r \<notin> set (collect acts_on ts))"

lemma acts_on_refs: "set (acts_on t) \<subseteq> set (refs_of t)"
  by (cases t rule: acts_on.cases) auto

lemma untouched_key: "untouched cs \<Longrightarrow> s_SessionKey (cs_sess cs) = [] \<and> \<not> established r cs"
  by (auto simp: untouched_def established_def NewSession_def aes_key_ok_def)

text \<open>What one step must do for this.\<close>

definition session_step :: "handler \<Rightarrow> handler \<Rightarrow> handler list \<Rightarrow> Server \<Rightarrow> Server \<Rightarrow> bool" where
  "session_step t t' new s s' \<longleftrightarrow> ids_inv s' \<and> length (sv_heap s) \<le> length (sv_heap s') \<and>
     (\<forall>u \<in> set (t' # new). in_bounds s' u) \<and>
     (\<forall>r < length (sv_heap s'). established r (sv_heap s' ! r) \<or>
        untouched (sv_heap s' ! r) \<and> r \<notin> set (acts_on t' @ collect acts_on new) \<and>
        (if r < length (sv_heap s)
         then \<not> established r (sv_heap s ! r) \<and> (r \<in> set (completes t) \<longrightarrow> r \<in> set (completes t'))
         else r \<in> set (completes t')))"

definition session_ready :: "Server \<Rightarrow> handler \<Rightarrow> bool" where
  "session_ready s t \<longleftrightarrow> ids_inv s \<and> in_bounds s t \<and>
     (\<forall>r < length (sv_heap s). established r (sv_heap s ! r) \<or>
        untouched (sv_heap s ! r) \<and> r \<notin> set (acts_on t))"

lemma sessions_ready:
  "sessions_ok s ts \<Longrightarrow> t \<in> set ts \<Longrightarrow> session_ready s t"
  by (auto simp: sessions_ok_def session_ready_def set_collect)

lemma sessions_move:
  assumes ok: "sessions_ok s ts" and i: "i < length ts" and st: "session_step (ts ! i) t new s s'"
  shows "sessions_ok s' (ts[i := t] @ new)"
proof -
  have le: "length (sv_heap s) \<le> length (sv_heap s')" using st by (simp add: session_step_def)
  have mem: "u \<in> set ts \<or> u = t \<or> u \<in> set new" if "u \<in> set (ts[i := t] @ new)" for u
    using that set_update_subset_insert [of ts i t] by auto
  have bounds: "in_bounds s' u" if "u \<in> set (ts[i := t] @ new)" for u
    using mem [OF that] ok st le by (fastforce simp: sessions_ok_def session_step_def in_bounds_def)
  have "r \<in> set (collect completes (ts[i := t] @ new)) \<and> r \<notin> set (collect acts_on (ts[i := t] @ new))"
    if r: "r < length (sv_heap s')" and new: "\<not> established r (sv_heap s' ! r)" for r
  proof -
    have fresh: "r \<notin> set (acts_on t @ collect acts_on new)"
      "if r < length (sv_heap s)
       then \<not> established r (sv_heap s ! r) \<and> (r \<in> set (completes (ts ! i)) \<longrightarrow> r \<in> set (completes t))
       else r \<in> set (completes t)"
      using st r new by (auto simp: session_step_def)
    have t: "t \<in> set (ts[i := t])" using i by (simp add: set_update_memI)
    show ?thesis
    proof (cases "r < length (sv_heap s)")
      case True
      then have old: "r \<in> set (collect completes ts)" "r \<notin> set (collect acts_on ts)"
        using ok fresh(2) by (auto simp: sessions_ok_def)
      then obtain j where j: "j < length ts" "r \<in> set (completes (ts ! j))"
        by (auto simp: set_collect) (metis in_set_conv_nth)
      have "r \<in> set (completes (ts[i := t] ! j))"
        using j fresh(2) True by (cases "j = i") auto
      then have "r \<in> set (collect completes (ts[i := t] @ new))"
        using j(1) nth_mem [of j "ts[i := t]"] by (auto simp: set_collect)
      moreover have "r \<notin> set (collect acts_on (ts[i := t] @ new))"
        using old(2) fresh(1) set_update_subset_insert [of ts i t] by (auto simp: set_collect)
      ultimately show ?thesis by simp
    next
      case False
      then have "r \<notin> set (acts_on u)" if "u \<in> set ts" for u
        using ok that acts_on_refs [of u] by (fastforce simp: sessions_ok_def in_bounds_def)
      then show ?thesis
        using False fresh t set_update_subset_insert [of ts i t] by (auto simp: set_collect)
    qed
  qed
  then show ?thesis using st bounds by (auto simp: sessions_ok_def session_step_def)
qed

section \<open>The steps keep it\<close>

text \<open>A step that changes no connection, and one that changes a connection and keeps its session.\<close>

lemma step_same_heap:
  assumes "session_ready s t" "sv_heap s' = sv_heap s" "sv_conns s' = sv_conns s" "sv_nextConnID s' = sv_nextConnID s"
    "open_ok t'" "\<forall>u \<in> set new. open_ok u" "\<forall>u \<in> set (t' # new). set (refs_of u) \<subseteq> set (refs_of t)"
    "\<forall>u \<in> set (t' # new). set (acts_on u) \<subseteq> set (acts_on t)" "completes t = []"
  shows "session_step t t' new s s'"
  using assms
  by (fastforce simp: session_step_def session_ready_def in_bounds_def ids_inv_def set_collect)

lemma step_established:
  assumes rdy: "session_ready s t" and r: "r < length (sv_heap s)" and est: "established r (f (sv_heap s ! r))"
    and t': "open_ok t'" "\<forall>u \<in> set new. open_ok u" "\<forall>u \<in> set (t' # new). set (refs_of u) \<subseteq> {r}"
      "set (completes t) \<subseteq> {r}"
  shows "session_step t t' new s (upd_cs r f s)"
proof -
  have acts: "set (acts_on u) \<subseteq> {r}" if "u \<in> set (t' # new)" for u
    using that t'(3) acts_on_refs [of u] by blast
  have "established q (sv_heap (upd_cs r f s) ! q) \<or> untouched (sv_heap (upd_cs r f s) ! q) \<and>
      q \<notin> set (acts_on t' @ collect acts_on new) \<and> \<not> established q (sv_heap s ! q) \<and> q \<noteq> r"
    if "q < length (sv_heap s)" for q
    using that rdy est acts untouched_key
    by (cases "q = r") (fastforce simp: upd_cs_def nth_list_update session_ready_def set_collect)+
  then show ?thesis
    using rdy r t' by (auto simp: session_step_def session_ready_def in_bounds_def ids_inv_def)
qed

lemma step_conn:
  assumes "session_ready s t" "r \<in> set (acts_on t)" "s_ConnectionID (cs_sess (f (sv_heap s ! r))) = s_ConnectionID (cs_sess (sv_heap s ! r))"
    "s_SessionKey (cs_sess (f (sv_heap s ! r))) = s_SessionKey (cs_sess (sv_heap s ! r))"
    "s_State (cs_sess (f (sv_heap s ! r))) = s_State (cs_sess (sv_heap s ! r))"
    "open_ok t'" "\<forall>u \<in> set new. open_ok u" "\<forall>u \<in> set (t' # new). set (refs_of u) \<subseteq> {r}" "completes t = []"
  shows "session_step t t' new s (upd_cs r f s)"
proof (rule step_established [OF assms(1) _ _ assms(6-8)])
  show "r < length (sv_heap s)"
    using assms(1,2) acts_on_refs [of t] by (auto simp: session_ready_def in_bounds_def)
  then show "established r (f (sv_heap s ! r))"
    using assms(1-5) by (auto simp: session_ready_def established_def)
qed (simp add: assms(9))

lemma session_push_call:
  "session_ready s (PushCall rq) \<Longrightarrow> push_call rq s = Some (t, new, s') \<Longrightarrow> session_step (PushCall rq) t new s s'"
  by (auto simp: push_call_def session_step_def session_ready_def in_bounds_def ids_inv_def untouched_key
      split: if_splits option.splits dest!: connStateFromRequest_Some)

lemma DecodeIncoming_session:
  "s_State (snd (DecodeIncoming now w s)) = s_State s"
  "s_SessionKey s = [] \<Longrightarrow> \<exists>e. DecodeIncoming now w s = (Inl e, s)"
  by (auto simp: DecodeIncoming_def Let_def aes_key_ok_def elim!: DecodeDataFrame_Inr
      split: sum.splits prod.splits bool.splits)

text \<open>A session without a key refuses every frame and stays as it was.\<close>

lemma session_push_decode:
  assumes rdy: "session_ready s (PushDecode c r fs dl)" and st: "push_decode now c r fs dl s = Some (t, new, s')"
  shows "session_step (PushDecode c r fs dl) t new s s'"
proof (cases fs)
  case Nil
  then show ?thesis using rdy st by (intro step_same_heap) (auto simp: push_decode_def)
next
  case (Cons w ws)
  let ?ss = "cs_sess (sv_heap s ! r)"
  obtain res sess where d: "DecodeIncoming now w ?ss = (res, sess)" by (cases "DecodeIncoming now w ?ss")
  have r: "r < length (sv_heap s)" using rdy by (simp add: session_ready_def in_bounds_def)
  have s': "s' = upd_cs r (\<lambda>cs. cs\<lparr>cs_sess := sess\<rparr>) s" "new = []"
    and t: "t = PushDecode c r ws (dl @ (case res of Inl e \<Rightarrow> [] | Inr x \<Rightarrow> if Accepted x then Ready x else []))"
    using st Cons d by (simp_all add: push_decode_def)
  show ?thesis
  proof (cases "established r (sv_heap s ! r)")
    case True
    then have "established r ((\<lambda>cs. cs\<lparr>cs_sess := sess\<rparr>) (sv_heap s ! r))"
      using DecodeIncoming_keeps [of now w ?ss] DecodeIncoming_session(1) [of now w ?ss] d
      by (simp add: established_def)
    from step_established [where f = "\<lambda>cs. cs\<lparr>cs_sess := sess\<rparr>" and t' = t and new = "[]", OF rdy r this]
    show ?thesis by (simp add: s' t)
  next
    case False
    then have u: "untouched (sv_heap s ! r)" "dl = []"
      using rdy r by (auto simp: session_ready_def split: if_splits)
    obtain e where "res = Inl e" "sess = ?ss"
      using DecodeIncoming_session(2) [of ?ss now w] untouched_key [OF u(1)] d by auto
    then have "s' = s" "t = PushDecode c r ws []"
      using s'(1) t u(2) by (simp_all add: upd_cs_def)
    then show ?thesis using rdy u(2) s'(2) by (intro step_same_heap) auto
  qed
qed

lemma session_push_forward:
  assumes rdy: "session_ready s (PushForward c r ps)" and st: "push_forward c r ps s = Some (t, new, s')"
  shows "session_step (PushForward c r ps) t new s s'"
proof (cases "\<exists>p rest. ps = p # rest \<and> cs_outbound (sv_heap s ! r) = None \<and> \<not> cs_connecting (sv_heap s ! r)")
  case True
  then obtain p rest where ps: "ps = p # rest" by blast
  let ?f = "\<lambda>cs. cs\<lparr>cs_connecting := True, cs_targetAddr := string_of (TrimSpace p)\<rparr>"
  have "t = PushForward c r rest" "new = [Dialling c r (string_of (TrimSpace p))]" "s' = upd_cs r ?f s"
    using st True ps by (auto simp: push_forward_def Let_def)
  then show ?thesis using step_conn [OF rdy, of r ?f t new] ps by simp
next
  case False
  then have "s' = s" "new = []" "t = PushForward c r (tl ps) \<or> (\<exists>h p. t = PushWrite c r h p (tl ps)) \<or> refs_of t = [] \<and> open_ok t"
    "ps = [] \<longrightarrow> refs_of t = []"
    using st by (auto simp: push_forward_def split: list.splits option.splits if_splits)
  then show ?thesis
    using rdy acts_on_refs [of t] by (intro step_same_heap) (auto split: if_splits)
qed

lemma session_push_write:
  assumes "session_ready s (PushWrite c r h p ps)" "push_write env c r h p ps s = Some (t, new, s')"
  shows "session_step (PushWrite c r h p ps) t new s s'"
  using assms by (intro step_same_heap) (auto simp: push_write_def Let_def split: if_splits)

lemma session_close:
  assumes rdy: "session_ready s t" and st: "close_step t s = Some (t', new, s')"
  shows "session_step t t' new s s'"
proof -
  have take: "session_step t t' [] s (snd (take_outbound r s))"
    if "r \<in> set (acts_on t)" "set (refs_of t') \<subseteq> {r}" "open_ok t'" "completes t = []" for r
    using that step_conn [OF rdy, of r "\<lambda>cs. cs\<lparr>cs_outbound := None\<rparr>" t' "[]"] by (simp add: take_outbound_def)
  show ?thesis
  proof (cases t)
    case (PushFailed c r ps)
    then show ?thesis using st take [of r] by (auto simp: take_outbound_def split: option.splits)
  next
    case (PumpEnd c r)
    then show ?thesis using st take [of r] by (auto simp: take_outbound_def split: option.splits)
  qed (use rdy st in \<open>auto simp: close_socket_def intro!: step_same_heap split: if_splits\<close>)
qed

lemma session_pull:
  assumes "session_ready s t" "pull_step t s = Some (t', new, s')"
  shows "session_step t t' new s s'"
  using assms by (cases t) (auto intro!: step_same_heap split: if_splits option.splits)

lemma session_queue:
  assumes rdy: "session_ready s t" and st: "queue_step t s = Some (t', new, s')"
  shows "session_step t t' new s s'"
proof (cases t)
  case (QueueEncode c r p k)
  obtain res sess where e: "EncodeOutgoing p 0 (cs_sess (sv_heap s ! r)) = (res, sess)"
    by (cases "EncodeOutgoing p 0 (cs_sess (sv_heap s ! r))")
  then have keep: "s_ConnectionID sess = s_ConnectionID (cs_sess (sv_heap s ! r))"
    "s_SessionKey sess = s_SessionKey (cs_sess (sv_heap s ! r))" "s_State sess = s_State (cs_sess (sv_heap s ! r))"
    by (auto simp: EncodeOutgoing_eq advance_def)
  have "s' = upd_cs r (\<lambda>cs. cs\<lparr>cs_sess := sess\<rparr>) s" "new = []" "set (refs_of t') \<subseteq> {r}" "open_ok t'"
    using st QueueEncode e by (cases k; auto split: sum.splits)+
  then show ?thesis using step_conn [OF rdy, of r "\<lambda>cs. cs\<lparr>cs_sess := sess\<rparr>" t' new] keep QueueEncode by simp
next
  case (QueueAppend c r w k)
  then show ?thesis using rdy st by (cases k) (auto intro!: step_same_heap)
qed (use st in auto)

lemma session_pump:
  assumes "session_ready s t" "pump_step inp t s = Some (t', new, s')"
  shows "session_step t t' new s s'"
  using assms by (cases t; cases inp) (auto intro!: step_same_heap split: if_splits)

lemma session_dial:
  assumes rdy: "session_ready s t" and st: "dial_step env inp t s = Some (t', new, s')"
  shows "session_step t t' new s s'"
proof (cases t)
  case (Dialling c r target)
  then show ?thesis using rdy st by (auto intro!: step_same_heap split: sum.splits go_input.splits)
next
  case (Dialled c r h)
  then show ?thesis
    using st step_conn [OF rdy, of r "\<lambda>cs. cs\<lparr>cs_outbound := Some h, cs_connecting := False\<rparr>" t' new] by auto
next
  case (DialFailed c r)
  then show ?thesis using st step_conn [OF rdy, of r "\<lambda>cs. cs\<lparr>cs_connecting := False\<rparr>" t' new] by auto
qed (use st in auto)

lemma session_open_call:
  assumes "session_ready s (OpenCall rq)" "open_call env now rq s = Some (t, new, s')"
  shows "session_step (OpenCall rq) t new s s'"
  using assms
  by (intro step_same_heap)
    (auto simp: open_call_def Let_def dest: DecodeHandshake_key(3)
      split: if_splits option.splits sum.splits prod.splits)

lemma session_open_conn:
  assumes rdy: "session_ready s (OpenTouched pt key)"
    and st: "open_step now (OpenTouched pt key) s = Some (t, new, s')"
  shows "session_step (OpenTouched pt key) t new s s'"
proof (cases "find_conn pt s")
  case (Some r)
  then have "s' = s" "new = []" "t = OpenTable (hp_ConnectionID pt) r True key"
    using st by (auto simp: open_conn_def)
  moreover have "hp_ConnectionID pt = word_of_nat (Suc r)" "r < length (sv_heap s)"
    using Some rdy by (auto simp: find_conn_def session_ready_def ids_inv_def split: if_splits option.splits)
  ultimately show ?thesis
    using rdy untouched_key by (auto simp: session_step_def session_ready_def in_bounds_def)
next
  case None
  let ?r = "length (sv_heap s)"
  let ?cs = "\<lparr>cs_sess = NewSession now (hp_DeviceID pt), cs_outbound = None, cs_connecting = False, cs_targetAddr = []\<rparr>"
  have st': "t = OpenTable (sv_nextConnID s) ?r False key" "new = []"
    "s' = s\<lparr>sv_nextConnID := sv_nextConnID s + 1, sv_heap := sv_heap s @ [?cs],
       sv_conns := (sv_conns s)(sv_nextConnID s \<mapsto> ?r)\<rparr>"
    using st None by (auto simp: open_conn_def Let_def)
  have "untouched ?cs" by (auto simp: untouched_def)
  moreover have "ids_inv s'" "sv_nextConnID s = word_of_nat (Suc ?r)" "aes_key_ok key"
    using rdy by (auto simp: st'(3) session_ready_def in_bounds_def ids_inv_def less_SucI split: if_splits)
  ultimately show ?thesis
    using rdy untouched_key
    by (auto simp: st' session_step_def session_ready_def in_bounds_def nth_append less_Suc_eq)
qed

lemma session_open_step:
  assumes rdy: "session_ready s t" and st: "open_step now t s = Some (t', new, s')"
  shows "session_step t t' new s s'"
proof (cases t)
  case (OpenBound token pt key)
  then show ?thesis using rdy st by (intro step_same_heap) (auto simp: session_ready_def in_bounds_def)
next
  case (OpenTouched pt key)
  then show ?thesis using session_open_conn rdy st by simp
next
  case (OpenTable c r confirmed key)
  let ?f = "\<lambda>cs. cs\<lparr>cs_sess := CompleteHandshake now c key (cs_sess cs)\<rparr>"
  have r: "r < length (sv_heap s)" "established r (?f (sv_heap s ! r))"
    using rdy OpenTable by (simp_all add: session_ready_def in_bounds_def established_def CompleteHandshake_def)
  from step_established [where f = ?f and t' = t' and new = "[]", OF rdy this]
  show ?thesis using st OpenTable by auto
qed (use st in auto)

lemma handler_session_step:
  assumes rdy: "session_ready s t" and step: "handler_step env e t s = Some (t', new, s')"
  shows "session_step t t' new s s'"
proof -
  obtain now inp where "e = (now, inp)" by (cases e)
  from step [unfolded this] show ?thesis
  proof (cases rule: handler_step_cases)
    case push
    then show ?thesis using session_push_call rdy by simp
  next
    case decode
    then show ?thesis using session_push_decode rdy by simp
  next
    case forward
    then show ?thesis using session_push_forward rdy by simp
  next
    case writing
    then show ?thesis using session_push_write rdy by simp
  next
    case handshaking
    then show ?thesis using session_open_call rdy by simp
  qed (use rdy in \<open>blast intro: session_close session_pull session_open_step session_dial session_queue
      session_pump\<close>)+
qed

interpretation table: thread_machine "handler_step env" sessions_ok for env
  by unfold_locales (blast intro: sessions_move handler_session_step sessions_ready nth_mem)

lemma sessions_start: "sessions_ok ((server_New priv tokens)\<lparr>sv_AllowedTargets := targets\<rparr>) (map arrival rqs)"
  by (auto simp: sessions_ok_def server_New_def ids_inv_def in_bounds_def arrival_def)

section \<open>Writes to a closed socket\<close>

text \<open>The payloads written to a socket, and the one a call that picked the socket up has yet to write.\<close>

fun payloads_to :: "nat \<Rightarrow> net_event list \<Rightarrow> bytes list" where
  "payloads_to h [] = []"
| "payloads_to h (NetWrite k p ok # es) = (if k = h then [p] else []) @ payloads_to h es"
| "payloads_to h (NetClose k # es) = payloads_to h es"

fun held_for :: "nat \<Rightarrow> handler \<Rightarrow> bytes list" where
  "held_for h (PushWrite c r k p ps) = (if k = h then [p] else [])"
| "held_for h t = []"

lemma payloads_to_append [simp]: "payloads_to h (es @ fs) = payloads_to h es @ payloads_to h fs"
  by (induction h es rule: payloads_to.induct) simp_all

text \<open>A step writes to a socket what the call held for it, and takes up only the socket of its connection.\<close>

definition io_step :: "nat \<Rightarrow> handler \<Rightarrow> handler \<Rightarrow> handler list \<Rightarrow> Server \<Rightarrow> Server \<Rightarrow> bool" where
  "io_step h t t' new s s' \<longleftrightarrow> (\<exists>late. sv_io s' = sv_io s @ late \<and>
     payloads_to h late @ held_for h t' @ collect (held_for h) new = held_for h t)"

lemma io_step_same: "sv_io s' = sv_io s \<Longrightarrow> held_for h t' @ collect (held_for h) new = held_for h t \<Longrightarrow> io_step h t t' new s s'"
  by (simp add: io_step_def)

lemma close_step_io: "close_step t s = Some (t', new, s') \<Longrightarrow> io_step h t t' new s s'"
  by (cases t) (auto simp: io_step_def take_outbound_def close_socket_def split: option.splits)

lemma other_step_io:
  "pull_step t s = Some (t', new, s') \<Longrightarrow> io_step h t t' new s s'"
  "open_step now t s = Some (t', new, s') \<Longrightarrow> io_step h t t' new s s'"
  "dial_step env inp t s = Some (t', new, s') \<Longrightarrow> io_step h t t' new s s'"
  "pump_step inp t s = Some (t', new, s') \<Longrightarrow> io_step h t t' new s s'"
  by (cases t; cases inp; auto simp: open_conn_def Let_def intro!: io_step_same
      split: if_splits option.splits prod.splits sum.splits go_input.splits)+

lemma queue_step_io: "queue_step t s = Some (t', new, s') \<Longrightarrow> io_step h t t' new s s'"
proof -
  have "held_for h (queue_return c r k) = []" for c r k by (cases k) simp_all
  then show "queue_step t s = Some (t', new, s') \<Longrightarrow> io_step h t t' new s s'"
    by (cases t) (auto intro!: io_step_same split: prod.splits sum.splits)
qed

lemma push_step_io:
  "push_call rq s = Some (t', new, s') \<Longrightarrow> io_step h (PushCall rq) t' new s s'"
  "push_decode now c r fs dl s = Some (t', new, s') \<Longrightarrow> io_step h (PushDecode c r fs dl) t' new s s'"
  "push_write env c r k p ps s = Some (t', new, s') \<Longrightarrow> io_step h (PushWrite c r k p ps) t' new s s'"
  "open_call env now rq s = Some (t', new, s') \<Longrightarrow> io_step h (OpenCall rq) t' new s s'"
  "cs_outbound (sv_heap s ! r) \<noteq> Some h \<Longrightarrow> push_forward c r ps s = Some (t', new, s') \<Longrightarrow>
    io_step h (PushForward c r ps) t' new s s'"
  by (auto simp: push_call_def push_decode_def push_write_def open_call_def push_forward_def io_step_def Let_def
      split: if_splits option.splits list.splits prod.splits sum.splits)

lemma handler_step_io:
  assumes step: "handler_step env e t s = Some (t', new, s')"
    and free: "\<forall>r \<in> set (refs_of t). cs_outbound (sv_heap s ! r) \<noteq> Some h"
  shows "io_step h t t' new s s'"
proof -
  obtain now inp where "e = (now, inp)" by (cases e)
  from step [unfolded this] show ?thesis
  proof (cases rule: handler_step_cases)
    case (forward c r ps)
    then show ?thesis using push_step_io(5) free by simp
  qed (auto intro: push_step_io(1-4) close_step_io other_step_io queue_step_io)
qed

text \<open>A socket that was closed belongs to no connection any more.\<close>

lemma closed_not_outbound:
  assumes "books_balance s ts" "h \<in> set (closed_of (sv_io s))" "r < length (sv_heap s)"
  shows "cs_outbound (sv_heap s ! r) \<noteq> Some h"
proof
  assume "cs_outbound (sv_heap s ! r) = Some h"
  then have "h \<in> set (collect outbound_of (sv_heap s))"
    using nth_mem [OF assms(3)] by (force simp: set_collect outbound_of_def)
  moreover have "distinct (collect outbound_of (sv_heap s) @ collect in_hand ts @ closed_of (sv_io s))"
    using books_distinct(1) [OF assms(1)] .
  ultimately show False using assms(2) by auto
qed

definition closed_since :: "nat \<Rightarrow> net_event list \<Rightarrow> bytes multiset \<Rightarrow> Server \<Rightarrow> handler list \<Rightarrow> bool" where
  "closed_since h io owed s ts \<longleftrightarrow> books_balance s ts \<and> h \<in> set (closed_of (sv_io s)) \<and>
     (\<exists>late. sv_io s = io @ late \<and> mset (payloads_to h late) + mset (collect (held_for h) ts) = owed)"

lemma closed_since_move:
  assumes inv: "closed_since h io owed s ts" and i: "i < length ts"
    and step: "handler_step env e (ts ! i) s = Some (t, new, s')"
  shows "closed_since h io owed s' (ts[i := t] @ new)"
proof -
  have books: "books_balance s ts" and closed: "h \<in> set (closed_of (sv_io s))"
    using inv by (simp_all add: closed_since_def)
  obtain late where late: "sv_io s = io @ late"
    "mset (payloads_to h late) + mset (collect (held_for h) ts) = owed"
    using inv by (auto simp: closed_since_def)
  have "\<forall>r \<in> set (refs_of (ts ! i)). cs_outbound (sv_heap s ! r) \<noteq> Some h"
    using closed_not_outbound [OF books closed] books nth_mem [OF i] by (metis books_balance_def)
  from handler_step_io [OF step this] obtain more where more: "sv_io s' = sv_io s @ more"
    "payloads_to h more @ held_for h t @ collect (held_for h) new = held_for h (ts ! i)"
    by (auto simp: io_step_def)
  have "mset (collect (held_for h) (ts[i := t])) + mset (held_for h (ts ! i)) =
      mset (collect (held_for h) ts) + mset (held_for h t)"
    by (rule mset_collect_update [OF i])
  then have "mset (payloads_to h (late @ more)) + mset (collect (held_for h) (ts[i := t] @ new)) = owed"
    unfolding late(2) [symmetric] more(2) [symmetric] by (simp add: algebra_simps)
  moreover have "books_balance s' (ts[i := t] @ new)" using books.inv_move [OF books i step] .
  ultimately show ?thesis
    using closed late(1) more(1) unfolding closed_since_def by (metis Un_iff append.assoc closed_of_append set_append)
qed

interpretation late: thread_machine "handler_step env" "closed_since h io owed" for env h io owed
  by unfold_locales (rule closed_since_move)

section \<open>Properties\<close>

text \<open>C6: However the handlers of any requests and the goroutines they start interleave, under any list of
  allowed targets: every entry of the table refers to a live connection whose place determines its id,
  and its session is either active under that id with a usable key, or still exactly as \<open>handleOpen\<close>
  made it, without key, socket and dial; then the call that made or found it is about to complete the
  handshake with a usable key, and no call has data, a dial or a socket of this connection in hand.\<close>

theorem concurrent_sessions_invariant:
  assumes "(interleave (handler_step env))\<^sup>*\<^sup>*
    ((server_New priv tokens)\<lparr>sv_AllowedTargets := targets\<rparr>, map arrival rqs) (s, ts)"
    "sv_conns s c = Some r"
  shows "r < length (sv_heap s) \<and> c = word_of_nat (Suc r) \<and>
    (let cs = sv_heap s ! r in
      s_ConnectionID (cs_sess cs) = c \<and> aes_key_ok (s_SessionKey (cs_sess cs)) \<and> s_State (cs_sess cs) = StateActive \<or>
      (\<exists>now d. cs = \<lparr>cs_sess = NewSession now d, cs_outbound = None, cs_connecting = False, cs_targetAddr = []\<rparr>) \<and>
      (\<exists>confirmed key. aes_key_ok key \<and> OpenTable c r confirmed key \<in> set ts) \<and> (\<forall>t \<in> set ts. r \<notin> set (acts_on t)))"
proof -
  have ok: "sessions_ok s ts" using table.inv_reachable [OF assms(1)] sessions_start by blast
  then have r: "r < length (sv_heap s)" "c = word_of_nat (Suc r)"
    using assms(2) by (auto simp: sessions_ok_def ids_inv_def)
  have pending: "\<exists>confirmed key. aes_key_ok key \<and> OpenTable c r confirmed key \<in> set ts"
    if "r \<in> set (collect completes ts)"
  proof -
    from that obtain t where t: "t \<in> set ts" "r \<in> set (completes t)" by (auto simp: set_collect)
    then have "in_bounds s t" using ok by (simp add: sessions_ok_def)
    then show ?thesis using t r(2) by (cases t) (auto simp: in_bounds_def)
  qed
  have "established r (sv_heap s ! r) \<or>
      untouched (sv_heap s ! r) \<and> r \<in> set (collect completes ts) \<and> (\<forall>t \<in> set ts. r \<notin> set (acts_on t))"
    using ok r(1) unfolding sessions_ok_def set_collect by blast
  then show ?thesis
    using r pending unfolding established_def untouched_def Let_def by blast
qed

theorem concurrent_sessions_invariant_witness:
  "\<exists>rq s ts. (interleave (handler_step sample_env))\<^sup>*\<^sup>*
      ((server_New (replicate 32 5) (RegisterToken ''t'' NewTokenStore))\<lparr>sv_AllowedTargets := []\<rparr>, map arrival [rq]) (s, ts) \<and>
    s_SessionKey (cs_sess (sv_heap s ! 0)) = [] \<and> (\<exists>confirmed key. aes_key_ok key \<and> OpenTable 1 0 confirmed key \<in> set ts)"
proof -
  let ?s0 = "(server_New (replicate 32 5) (RegisterToken ''t'' NewTokenStore))\<lparr>sv_AllowedTargets := []\<rparr>"
  let ?pt = "\<lparr>hp_DeviceID = 7, hp_ConnectionID = 0, hp_Flags = FlagOpen\<rparr>"
  have "x25519_pair (map2 (+)) (replicate 32 3) (replicate 32 5)" by code_simp
  then obtain wire key where hs: "length wire = 69"
    "DecodeHandshake (map2 (+)) wire (replicate 32 5) HKDFInfo =
      Inr (?pt, key, ecdh_PublicKey (map2 (+)) (replicate 32 3))"
    using handshake_agrees [of "map2 (+)" "replicate 32 3" "replicate 32 5" 0 ?pt HKDFInfo] by metis
  let ?rq = "\<lparr>rq_method = ''POST'', rq_path = ''/api/v1/open'', rq_header = (\<lambda>_. ''t''),
    rq_body = wire, rq_broken = False\<rparr>"
  let ?c = "schedule (handler_step sample_env) (replicate 3 (0, (0, DialOk))) (?s0, map arrival [?rq])"
  obtain s ts where c: "?c = (s, ts)" by (cases ?c)
  have bind: "fst (TryBind 0 ''t'' 7 (RegisterToken ''t'' NewTokenStore)) = BindAccepted"
    by (simp add: TryBind_def RegisterToken_def NewTokenStore_def)
  then obtain tokens where "TryBind 0 ''t'' 7 (RegisterToken ''t'' NewTokenStore) = (BindAccepted, tokens)"
    by (metis prod.collapse)
  then have st: "sv_conns s 1 = Some 0" "sv_heap s ! 0 = \<lparr>cs_sess = NewSession 0 7, cs_outbound = None,
      cs_connecting = False, cs_targetAddr = []\<rparr>"
    using c hs by (auto simp: numeral_eq_Suc move_thread_def arrival_def open_call_def Let_def server_New_def
        ReadAll_limited_def HandshakeWireSize_69 sample_env_def open_conn_def find_conn_def)
  have run: "(interleave (handler_step sample_env))\<^sup>*\<^sup>* (?s0, map arrival [?rq]) (s, ts)"
    using schedule_run [of "handler_step sample_env" "(?s0, map arrival [?rq])" "replicate 3 (0, (0, DialOk))"]
    by (simp only: c)
  from concurrent_sessions_invariant [OF run st(1)]
  have "\<exists>confirmed key. aes_key_ok key \<and> OpenTable 1 0 confirmed key \<in> set ts"
    by (auto simp: st(2) NewSession_def Let_def)
  then show ?thesis using run by (intro exI [of _ ?rq] exI [of _ s] exI [of _ ts]) (simp add: st(2) NewSession_def)
qed

text \<open>C10: \<open>forwardPayload\<close> releases the mutex before it writes, so that a socket can be written after its
  close. In every continuation of a state whose books balance (as those of a new server do, and every step
  keeps them so), a socket that is closed is not closed again, and what is written to it from then on are
  payloads for which a call had picked the socket up before, each of them once or not yet.\<close>

theorem writes_after_close:
  assumes "books_balance s ts" "h \<in> set (closed_of (sv_io s))"
    "(interleave (handler_step env))\<^sup>*\<^sup>* (s, ts) (s', ts')"
  shows "\<exists>late. sv_io s' = sv_io s @ late \<and> h \<notin> set (closed_of late) \<and>
    mset (payloads_to h late) + mset (collect (held_for h) ts') = mset (collect (held_for h) ts)"
proof -
  let ?inv = "closed_since h (sv_io s) (mset (collect (held_for h) ts))"
  have "?inv s ts" using assms(1,2) by (simp add: closed_since_def)
  then have inv: "?inv s' ts'" by (rule late.inv_reachable [OF assms(3)])
  then obtain late where late: "sv_io s' = sv_io s @ late"
    "mset (payloads_to h late) + mset (collect (held_for h) ts') = mset (collect (held_for h) ts)"
    by (auto simp: closed_since_def)
  have "distinct (closed_of (sv_io s'))" using inv books_distinct(1) by (fastforce simp: closed_since_def)
  then have "h \<notin> set (closed_of late)" using assms(2) by (auto simp: late(1))
  then show ?thesis using late by blast
qed

theorem writes_after_close_witness:
  "\<exists>s ts s' ts'. (interleave (handler_step sample_env))\<^sup>*\<^sup>*
      ((sample_server (Some 0) [])\<lparr>sv_dialled := 1\<rparr>, [PushForward 1 0 [[9]], PumpEnd 1 0]) (s, ts) \<and>
    (interleave (handler_step sample_env))\<^sup>*\<^sup>* (s, ts) (s', ts') \<and>
    sv_io s = [NetClose 0] \<and> sv_io s' = [NetClose 0, NetWrite 0 [9] True] \<and> collect (held_for 0) ts' = []"
proof -
  let ?s0 = "(sample_server (Some 0) [])\<lparr>sv_dialled := 1\<rparr>"
  let ?ts0 = "[PushForward 1 0 [[9]], PumpEnd 1 0]"
  let ?m = "schedule (handler_step sample_env)"
  obtain s ts where c: "?m [(0, (0, DialOk)), (1, (0, DialOk)), (1, (0, DialOk))] (?s0, ?ts0) = (s, ts)"
    by (cases "?m [(0, (0, DialOk)), (1, (0, DialOk)), (1, (0, DialOk))] (?s0, ?ts0)")
  obtain s' ts' where c': "?m [(0, (0, DialOk))] (s, ts) = (s', ts')" by (cases "?m [(0, (0, DialOk))] (s, ts)")
  have st: "ts = [PushWrite 1 0 0 [9] [], Finished]" "sv_io s = [NetClose 0]"
    using c by (auto simp: move_thread_def push_forward_def take_outbound_def close_socket_def sample_server_def
        server_New_def upd_cs_def)
  have st': "sv_io s' = [NetClose 0, NetWrite 0 [9] True]"
    using c' by (auto simp: st move_thread_def push_write_def sample_env_def Let_def)
  have run: "(interleave (handler_step sample_env))\<^sup>*\<^sup>* (?s0, ?ts0) (s, ts)"
    "(interleave (handler_step sample_env))\<^sup>*\<^sup>* (s, ts) (s', ts')"
    using schedule_run [of "handler_step sample_env"] by (simp_all only: c [symmetric] c' [symmetric])
  have "books_balance ?s0 ?ts0"
    by (auto simp: books_balance_def sample_server_def server_New_def is_connecting_def outbound_of_def)
  then have books: "books_balance s ts" by (rule books.inv_reachable [OF run(1)])
  have "\<exists>late. sv_io s' = sv_io s @ late \<and> 0 \<notin> set (closed_of late) \<and>
      mset (payloads_to 0 late) + mset (collect (held_for 0) ts') = mset (collect (held_for 0) ts)"
    by (rule writes_after_close [OF books _ run(2)]) (simp add: st(2))
  then have "mset (collect (held_for 0) ts') = {#}" by (auto simp: st st')
  then show ?thesis using run st(2) st' by auto
qed

end
