(* ===== verification/ServerAlone.thy ===== *)
theory ServerAlone
  imports ServerThreads
begin

text \<open>
  The steps of \<open>ServerThreads\<close> put together again: a handler or a goroutine that nothing interrupts
  does what \<open>Server\<close> models as one step.
\<close>

section \<open>Runs of one call\<close>

fun call_of_go :: "goroutine \<Rightarrow> handler" where
  "call_of_go (GDial c r target) = Dialling c r target"
| "call_of_go (GFailed c r) = DialFailed c r"
| "call_of_go (GConnected c r h) = QueueEncode c r (bytes_of ''OK CONNECTED'') (ThenPump h)"
| "call_of_go (GPump c r h) = Pumping c r h"

text \<open>Running alone, the call goes from \<open>t\<close> to \<open>u\<close> and starts \<open>new\<close>.\<close>

definition alone :: "server_env \<Rightarrow> nanos \<times> go_input \<Rightarrow> handler \<Rightarrow> Server \<Rightarrow> handler \<Rightarrow> handler list \<Rightarrow> Server \<Rightarrow> bool" where
  "alone env e t s u new s' \<longleftrightarrow> (\<exists>n. run_alone (handler_step env) (replicate n e) t s = Some (u, new, s'))"

lemma alone_done: "alone env e t s t [] s"
  unfolding alone_def by (intro exI [of _ 0]) simp

lemma alone_step:
  assumes "handler_step env e t s = Some (t1, n1, s1)" "alone env e t1 s1 u n2 s2"
  shows "alone env e t s u (n1 @ n2) s2"
proof -
  obtain n where "run_alone (handler_step env) (replicate n e) t1 s1 = Some (u, n2, s2)"
    using assms(2) by (auto simp: alone_def)
  then have "run_alone (handler_step env) (replicate (Suc n) e) t s = Some (u, n1 @ n2, s2)"
    using assms(1) by simp
  then show ?thesis unfolding alone_def by blast
qed

lemma alone_quiet:
  "handler_step env e t s = Some (t1, [], s1) \<Longrightarrow> alone env e t1 s1 u new s2 \<Longrightarrow> alone env e t s u new s2"
  using alone_step [of env e t s t1 "[]" s1 u new s2] by simp

lemma alone_one: "handler_step env e t s = Some (u, [], s') \<Longrightarrow> alone env e t s u [] s'"
  by (erule alone_quiet) (rule alone_done)

lemma alone_trans:
  assumes "alone env e t s t1 n1 s1" "alone env e t1 s1 u n2 s2"
  shows "alone env e t s u (n1 @ n2) s2"
proof -
  obtain n k where "run_alone (handler_step env) (replicate n e) t s = Some (t1, n1, s1)"
    "run_alone (handler_step env) (replicate k e) t1 s1 = Some (u, n2, s2)"
    using assms by (auto simp: alone_def)
  then have "run_alone (handler_step env) (replicate (n + k) e) t s = Some (u, n1 @ n2, s2)"
    by (simp add: replicate_add run_alone_append)
  then show ?thesis unfolding alone_def by blast
qed

section \<open>Forwarding\<close>

text \<open>The goroutines that an operation starts, set apart from the state.\<close>

abbreviation without_gos :: "Server \<Rightarrow> Server" where
  "without_gos s \<equiv> s\<lparr>sv_gos := []\<rparr>"

lemma no_gos: "sv_gos s = [] \<Longrightarrow> without_gos s = s"
  by (cases s) simp

lemma forward_gos:
  "forwardPayload env c r p s =
     (let s1 = forwardPayload env c r p (without_gos s) in s1\<lparr>sv_gos := sv_gos s @ sv_gos s1\<rparr>)"
  by (cases s) (simp add: forwardPayload_def dialAndPumpAsync_def closeOutbound_def upd_cs_def Let_def
      split: option.split)

lemma forward_all_gos:
  "forward_all env c r ps s =
     (let s1 = forward_all env c r ps (without_gos s) in s1\<lparr>sv_gos := sv_gos s @ sv_gos s1\<rparr>)"
proof (induction ps arbitrary: s)
  case Nil
  then show ?case by (simp add: forward_all_def)
next
  case (Cons p ps)
  let ?s1 = "forwardPayload env c r p (without_gos s)"
  have "forward_all env c r (p # ps) s = forward_all env c r ps (?s1\<lparr>sv_gos := sv_gos s @ sv_gos ?s1\<rparr>)"
    using forward_gos [of env c r p s] by (simp add: forward_all_def Let_def)
  also have "\<dots> = (forward_all env c r ps (without_gos ?s1))
      \<lparr>sv_gos := sv_gos s @ sv_gos ?s1 @ sv_gos (forward_all env c r ps (without_gos ?s1))\<rparr>"
    using Cons.IH [of "?s1\<lparr>sv_gos := sv_gos s @ sv_gos ?s1\<rparr>"] by (simp add: Let_def)
  finally show ?case
    using Cons.IH [of ?s1] by (simp add: forward_all_def Let_def)
qed

lemma forward_one_alone:
  assumes "sv_gos s = []"
  shows "alone env e (PushForward c r (p # ps)) s (PushForward c r ps)
    (map call_of_go (sv_gos (forwardPayload env c r p s))) (without_gos (forwardPayload env c r p s))"
proof -
  obtain now inp where e: "e = (now, inp)" by (cases e)
  show ?thesis
  proof (cases "cs_outbound (sv_heap s ! r)")
    case None
    show ?thesis
    proof (cases "cs_connecting (sv_heap s ! r)")
      case True
      then show ?thesis
        using None assms by (simp add: e forwardPayload_def) (intro alone_one, simp add: push_forward_def)
    next
      case False
      let ?t = "string_of (TrimSpace p)"
      let ?s1 = "upd_cs r (\<lambda>cs. cs\<lparr>cs_connecting := True, cs_targetAddr := ?t\<rparr>) s"
      have "handler_step env e (PushForward c r (p # ps)) s = Some (PushForward c r ps, [Dialling c r ?t], ?s1)"
        using None False by (simp add: e push_forward_def Let_def)
      from alone_step [OF this alone_done] show ?thesis
        using None False assms by (simp add: forwardPayload_def dialAndPumpAsync_def Let_def no_gos)
    qed
  next
    case (Some h)
    let ?ok = "env_write_ok env (sv_io s) h p"
    let ?s1 = "s\<lparr>sv_io := sv_io s @ [NetWrite h p ?ok]\<rparr>"
    have pick: "handler_step env e (PushForward c r (p # ps)) s = Some (PushWrite c r h p ps, [], s)"
      using Some by (simp add: e push_forward_def)
    show ?thesis
    proof (cases ?ok)
      case True
      have "handler_step env e (PushWrite c r h p ps) s = Some (PushForward c r ps, [], ?s1)"
        using True by (simp add: e push_write_def Let_def)
      from alone_quiet [OF pick alone_one [OF this]] show ?thesis
        using Some True assms by (simp add: forwardPayload_def Let_def no_gos)
    next
      case False
      let ?s2 = "upd_cs r (\<lambda>cs. cs\<lparr>cs_outbound := None\<rparr>) ?s1"
      have "handler_step env e (PushWrite c r h p ps) s = Some (PushFailed c r ps, [], ?s1)"
        using False by (simp add: e push_write_def Let_def)
      moreover have "handler_step env e (PushFailed c r ps) ?s1 = Some (PushClose c r h ps, [], ?s2)"
        using Some by (simp add: e take_outbound_def)
      moreover have "handler_step env e (PushClose c r h ps) ?s2 = Some (PushForward c r ps, [], close_socket h ?s2)"
        by (simp add: e)
      ultimately have "alone env e (PushForward c r (p # ps)) s (PushForward c r ps) [] (close_socket h ?s2)"
        using pick by (blast intro: alone_quiet alone_done)
      then show ?thesis
        using Some False assms by (simp add: forwardPayload_def closeOutbound_def close_socket_def Let_def no_gos)
    qed
  qed
qed

lemma forward_all_alone:
  "sv_gos s = [] \<Longrightarrow> alone env e (PushForward c r ps) s (Replied (http_reply no_store 200 []))
    (map call_of_go (sv_gos (forward_all env c r ps s))) (without_gos (forward_all env c r ps s))"
proof (induction ps arbitrary: s)
  case Nil
  obtain now inp where e: "e = (now, inp)" by (cases e)
  have "handler_step env e (PushForward c r []) s = Some (Replied (http_reply no_store 200 []), [], s)"
    by (simp add: e push_forward_def)
  from alone_one [OF this] show ?case using Nil by (simp add: forward_all_def no_gos)
next
  case (Cons p ps)
  let ?s1 = "forwardPayload env c r p s"
  have "forward_all env c r (p # ps) s =
      (forward_all env c r ps (without_gos ?s1))\<lparr>sv_gos := sv_gos ?s1 @ sv_gos (forward_all env c r ps (without_gos ?s1))\<rparr>"
    using forward_all_gos [of env c r ps ?s1] by (simp add: forward_all_def Let_def)
  then show ?case
    using alone_trans [OF forward_one_alone [OF Cons.prems] Cons.IH [of "without_gos ?s1"]] by simp
qed

section \<open>Handlers\<close>

lemma upd_cs_twice:
  "r < length (sv_heap s) \<Longrightarrow>
   upd_cs r f (upd_cs r g s) = upd_cs r (\<lambda>cs. f (g cs)) s"
  by (simp add: upd_cs_def)

lemma decode_alone:
  "r < length (sv_heap s) \<Longrightarrow>
   alone env (now, inp) (PushDecode c r frames dl) s
     (PushForward c r (dl @ fst (decode_batch now frames (cs_sess (sv_heap s ! r))))) []
     (upd_cs r (\<lambda>cs. cs\<lparr>cs_sess := snd (decode_batch now frames (cs_sess (sv_heap s ! r)))\<rparr>) s)"
proof (induction frames arbitrary: s dl)
  case Nil
  have "handler_step env (now, inp) (PushDecode c r [] dl) s = Some (PushForward c r dl, [], s)"
    by (simp add: push_decode_def)
  moreover have "upd_cs r (\<lambda>cs. cs\<lparr>cs_sess := cs_sess (sv_heap s ! r)\<rparr>) s = s"
    using Nil by (cases s) (simp add: upd_cs_def list_update_same_conv)
  ultimately show ?case using alone_one by simp
next
  case (Cons w ws)
  obtain res sess where dec: "DecodeIncoming now w (cs_sess (sv_heap s ! r)) = (res, sess)"
    by (cases "DecodeIncoming now w (cs_sess (sv_heap s ! r))")
  let ?s1 = "upd_cs r (\<lambda>cs. cs\<lparr>cs_sess := sess\<rparr>) s"
  let ?dl = "case res of Inl e \<Rightarrow> [] | Inr result \<Rightarrow> if Accepted result then Ready result else []"
  have st: "handler_step env (now, inp) (PushDecode c r (w # ws) dl) s = Some (PushDecode c r ws (dl @ ?dl), [], ?s1)"
    by (simp add: push_decode_def dec)
  have "decode_batch now (w # ws) (cs_sess (sv_heap s ! r)) =
      (?dl @ fst (decode_batch now ws sess), snd (decode_batch now ws sess))"
    by (cases res) (simp_all add: dec split_beta)
  then show ?case
    using alone_quiet [OF st Cons.IH [of ?s1 "dl @ ?dl"]] Cons.prems by (simp add: upd_cs_twice)
qed

definition conns_ok :: "Server \<Rightarrow> bool" where
  "conns_ok s \<longleftrightarrow> (\<forall>c r. sv_conns s c = Some r \<longrightarrow> r < length (sv_heap s))"

lemma push_alone:
  assumes "sv_gos s = []" "conns_ok s"
  shows "alone env (now, inp) (PushCall rq) s (Replied (fst (handlePush env now rq s)))
    (map call_of_go (sv_gos (snd (handlePush env now rq s)))) (without_gos (snd (handlePush env now rq s)))"
proof (cases "\<exists>c r body. rq_method rq = ''POST'' \<and> connStateFromRequest rq s = Some (c, r) \<and>
    ReadAll_limited (8 * 2 ^ 20) (rq_body rq) (rq_broken rq) = Some body")
  case False
  then have "push_call rq s = Some (Replied (fst (handlePush env now rq s)), [], s)"
    "snd (handlePush env now rq s) = s"
    by (auto simp: push_call_def handlePush_def split: option.splits prod.splits)
  then show ?thesis using assms(1) alone_one [of env "(now, inp)" "PushCall rq" s] by (simp add: no_gos)
next
  case True
  then obtain c r body where h: "rq_method rq = ''POST''" "connStateFromRequest rq s = Some (c, r)"
    "ReadAll_limited (8 * 2 ^ 20) (rq_body rq) (rq_broken rq) = Some body"
    by blast
  obtain dl sess where dec: "decode_batch now (split_frames body) (cs_sess (sv_heap s ! r)) = (dl, sess)"
    by (cases "decode_batch now (split_frames body) (cs_sess (sv_heap s ! r))")
  let ?s1 = "upd_cs r (\<lambda>cs. cs\<lparr>cs_sess := sess\<rparr>) s"
  have r: "r < length (sv_heap s)"
    using connStateFromRequest_Some [OF h(2)] assms(2) by (simp add: conns_ok_def)
  have "handler_step env (now, inp) (PushCall rq) s = Some (PushDecode c r (split_frames body) [], [], s)"
    using h by (simp add: push_call_def)
  moreover have "alone env (now, inp) (PushDecode c r (split_frames body) []) s (PushForward c r dl) [] ?s1"
    using decode_alone [OF r, of env now inp c "split_frames body" "[]"] dec by simp
  moreover have "alone env (now, inp) (PushForward c r dl) ?s1 (Replied (http_reply no_store 200 []))
      (map call_of_go (sv_gos (forward_all env c r dl ?s1))) (without_gos (forward_all env c r dl ?s1))"
    using assms(1) by (intro forward_all_alone) simp
  ultimately have "alone env (now, inp) (PushCall rq) s (Replied (http_reply no_store 200 []))
      (map call_of_go (sv_gos (forward_all env c r dl ?s1))) (without_gos (forward_all env c r dl ?s1))"
    using alone_trans [of env "(now, inp)" _ _ _ "[]"] by (fastforce intro: alone_quiet)
  then show ?thesis using h dec by (simp add: handlePush_def)
qed

lemma pull_alone:
  assumes "sv_gos s = []"
  shows "alone env (now, inp) (PullCall rq) s (Replied (fst (handlePull rq s))) []
    (without_gos (snd (handlePull rq s)))"
proof (cases "rq_method rq = ''GET'' \<and> connStateFromRequest rq s \<noteq> None")
  case False
  then have "pull_step (PullCall rq) s = Some (Replied (fst (handlePull rq s)), [], s)" "snd (handlePull rq s) = s"
    by (auto simp: handlePull_def split: option.splits)
  then show ?thesis using assms alone_one [of env "(now, inp)" "PullCall rq" s] by (simp add: no_gos)
next
  case True
  then obtain c r where h: "connStateFromRequest rq s = Some (c, r)" by auto
  have "handler_step env (now, inp) (PullCall rq) s = Some (PullTake c, [], s)" using True h by simp
  moreover have "handler_step env (now, inp) (PullTake c) s =
      Some (Replied (fst (handlePull rq s)), [], snd (handlePull rq s))"
    using True h by (simp add: handlePull_def Let_def)
  ultimately have "alone env (now, inp) (PullCall rq) s (Replied (fst (handlePull rq s))) [] (snd (handlePull rq s))"
    by (blast intro: alone_quiet alone_one)
  moreover have "sv_gos (snd (handlePull rq s)) = []" using True h assms by (simp add: handlePull_def Let_def)
  ultimately show ?thesis by (simp add: no_gos)
qed

text \<open>The way an accepted handshake takes through \<open>handleOpen\<close>.\<close>

definition accepted_open ::
  "server_env \<Rightarrow> nanos \<Rightarrow> request \<Rightarrow> Server \<Rightarrow> (string \<times> HandshakePlaintext \<times> bytes \<times> TokenStore) option" where
  "accepted_open env now rq s =
     (let token = rq_header rq HeaderProvisionToken
      in if rq_method rq \<noteq> ''POST'' \<or> token = [] then None
         else case ReadAll_limited HandshakeWireSize (rq_body rq) (rq_broken rq) of
                None \<Rightarrow> None
              | Some body \<Rightarrow>
                  if length body \<noteq> HandshakeWireSize then None
                  else case DecodeHandshake (env_dh env) body (sv_StaticPriv s) HKDFInfo of
                         Inl e \<Rightarrow> None
                       | Inr (pt, key, _) \<Rightarrow>
                           (case TryBind now token (hp_DeviceID pt) (sv_Tokens s) of
                              (res, tokens) \<Rightarrow> if res = BindAccepted then Some (token, pt, key, tokens) else None))"

lemma open_refused:
  "accepted_open env now rq s = None \<Longrightarrow>
   open_call env now rq s = Some (Replied (fst (handleOpen env now rq s)), [], snd (handleOpen env now rq s)) \<and>
   sv_gos (snd (handleOpen env now rq s)) = sv_gos s"
  by (auto simp: accepted_open_def open_call_def handleOpen_def Let_def
      split: option.splits sum.splits prod.splits if_splits BindResult.splits)

lemma open_accepted:
  assumes "accepted_open env now rq s = Some (token, pt, key, tokens)"
  shows "open_call env now rq s = Some (OpenBound token pt key, [], s\<lparr>sv_Tokens := tokens\<rparr>)"
    "handleOpen env now rq s =
       (case open_conn now pt (s\<lparr>sv_Tokens := Touch now token tokens\<rparr>) of ((c, r, confirmed), s2) \<Rightarrow>
          (http_reply no_store 200 (put32 c @ [if confirmed then FlagKeyConfirmed else 0]),
           upd_cs r (\<lambda>cs. cs\<lparr>cs_sess := CompleteHandshake now c key (cs_sess cs)\<rparr>) s2))"
  using assms
  by (auto simp: accepted_open_def open_call_def handleOpen_def Let_def
      split: option.splits sum.splits prod.splits if_splits)

lemma open_conn_gos: "sv_gos (snd (open_conn now pt s)) = sv_gos s"
  by (simp add: open_conn_def Let_def split: option.split)

lemma open_alone:
  assumes "sv_gos s = []"
  shows "alone env (now, inp) (OpenCall rq) s (Replied (fst (handleOpen env now rq s))) []
    (without_gos (snd (handleOpen env now rq s)))"
proof (cases "accepted_open env now rq s")
  case None
  then have "handler_step env (now, inp) (OpenCall rq) s =
      Some (Replied (fst (handleOpen env now rq s)), [], snd (handleOpen env now rq s))"
    using open_refused by simp
  from alone_one [OF this] show ?thesis using open_refused [OF None] assms by (simp add: no_gos)
next
  case (Some a)
  obtain token pt key tokens where a: "a = (token, pt, key, tokens)" by (cases a)
  note acc = open_accepted [OF Some [unfolded a]]
  let ?s1 = "s\<lparr>sv_Tokens := tokens\<rparr>" and ?s2 = "s\<lparr>sv_Tokens := Touch now token tokens\<rparr>"
  obtain c r confirmed s3 where conn: "open_conn now pt ?s2 = ((c, r, confirmed), s3)"
    by (cases "open_conn now pt ?s2") auto
  have "handler_step env (now, inp) (OpenCall rq) s = Some (OpenBound token pt key, [], ?s1)"
    using acc(1) by simp
  moreover have "handler_step env (now, inp) (OpenBound token pt key) ?s1 = Some (OpenTouched pt key, [], ?s2)"
    by simp
  moreover have "handler_step env (now, inp) (OpenTouched pt key) ?s2 = Some (OpenTable c r confirmed key, [], s3)"
    using conn by simp
  moreover have "handler_step env (now, inp) (OpenTable c r confirmed key) s3 =
      Some (Replied (fst (handleOpen env now rq s)), [], snd (handleOpen env now rq s))"
    using acc(2) conn by simp
  ultimately have "alone env (now, inp) (OpenCall rq) s (Replied (fst (handleOpen env now rq s))) []
      (snd (handleOpen env now rq s))"
    by (meson alone_quiet alone_one)
  moreover have "sv_gos (snd (handleOpen env now rq s)) = []"
    using acc(2) conn open_conn_gos [of now pt ?s2] assms by simp
  ultimately show ?thesis by (simp add: no_gos)
qed

section \<open>Goroutines\<close>

lemma queue_alone:
  "alone env e (QueueEncode c r p k) s (queue_return c r k) [] (queueOutgoing c r p s)"
proof -
  obtain now inp where e: "e = (now, inp)" by (cases e)
  obtain res sess where enc: "EncodeOutgoing p 0 (cs_sess (sv_heap s ! r)) = (res, sess)"
    by (cases "EncodeOutgoing p 0 (cs_sess (sv_heap s ! r))")
  let ?s1 = "upd_cs r (\<lambda>cs. cs\<lparr>cs_sess := sess\<rparr>) s"
  show ?thesis
  proof (cases res)
    case (Inl err)
    have "handler_step env e (QueueEncode c r p k) s = Some (queue_return c r k, [], ?s1)"
      using enc Inl by (simp add: e)
    from alone_one [OF this] show ?thesis using enc Inl by (simp add: queueOutgoing_def Let_def)
  next
    case (Inr wire)
    have "handler_step env e (QueueEncode c r p k) s = Some (QueueAppend c r wire k, [], ?s1)"
      using enc Inr by (simp add: e)
    moreover have "handler_step env e (QueueAppend c r wire k) ?s1 =
        Some (queue_return c r k, [], queueOutgoing c r p s)"
      using enc Inr by (simp add: e queueOutgoing_def Let_def)
    ultimately show ?thesis by (blast intro: alone_quiet alone_one)
  qed
qed

lemma close_alone: "alone env e (PumpEnd c r) s Finished [] (closeOutbound c r s)"
proof -
  obtain now inp where e: "e = (now, inp)" by (cases e)
  let ?s1 = "upd_cs r (\<lambda>cs. cs\<lparr>cs_outbound := None\<rparr>) s"
  show ?thesis
  proof (cases "cs_outbound (sv_heap s ! r)")
    case None
    have "handler_step env e (PumpEnd c r) s = Some (Finished, [], ?s1)"
      using None by (simp add: e take_outbound_def)
    from alone_one [OF this] show ?thesis using None by (simp add: closeOutbound_def Let_def)
  next
    case (Some h)
    have "handler_step env e (PumpEnd c r) s = Some (PumpClose h, [], ?s1)"
      using Some by (simp add: e take_outbound_def)
    moreover have "handler_step env e (PumpClose h) ?s1 = Some (Finished, [], closeOutbound c r s)"
      using Some by (simp add: e closeOutbound_def close_socket_def Let_def)
    ultimately show ?thesis by (blast intro: alone_quiet alone_one)
  qed
qed

definition after_go :: "goroutine option \<Rightarrow> handler" where
  "after_go g = (case g of None \<Rightarrow> Finished | Some g \<Rightarrow> call_of_go g)"

lemma dial_alone:
  "alone env (now, inp) (Dialling c r target) s (after_go (snd (go_step env (GDial c r target) inp s))) []
     (fst (go_step env (GDial c r target) inp s))"
proof (cases "validateTarget target s")
  case (Inl err)
  let ?p = "bytes_of (''ERROR: '' @ target_error_text (env_quote env) err)"
  have "handler_step env (now, inp) (Dialling c r target) s = Some (QueueEncode c r ?p ThenFail, [], s)"
    using Inl by simp
  from alone_quiet [OF this queue_alone] show ?thesis using Inl by (simp add: after_go_def)
next
  case (Inr u)
  show ?thesis
  proof (cases inp)
    case DialOk
    let ?s1 = "s\<lparr>sv_dialled := sv_dialled s + 1\<rparr>"
    let ?s2 = "upd_cs r (\<lambda>cs. cs\<lparr>cs_outbound := Some (sv_dialled s), cs_connecting := False\<rparr>) ?s1"
    have "handler_step env (now, inp) (Dialling c r target) s = Some (Dialled c r (sv_dialled s), [], ?s1)"
      using Inr DialOk by simp
    moreover have "handler_step env (now, inp) (Dialled c r (sv_dialled s)) ?s1 =
        Some (QueueEncode c r (bytes_of ''OK CONNECTED'') (ThenPump (sv_dialled s)), [], ?s2)"
      by simp
    ultimately have "alone env (now, inp) (Dialling c r target) s
        (QueueEncode c r (bytes_of ''OK CONNECTED'') (ThenPump (sv_dialled s))) [] ?s2"
      by (blast intro: alone_quiet alone_one)
    moreover have "?s2 = (upd_cs r (\<lambda>cs. cs\<lparr>cs_outbound := Some (sv_dialled s), cs_connecting := False\<rparr>) s)
        \<lparr>sv_dialled := sv_dialled s + 1\<rparr>"
      by (cases s) (simp add: upd_cs_def)
    ultimately show ?thesis using Inr DialOk by (simp add: after_go_def Let_def)
  next
    case (DialError why)
    have "handler_step env (now, inp) (Dialling c r target) s =
        Some (QueueEncode c r (bytes_of (''ERROR: dial failed: '' @ why)) ThenFail, [], s)"
      using Inr DialError by simp
    from alone_quiet [OF this queue_alone] show ?thesis using Inr DialError by (simp add: after_go_def)
  next
    case (ReadResult chunk err)
    then show ?thesis using Inr by (simp add: after_go_def alone_done)
  qed
qed

lemma pump_alone:
  "alone env (now, ReadResult chunk err) (Pumping c r h) s
     (after_go (snd (go_step env (GPump c r h) (ReadResult chunk err) s))) []
     (fst (go_step env (GPump c r h) (ReadResult chunk err) s))"
proof -
  let ?e = "(now, ReadResult chunk err)" and ?k = "if err then ThenEnd else ThenPump h"
  let ?s1 = "if length chunk > 0 then queueOutgoing c r chunk s else s"
  have run: "alone env ?e (Pumping c r h) s (queue_return c r ?k) [] ?s1"
  proof (cases "length chunk > 0")
    case True
    then have "handler_step env ?e (Pumping c r h) s = Some (QueueEncode c r chunk ?k, [], s)" by simp
    from alone_quiet [OF this queue_alone] show ?thesis using True by simp
  next
    case False
    then have "handler_step env ?e (Pumping c r h) s = Some (queue_return c r ?k, [], s)" by simp
    from alone_one [OF this] show ?thesis using False by simp
  qed
  show ?thesis
  proof (cases err)
    case True
    then have "alone env ?e (Pumping c r h) s (PumpEnd c r) [] ?s1" using run by simp
    from alone_trans [OF this close_alone] show ?thesis using True by (simp add: after_go_def Let_def)
  next
    case False
    then show ?thesis using run by (simp add: after_go_def Let_def)
  qed
qed

lemma go_alone:
  "alone env (now, inp) (call_of_go g) s (after_go (snd (go_step env g inp s))) [] (fst (go_step env g inp s))"
proof (cases g)
  case (GDial c r target)
  then show ?thesis using dial_alone by simp
next
  case (GFailed c r)
  then show ?thesis by (simp add: after_go_def alone_one)
next
  case (GConnected c r h)
  then show ?thesis
    using queue_alone [of env "(now, inp)" c r "bytes_of ''OK CONNECTED''" "ThenPump h" s] by (simp add: after_go_def)
next
  case (GPump c r h)
  then show ?thesis
    using pump_alone by (cases inp) (simp_all add: after_go_def alone_done)
qed

lemma request_alone:
  assumes "sv_gos s = []" "conns_ok s"
  shows "alone env (now, inp) (arrival rq) s (Replied (fst (Handler env now rq s)))
    (map call_of_go (sv_gos (snd (Handler env now rq s)))) (without_gos (snd (Handler env now rq s)))"
proof -
  consider "rq_path rq = ''/api/v1/open''" | "rq_path rq = ''/api/v1/push''" | "rq_path rq = ''/api/v1/pull''"
    | "rq_path rq \<noteq> ''/api/v1/open''" "rq_path rq \<noteq> ''/api/v1/push''" "rq_path rq \<noteq> ''/api/v1/pull''"
    by blast
  then show ?thesis
  proof cases
    case 1
    have "sv_gos (snd (handleOpen env now rq s)) = []"
      using open_refused [of env now rq s] open_accepted(2) [of env now rq s] open_conn_gos assms(1)
      by (cases "accepted_open env now rq s") (auto split: prod.splits simp: prod_eq_iff)
    then show ?thesis using open_alone [OF assms(1)] 1 by (simp add: arrival_def Handler_def)
  next
    case 2
    then show ?thesis using push_alone [OF assms] by (simp add: arrival_def Handler_def)
  next
    case 3
    have "sv_gos (snd (handlePull rq s)) = []"
      using assms(1) by (auto simp: handlePull_def Let_def split: option.split)
    then show ?thesis using pull_alone [OF assms(1)] 3 by (simp add: arrival_def Handler_def)
  next
    case 4
    then show ?thesis using assms(1) by (simp add: arrival_def Handler_def alone_done no_gos)
  qed
qed

section \<open>Properties\<close>

text \<open>A request whose handler nothing interrupts is answered, and changes the server, as the handler
  does in one step, and starts the same goroutines; a goroutine that nothing interrupts does in its
  steps what its round does in one. So every run of the model with one step a handler is one of the
  runs of the interleaved model.\<close>

theorem uninterrupted_handlers_are_atomic:
  assumes "sv_gos s = []" "conns_ok s"
  shows "(\<exists>n. run_alone (handler_step env) (replicate n (now, inp)) (arrival rq) s =
      Some (Replied (fst (Handler env now rq s)), map call_of_go (sv_gos (snd (Handler env now rq s))),
        (snd (Handler env now rq s))\<lparr>sv_gos := []\<rparr>)) \<and>
    (\<exists>n. run_alone (handler_step env) (replicate n (now, inp)) (call_of_go g) s =
      Some (after_go (snd (go_step env g inp s)), [], fst (go_step env g inp s)))"
  using request_alone [OF assms] go_alone by (auto simp: alone_def)

theorem uninterrupted_handlers_are_atomic_witness:
  "\<exists>n s'. run_alone (handler_step sample_env) (replicate n (0, DialOk))
      (arrival \<lparr>rq_method = ''GET'', rq_path = ''/api/v1/pull'', rq_header = (\<lambda>_. ''00000001''),
        rq_body = [], rq_broken = False\<rparr>) ((sample_server None [])\<lparr>sv_outbox := (\<lambda>_. [[1], [2, 3]])\<rparr>) =
    Some (Replied (http_reply no_store 200 [0, 1, 1, 0, 2, 2, 3]), [], s') \<and> sv_outbox s' 1 = []"
proof -
  let ?s = "(sample_server None [])\<lparr>sv_outbox := (\<lambda>_. [[1], [2, 3]])\<rparr>"
  let ?rq = "\<lparr>rq_method = ''GET'', rq_path = ''/api/v1/pull'', rq_header = (\<lambda>_. ''00000001''),
        rq_body = [], rq_broken = False\<rparr>"
  have "''00000001'' = hex_EncodeToString (put32 1)" by code_simp
  then have conn: "connStateFromRequest ?rq ?s = Some (1, 0)"
    by (subst connStateFromRequest_hex [where c = 1]) (simp_all add: sample_server_def)
  have "sv_gos ?s = []" "conns_ok ?s" by (simp_all add: sample_server_def server_New_def conns_ok_def)
  note atomic = uninterrupted_handlers_are_atomic [OF this, of sample_env 0 DialOk ?rq, THEN conjunct1]
  have "Handler sample_env 0 ?rq ?s = (http_reply no_store 200 [0, 1, 1, 0, 2, 2, 3], ?s\<lparr>sv_outbox := (sv_outbox ?s)(1 := [])\<rparr>)"
    using conn by (simp add: Handler_def handlePull_def Let_def join_frames_def put_frame_def put16_def)
  moreover have "sv_gos (?s\<lparr>sv_outbox := (sv_outbox ?s)(1 := [])\<rparr>) = []"
    by (simp add: sample_server_def server_New_def)
  ultimately obtain n where "run_alone (handler_step sample_env) (replicate n (0, DialOk)) (arrival ?rq) ?s =
      Some (Replied (http_reply no_store 200 [0, 1, 1, 0, 2, 2, 3]), [],
        (?s\<lparr>sv_outbox := (sv_outbox ?s)(1 := [])\<rparr>)\<lparr>sv_gos := []\<rparr>)"
    using atomic by auto
  then show ?thesis by (intro exI conjI) (assumption, simp)
qed

end
