(* ===== verification/ServerOrder.thy ===== *)
theory ServerOrder
  imports ServerAlone "HOL-Library.Sublist"
begin

text \<open>
  The order in which \<open>handlePush\<close> writes to the target. Payloads are put in order by the reorder
  buffer, but written after all locks were released: one push writes its payloads in order whatever
  else runs, two pushes of one connection that overlap may write in the wrong order.
\<close>

section \<open>What decoding depends on\<close>

text \<open>The receiving half of a session; the time is only noted.\<close>

definition recv_half :: "Session \<Rightarrow> bytes \<times> u32 \<times> ReplayWindow \<times> ReorderBuffer" where
  "recv_half s = (s_SessionKey s, s_ConnectionID s, s_replay s, s_reorder s)"

lemma recv_half_decode:
  assumes "recv_half a = recv_half b"
  shows "fst (DecodeIncoming t1 w a) = fst (DecodeIncoming t2 w b)"
    "recv_half (snd (DecodeIncoming t1 w a)) = recv_half (snd (DecodeIncoming t2 w b))"
  using assms
  by (auto simp: recv_half_def DecodeIncoming_def Let_def split: sum.splits prod.splits bool.splits)

lemma recv_half_batch:
  "recv_half a = recv_half b \<Longrightarrow> fst (decode_batch t1 ws a) = fst (decode_batch t2 ws b)"
proof (induction ws arbitrary: a b)
  case (Cons w ws)
  obtain ra a1 where a: "DecodeIncoming t1 w a = (ra, a1)" by (cases "DecodeIncoming t1 w a")
  obtain rb b1 where b: "DecodeIncoming t2 w b = (rb, b1)" by (cases "DecodeIncoming t2 w b")
  have "ra = rb" "recv_half a1 = recv_half b1"
    using recv_half_decode [OF Cons.prems, of t1 w t2] a b by simp_all
  then show ?case using Cons.IH [of a1 b1] a b by (auto simp: split_beta split: sum.split)
qed simp

lemma recv_half_encode: "recv_half (snd (EncodeOutgoing p fl s)) = recv_half s"
  by (simp add: EncodeOutgoing_eq advance_def recv_half_def)

section \<open>Bystanders\<close>

text \<open>The connection id that a request names.\<close>

definition named_conn :: "request \<Rightarrow> u32 option" where
  "named_conn rq =
     (let raw = rq_header rq HeaderConnectionID
      in if length raw \<noteq> 8 then None else map_option get32 (hex_DecodeString raw))"

lemma connStateFromRequest_named:
  "connStateFromRequest rq s = Some (c, r) \<Longrightarrow> named_conn rq = Some c"
  by (auto simp: connStateFromRequest_def named_conn_def Let_def split: if_splits option.splits)

text \<open>The connection id in the handshake of a request.\<close>

definition handshake_conn :: "server_env \<Rightarrow> bytes \<Rightarrow> request \<Rightarrow> u32 option" where
  "handshake_conn env priv rq =
     (case ReadAll_limited HandshakeWireSize (rq_body rq) (rq_broken rq) of
        None \<Rightarrow> None
      | Some body \<Rightarrow>
          (case DecodeHandshake (env_dh env) body priv HKDFInfo of
             Inl e \<Rightarrow> None | Inr (pt, key, _) \<Rightarrow> Some (hp_ConnectionID pt)))"

text \<open>
  A call that is no push of the connection \<open>c\<close> (number \<open>r\<close>, socket \<open>h\<close>), does not renew its key and
  does not close its socket. The reader of the connection is one.
\<close>

fun bystander :: "server_env \<Rightarrow> bytes \<Rightarrow> u32 \<Rightarrow> nat \<Rightarrow> nat \<Rightarrow> handler \<Rightarrow> bool" where
  "bystander env priv c r h (PushCall rq) = (named_conn rq \<noteq> Some c)"
| "bystander env priv c r h (PushDecode c' q fs dl) = (q \<noteq> r)"
| "bystander env priv c r h (PushForward c' q ps) = (q \<noteq> r)"
| "bystander env priv c r h (PushWrite c' q k p ps) = (q \<noteq> r \<and> k \<noteq> h)"
| "bystander env priv c r h (PushFailed c' q ps) = (q \<noteq> r)"
| "bystander env priv c r h (PushClose c' q k ps) = (q \<noteq> r \<and> k \<noteq> h)"
| "bystander env priv c r h (OpenCall rq) = (handshake_conn env priv rq \<noteq> Some c)"
| "bystander env priv c r h (OpenBound tk pt key) = (hp_ConnectionID pt \<noteq> c)"
| "bystander env priv c r h (OpenTouched pt key) = (hp_ConnectionID pt \<noteq> c)"
| "bystander env priv c r h (OpenTable c' q cf key) = (q \<noteq> r)"
| "bystander env priv c r h (Dialling c' q tg) = (q \<noteq> r)"
| "bystander env priv c r h (Dialled c' q k) = (q \<noteq> r \<and> k \<noteq> h)"
| "bystander env priv c r h (QueueEncode c' q p k) = (q = r \<longrightarrow> k \<noteq> ThenFail \<and> k \<noteq> ThenEnd)"
| "bystander env priv c r h (QueueAppend c' q w k) = (q = r \<longrightarrow> k \<noteq> ThenFail \<and> k \<noteq> ThenEnd)"
| "bystander env priv c r h (DialFailed c' q) = (q \<noteq> r)"
| "bystander env priv c r h (PumpEnd c' q) = (q \<noteq> r)"
| "bystander env priv c r h (PumpClose k) = (k \<noteq> h)"
| "bystander env priv c r h _ = True"

text \<open>The steps as long as the socket of \<open>r\<close> gives no read error.\<close>

definition calm_step :: "server_env \<Rightarrow> nat \<Rightarrow> (nanos \<times> go_input, handler, Server) thread_fun" where
  "calm_step env r = (\<lambda>e t s.
     case (snd e, t) of
       (ReadResult chunk True, Pumping c q h) \<Rightarrow> if q = r then None else handler_step env e t s
     | _ \<Rightarrow> handler_step env e t s)"

lemma calm_step_handler: "calm_step env r e t s = Some m \<Longrightarrow> handler_step env e t s = Some m"
  by (auto simp: calm_step_def split: handler.splits go_input.splits bool.splits if_splits)

text \<open>What the push relies on: its connection has the socket \<open>h\<close>, and no other has.\<close>

definition stable :: "bytes \<Rightarrow> u32 \<Rightarrow> nat \<Rightarrow> nat \<Rightarrow> Server \<Rightarrow> bool" where
  "stable priv c r h s \<longleftrightarrow> sv_StaticPriv s = priv \<and> r < length (sv_heap s) \<and> h < sv_dialled s \<and>
     cs_outbound (sv_heap s ! r) = Some h \<and>
     (\<forall>q < length (sv_heap s). cs_outbound (sv_heap s ! q) = Some h \<longrightarrow> q = r) \<and>
     (\<forall>c' q. sv_conns s c' = Some q \<longrightarrow> q < length (sv_heap s) \<and> (q = r \<longrightarrow> c' = c))"

text \<open>What it sees of a step.\<close>

definition undisturbed :: "nat \<Rightarrow> nat \<Rightarrow> Server \<Rightarrow> Server \<Rightarrow> bool" where
  "undisturbed r h s s' \<longleftrightarrow> recv_half (cs_sess (sv_heap s' ! r)) = recv_half (cs_sess (sv_heap s ! r)) \<and>
     written_to h (sv_io s') = written_to h (sv_io s)"

definition refs_ok :: "Server \<Rightarrow> handler \<Rightarrow> bool" where
  "refs_ok s t \<longleftrightarrow> (\<forall>q \<in> set (refs_of t). q < length (sv_heap s))"

definition harmless ::
  "server_env \<Rightarrow> bytes \<Rightarrow> u32 \<Rightarrow> nat \<Rightarrow> nat \<Rightarrow> Server \<Rightarrow> handler \<Rightarrow> handler list \<Rightarrow> Server \<Rightarrow> bool" where
  "harmless env priv c r h s t' new s' \<longleftrightarrow> stable priv c r h s' \<and> undisturbed r h s s' \<and>
     length (sv_heap s) \<le> length (sv_heap s') \<and>
     (\<forall>u \<in> set (t' # new). bystander env priv c r h u \<and> refs_ok s' u)"

lemma refs_ok_mono: "refs_ok s t \<Longrightarrow> length (sv_heap s) \<le> length (sv_heap s') \<Longrightarrow> refs_ok s' t"
  unfolding refs_ok_def by (meson order_less_le_trans)

lemma harmless_same:
  assumes "stable priv c r h s" "\<forall>u \<in> set (t' # new). bystander env priv c r h u \<and> refs_ok s u"
    "sv_StaticPriv s' = sv_StaticPriv s" "sv_heap s' = sv_heap s" "sv_conns s' = sv_conns s"
    "sv_dialled s \<le> sv_dialled s'" "written_to h (sv_io s') = written_to h (sv_io s)"
  shows "harmless env priv c r h s t' new s'"
proof -
  have "stable priv c r h s'" using assms(1) unfolding stable_def assms(3-5) using assms(6) by simp
  moreover have "undisturbed r h s s'" using assms(4,7) by (simp add: undisturbed_def)
  ultimately show ?thesis using assms(2,4) by (simp add: harmless_def refs_ok_def)
qed

lemma harmless_upd:
  assumes st: "stable priv c r h s" and q: "q < length (sv_heap s)"
    and u: "\<forall>u \<in> set (t' # new). bystander env priv c r h u \<and> refs_ok s u"
    and other: "q \<noteq> r \<Longrightarrow> cs_outbound (f (sv_heap s ! q)) \<noteq> Some h"
    and own: "q = r \<Longrightarrow> cs_outbound (f (sv_heap s ! r)) = cs_outbound (sv_heap s ! r) \<and>
      recv_half (cs_sess (f (sv_heap s ! r))) = recv_half (cs_sess (sv_heap s ! r))"
  shows "harmless env priv c r h s t' new (upd_cs q f s)"
proof -
  let ?s' = "upd_cs q f s"
  have at: "sv_heap ?s' ! p = (if p = q then f (sv_heap s ! q) else sv_heap s ! p)" for p
    using q by (cases "p = q") simp_all
  have "cs_outbound (sv_heap ?s' ! r) = Some h" using st own at [of r] by (cases "q = r") (auto simp: stable_def)
  moreover have "p = r" if "p < length (sv_heap s)" "cs_outbound (sv_heap ?s' ! p) = Some h" for p
  proof (cases "p = q")
    case True
    then show ?thesis using that(2) other at [of p] by (metis (full_types))
  next
    case False
    then have "cs_outbound (sv_heap s ! p) = Some h" using that(2) at [of p] by simp
    then show ?thesis using st that(1) unfolding stable_def by blast
  qed
  ultimately have "stable priv c r h ?s'" using st by (simp add: stable_def)
  moreover have "undisturbed r h s ?s'"
    using own at [of r] by (cases "q = r") (simp_all add: undisturbed_def)
  ultimately show ?thesis using u by (simp add: harmless_def refs_ok_def)
qed

lemma stable_other: "stable priv c r h s \<Longrightarrow> q < length (sv_heap s) \<Longrightarrow> q \<noteq> r \<Longrightarrow> cs_outbound (sv_heap s ! q) \<noteq> Some h"
  by (auto simp: stable_def)

lemma harmless_push_call:
  assumes "stable priv c r h s" "bystander env priv c r h (PushCall rq)" "push_call rq s = Some (t', new, s')"
  shows "harmless env priv c r h s t' new s'"
proof -
  have "q \<noteq> r \<and> q < length (sv_heap s)" if "connStateFromRequest rq s = Some (c', q)" for c' q
    using connStateFromRequest_named [OF that] connStateFromRequest_Some [OF that] assms(1,2)
    by (auto simp: stable_def)
  then show ?thesis
    using assms
    by (auto simp: push_call_def refs_ok_def split: if_splits option.splits intro!: harmless_same)
qed

lemma harmless_push_decode:
  assumes "stable priv c r h s" "bystander env priv c r h (PushDecode c' q fs dl)"
    "refs_ok s (PushDecode c' q fs dl)" "push_decode now c' q fs dl s = Some (t', new, s')"
  shows "harmless env priv c r h s t' new s'"
  using assms stable_other [OF assms(1), of q]
  by (auto simp: push_decode_def refs_ok_def split: list.splits prod.splits
      intro!: harmless_same harmless_upd)

lemma harmless_push_forward:
  assumes "stable priv c r h s" "bystander env priv c r h (PushForward c' q ps)"
    "refs_ok s (PushForward c' q ps)" "push_forward c' q ps s = Some (t', new, s')"
  shows "harmless env priv c r h s t' new s'"
  using assms stable_other [OF assms(1), of q]
  by (auto simp: push_forward_def refs_ok_def Let_def split: list.splits option.splits if_splits
      intro!: harmless_same harmless_upd)

lemma harmless_push_write:
  assumes "stable priv c r h s" "bystander env priv c r h (PushWrite c' q k p ps)"
    "refs_ok s (PushWrite c' q k p ps)" "push_write env c' q k p ps s = Some (t', new, s')"
  shows "harmless env priv c r h s t' new s'"
  using assms by (auto simp: push_write_def refs_ok_def Let_def intro!: harmless_same)

lemma harmless_close:
  assumes "stable priv c r h s" "bystander env priv c r h t" "refs_ok s t" "close_step t s = Some (t', new, s')"
  shows "harmless env priv c r h s t' new s'"
  using assms stable_other [OF assms(1)]
  by (cases t) (auto simp: take_outbound_def close_socket_def refs_ok_def split: option.splits
      intro!: harmless_same harmless_upd)

lemma harmless_pull:
  assumes "stable priv c r h s" "pull_step t s = Some (t', new, s')"
  shows "harmless env priv c r h s t' new s'"
  using assms by (cases t) (auto simp: refs_ok_def split: if_splits option.splits intro!: harmless_same)

lemma harmless_open_call:
  assumes "stable priv c r h s" "bystander env priv c r h (OpenCall rq)" "open_call env now rq s = Some (t', new, s')"
  shows "harmless env priv c r h s t' new s'"
proof -
  have "sv_StaticPriv s = priv" using assms(1) by (simp add: stable_def)
  then show ?thesis
    using assms
    by (auto simp: open_call_def handshake_conn_def refs_ok_def Let_def
        split: if_splits option.splits sum.splits prod.splits intro!: harmless_same)
qed

lemma stable_open_conn:
  assumes st: "stable priv c r h s" and pt: "hp_ConnectionID pt \<noteq> c"
    and conn: "open_conn now pt s = ((c', q, cf), s')"
  shows "stable priv c r h s' \<and> undisturbed r h s s' \<and> length (sv_heap s) \<le> length (sv_heap s') \<and>
    q \<noteq> r \<and> q < length (sv_heap s')"
proof (cases "find_conn pt s")
  case (Some q')
  then have "sv_conns s (hp_ConnectionID pt) = Some q'"
    by (auto simp: find_conn_def split: if_splits option.splits)
  then have "q' \<noteq> r" "q' < length (sv_heap s)" using st pt by (auto simp: stable_def)
  then show ?thesis using Some conn st by (auto simp: open_conn_def undisturbed_def)
next
  case None
  let ?cs = "\<lparr>cs_sess = NewSession now (hp_DeviceID pt), cs_outbound = None, cs_connecting = False, cs_targetAddr = []\<rparr>"
  have eq: "s' = s\<lparr>sv_nextConnID := sv_nextConnID s + 1, sv_heap := sv_heap s @ [?cs],
      sv_conns := (sv_conns s)(sv_nextConnID s \<mapsto> length (sv_heap s))\<rparr>" "q = length (sv_heap s)"
    using None conn by (auto simp: open_conn_def Let_def)
  have at: "sv_heap s' ! p = (if p < length (sv_heap s) then sv_heap s ! p else ?cs)" if "p < length (sv_heap s')" for p
    using that by (auto simp: eq nth_append less_Suc_eq)
  have "stable priv c r h s'"
    using st unfolding stable_def by (auto simp: eq nth_append less_Suc_eq)
  moreover have "undisturbed r h s s'" using st by (auto simp: undisturbed_def eq nth_append stable_def)
  ultimately show ?thesis using st eq by (auto simp: stable_def)
qed

lemma harmless_open_step:
  assumes st: "stable priv c r h s" and bys: "bystander env priv c r h t" and refs: "refs_ok s t"
    and step: "open_step now t s = Some (t', new, s')"
  shows "harmless env priv c r h s t' new s'"
proof (cases t)
  case (OpenBound tk pt key)
  then show ?thesis using st bys step by (auto simp: refs_ok_def intro!: harmless_same)
next
  case (OpenTouched pt key)
  obtain c' q cf s1 where conn: "open_conn now pt s = ((c', q, cf), s1)"
    by (cases "open_conn now pt s") auto
  then have "t' = OpenTable c' q cf key" "new = []" "s' = s1" using step OpenTouched by auto
  then show ?thesis
    using stable_open_conn [OF st _ conn] bys OpenTouched by (auto simp: harmless_def refs_ok_def)
next
  case (OpenTable c' q cf key)
  then show ?thesis
    using st bys refs step stable_other [OF st, of q] by (auto simp: refs_ok_def intro!: harmless_upd)
qed (use step in auto)

lemma harmless_dial:
  assumes st: "stable priv c r h s" and bys: "bystander env priv c r h t" and refs: "refs_ok s t"
    and step: "dial_step env inp t s = Some (t', new, s')"
  shows "harmless env priv c r h s t' new s'"
proof (cases t)
  case (Dialling c' q tg)
  have "h \<noteq> sv_dialled s" using st by (simp add: stable_def)
  then show ?thesis
    using st bys refs step Dialling
    by (auto simp: refs_ok_def split: sum.splits go_input.splits intro!: harmless_same)
next
  case (Dialled c' q k)
  then show ?thesis
    using st bys refs step by (auto simp: refs_ok_def intro!: harmless_upd)
next
  case (DialFailed c' q)
  then show ?thesis
    using st bys refs step stable_other [OF st, of q] by (auto simp: refs_ok_def intro!: harmless_upd)
qed (use step in auto)

lemma harmless_queue:
  assumes st: "stable priv c r h s" and bys: "bystander env priv c r h t" and refs: "refs_ok s t"
    and step: "queue_step t s = Some (t', new, s')"
  shows "harmless env priv c r h s t' new s'"
proof (cases t)
  case (QueueEncode c' q p k)
  obtain res sess where enc: "EncodeOutgoing p 0 (cs_sess (sv_heap s ! q)) = (res, sess)"
    by (cases "EncodeOutgoing p 0 (cs_sess (sv_heap s ! q))")
  have "recv_half sess = recv_half (cs_sess (sv_heap s ! q))"
    using recv_half_encode [of p 0 "cs_sess (sv_heap s ! q)"] enc by simp
  moreover have "bystander env priv c r h t' \<and> refs_ok s t'"
    using bys refs step QueueEncode enc by (cases res; cases k) (auto simp: refs_ok_def)
  ultimately show ?thesis
    using st refs step QueueEncode enc stable_other [OF st, of q]
    by (auto simp: refs_ok_def intro!: harmless_upd)
next
  case (QueueAppend c' q w k)
  then show ?thesis
    using st bys refs step by (cases k) (auto simp: refs_ok_def intro!: harmless_same)
qed (use step in auto)

lemma harmless_pump:
  assumes st: "stable priv c r h s" and refs: "refs_ok s t"
    and calm: "\<And>c' chunk k. t = Pumping c' r k \<Longrightarrow> inp = ReadResult chunk True \<Longrightarrow> False"
    and step: "pump_step inp t s = Some (t', new, s')"
  shows "harmless env priv c r h s t' new s'"
proof (cases t)
  case (Pumping c' q k)
  show ?thesis
  proof (cases inp)
    case (ReadResult chunk err)
    then have "err \<Longrightarrow> q \<noteq> r" using calm Pumping by blast
    then show ?thesis
      using st refs step Pumping ReadResult by (auto simp: refs_ok_def intro!: harmless_same)
  qed (use step Pumping in auto)
qed (use step in \<open>cases inp; auto\<close>)+

lemma harmless_step:
  assumes "stable priv c r h s" "bystander env priv c r h t" "refs_ok s t" "calm_step env r e t s = Some (t', new, s')"
  shows "harmless env priv c r h s t' new s'"
proof -
  obtain now inp where e: "e = (now, inp)" by (cases e)
  have step: "handler_step env (now, inp) t s = Some (t', new, s')"
    using calm_step_handler [OF assms(4)] e by simp
  have calm: "False" if "t = Pumping c' r k" "inp = ReadResult chunk True" for c' k chunk
    using assms(4) e that by (simp add: calm_step_def)
  from step show ?thesis
  proof (cases rule: handler_step_cases)
    case push
    then show ?thesis using harmless_push_call assms(1,2) by simp
  next
    case decode
    then show ?thesis using harmless_push_decode assms(1-3) by simp
  next
    case forward
    then show ?thesis using harmless_push_forward assms(1-3) by simp
  next
    case writing
    then show ?thesis using harmless_push_write assms(1-3) by simp
  next
    case handshaking
    then show ?thesis using harmless_open_call assms(1,2) by simp
  next
    case pump
    then show ?thesis using harmless_pump assms(1,3) calm by blast
  qed (use assms(1-3) in \<open>blast intro: harmless_close harmless_pull harmless_open_step harmless_dial
      harmless_queue\<close>)+
qed

section \<open>One push among bystanders\<close>

text \<open>
  What is written so far and what the push still has to write are together \<open>out\<close>, from the bytes
  \<open>w\<close> before the push on.
\<close>

fun push_point :: "u32 \<Rightarrow> nat \<Rightarrow> nat \<Rightarrow> bytes \<Rightarrow> bytes list \<Rightarrow> Server \<Rightarrow> handler \<Rightarrow> bool" where
  "push_point c r h w out s (PushDecode c' q fs dl) =
     (c' = c \<and> q = r \<and> dl @ fst (decode_batch 0 fs (cs_sess (sv_heap s ! r))) = out \<and> written_to h (sv_io s) = w)"
| "push_point c r h w out s (PushForward c' q ps) =
     (c' = c \<and> q = r \<and> written_to h (sv_io s) @ concat ps = w @ concat out)"
| "push_point c r h w out s (PushWrite c' q k p ps) =
     (c' = c \<and> q = r \<and> k = h \<and> written_to h (sv_io s) @ p @ concat ps = w @ concat out)"
| "push_point c r h w out s (Replied resp) =
     (resp = http_reply no_store 200 [] \<and> written_to h (sv_io s) = w @ concat out)"
| "push_point c r h w out s _ = False"

definition push_inv ::
  "server_env \<Rightarrow> bytes \<Rightarrow> u32 \<Rightarrow> nat \<Rightarrow> nat \<Rightarrow> bytes \<Rightarrow> bytes list \<Rightarrow> Server \<Rightarrow> handler list \<Rightarrow> bool" where
  "push_inv env priv c r h w out s ts \<longleftrightarrow> stable priv c r h s \<and>
     (\<exists>t us. ts = t # us \<and> push_point c r h w out s t \<and>
       (\<forall>u \<in> set us. bystander env priv c r h u \<and> refs_ok s u))"

lemma push_point_undisturbed:
  assumes "undisturbed r h s s'" "push_point c r h w out s t"
  shows "push_point c r h w out s' t"
  using assms recv_half_batch [of "cs_sess (sv_heap s' ! r)" "cs_sess (sv_heap s ! r)" 0 _ 0]
  by (cases t) (simp_all add: undisturbed_def)

lemma push_point_step:
  assumes st: "stable priv c r h s" and pt: "push_point c r h w out s t"
    and ok: "\<forall>io p. env_write_ok env io h p" and step: "handler_step env (now, inp) t s = Some (t', new, s')"
  shows "stable priv c r h s' \<and> push_point c r h w out s' t' \<and> new = [] \<and> length (sv_heap s') = length (sv_heap s)"
proof -
  have r: "r < length (sv_heap s)" "cs_outbound (sv_heap s ! r) = Some h" using st by (simp_all add: stable_def)
  show ?thesis
  proof (cases t)
    case (PushDecode c' q fs dl)
    show ?thesis
    proof (cases fs)
      case Nil
      then show ?thesis using PushDecode step pt st by (auto simp: push_decode_def)
    next
      case (Cons x xs)
      obtain res sess where dec: "DecodeIncoming now x (cs_sess (sv_heap s ! r)) = (res, sess)"
        by (cases "DecodeIncoming now x (cs_sess (sv_heap s ! r))")
      obtain res0 sess0 where dec0: "DecodeIncoming 0 x (cs_sess (sv_heap s ! r)) = (res0, sess0)"
        by (cases "DecodeIncoming 0 x (cs_sess (sv_heap s ! r))")
      have same: "res0 = res" "recv_half sess0 = recv_half sess"
        using recv_half_decode [OF refl, of 0 x "cs_sess (sv_heap s ! r)" now] dec dec0 by simp_all
      have eq: "s' = upd_cs r (\<lambda>cs. cs\<lparr>cs_sess := sess\<rparr>) s" "new = []"
        "t' = PushDecode c r xs (dl @ (case res of Inl e \<Rightarrow> [] | Inr result \<Rightarrow> if Accepted result then Ready result else []))"
        using step PushDecode Cons dec pt by (auto simp: push_decode_def)
      have "map cs_outbound (sv_heap s') = map cs_outbound (sv_heap s)"
        unfolding eq(1) by (simp add: upd_cs_def map_update_same)
      then have "cs_outbound (sv_heap s' ! p) = cs_outbound (sv_heap s ! p)" if "p < length (sv_heap s)" for p
        using that eq(1) by (metis length_map nth_map)
      then have "stable priv c r h s'" using st eq(1) by (simp add: stable_def)
      moreover have "push_point c r h w out s' t'"
      proof -
        let ?D = "case res of Inl e \<Rightarrow> [] | Inr result \<Rightarrow> if Accepted result then Ready result else []"
        have "fst (decode_batch 0 (x # xs) (cs_sess (sv_heap s ! r))) = ?D @ fst (decode_batch 0 xs sess0)"
          by (cases res) (simp_all add: dec0 same(1) split_beta)
        also have "fst (decode_batch 0 xs sess0) = fst (decode_batch 0 xs sess)"
          by (rule recv_half_batch [OF same(2)])
        finally have "dl @ ?D @ fst (decode_batch 0 xs sess) = out" "written_to h (sv_io s) = w"
          using pt PushDecode Cons by simp_all
        moreover have "cs_sess (sv_heap s' ! r) = sess" "sv_io s' = sv_io s" using r by (simp_all add: eq(1))
        ultimately show ?thesis by (simp add: eq(3))
      qed
      ultimately show ?thesis using eq(1,2) by simp
    qed
  next
    case (PushForward c' q ps)
    then show ?thesis using step pt st r by (cases ps) (auto simp: push_forward_def)
  next
    case (PushWrite c' q k p ps)
    then have "s' = s\<lparr>sv_io := sv_io s @ [NetWrite h p True]\<rparr>" "t' = PushForward c r ps" "new = []"
      using step pt ok by (auto simp: push_write_def Let_def)
    then show ?thesis using PushWrite pt st by (simp add: stable_def)
  qed (use step pt in auto)
qed

interpretation pushing: thread_machine "calm_step env r"
  "\<lambda>s ts. (\<forall>io p. env_write_ok env io h p) \<and> push_inv env priv c r h w out s ts" for env priv c r h w out
proof
  fix s ts i e t' new s'
  assume inv: "(\<forall>io p. env_write_ok env io h p) \<and> push_inv env priv c r h w out s ts" and i: "i < length ts"
    and step: "calm_step env r e (ts ! i) s = Some (t', new, s')"
  obtain now inp where e: "e = (now, inp)" by (cases e)
  obtain t us where ts: "ts = t # us" "stable priv c r h s" "push_point c r h w out s t"
    "\<forall>u \<in> set us. bystander env priv c r h u \<and> refs_ok s u"
    using inv by (auto simp: push_inv_def)
  have "push_inv env priv c r h w out s' (ts[i := t'] @ new)"
  proof (cases i)
    case 0
    have "handler_step env (now, inp) t s = Some (t', new, s')"
      using calm_step_handler [OF step] e 0 ts(1) by simp
    from push_point_step [OF ts(2,3) _ this] have "stable priv c r h s'" "push_point c r h w out s' t'" "new = []"
      "length (sv_heap s') = length (sv_heap s)"
      using inv by simp_all
    then show ?thesis using ts 0 by (simp add: push_inv_def refs_ok_def)
  next
    case (Suc j)
    then have u: "us ! j \<in> set us" "ts ! i = us ! j" using i ts(1) by simp_all
    have hl: "harmless env priv c r h s t' new s'"
      using harmless_step [OF ts(2) _ _ step] ts(4) u by simp
    then have "\<forall>v \<in> set (us[j := t'] @ new). bystander env priv c r h v \<and> refs_ok s' v"
      using ts(4) set_update_subset_insert [of us j t'] refs_ok_mono unfolding harmless_def by fastforce
    then show ?thesis
      using hl push_point_undisturbed [OF _ ts(3), of s'] ts(1) Suc
      unfolding push_inv_def harmless_def by (intro conjI exI [of _ t] exI [of _ "us[j := t'] @ new"]) auto
  qed
  then show "(\<forall>io p. env_write_ok env io h p) \<and> push_inv env priv c r h w out s' (ts[i := t'] @ new)"
    using inv by blast
qed

section \<open>Two pushes that overlap\<close>

definition push_request :: "u32 \<Rightarrow> bytes list \<Rightarrow> request" where
  "push_request c wires = \<lparr>rq_method = ''POST'', rq_path = ''/api/v1/push'',
     rq_header = (\<lambda>k. if k = HeaderConnectionID then hex_EncodeToString (put32 c) else []),
     rq_body = join_frames wires, rq_broken = False\<rparr>"

definition fits_push :: "bytes list \<Rightarrow> bool" where
  "fits_push wires \<longleftrightarrow> list_all (\<lambda>w. length w < 65536) wires \<and> length (join_frames wires) < 8 * 2 ^ 20"

lemma push_request_sel [simp]:
  "connStateFromRequest (push_request c wires) s = map_option (Pair c) (sv_conns s c)"
  "rq_method (push_request c wires) = ''POST''"
  by (subst connStateFromRequest_hex [where c = c]) (simp_all add: push_request_def)

lemma push_request_body:
  assumes "fits_push wires"
  shows "ReadAll_limited (8 * 2 ^ 20) (rq_body (push_request c wires)) (rq_broken (push_request c wires)) =
      Some (join_frames wires)" "split_frames (join_frames wires) = wires"
  using assms split_join_frames [of wires]
  by (simp_all add: fits_push_def push_request_def ReadAll_limited_def list_all_iff)

lemma handlePush_request:
  assumes "sv_conns s c = Some r" "fits_push wires"
    "decode_batch now wires (cs_sess (sv_heap s ! r)) = (dl, sess)"
  shows "handlePush env now (push_request c wires) s =
    (http_reply no_store 200 [], forward_all env c r dl (upd_cs r (\<lambda>cs. cs\<lparr>cs_sess := sess\<rparr>) s))"
  unfolding handlePush_def using assms push_request_body [OF assms(2)] by simp

lemma push_until_forward:
  assumes "sv_conns s c = Some r" "r < length (sv_heap s)" "fits_push wires"
    "decode_batch now wires (cs_sess (sv_heap s ! r)) = (dl, sess)"
  shows "alone env (now, inp) (PushCall (push_request c wires)) s (PushForward c r dl) []
    (upd_cs r (\<lambda>cs. cs\<lparr>cs_sess := sess\<rparr>) s)"
proof -
  have "handler_step env (now, inp) (PushCall (push_request c wires)) s = Some (PushDecode c r wires [], [], s)"
    using assms(1) push_request_body [OF assms(3)] by (simp add: push_call_def)
  from alone_quiet [OF this decode_alone [OF assms(2)]] show ?thesis using assms(4) by simp
qed

lemma alone_interleave:
  "i < length ts \<Longrightarrow> alone env e (ts ! i) s u new s' \<Longrightarrow>
   (interleave (handler_step env))\<^sup>*\<^sup>* (s, ts) (s', ts[i := u] @ new)"
  unfolding alone_def by (blast intro: run_alone_interleave)

lemma pushes_swapped:
  assumes "sv_conns s c = Some r" "r < length (sv_heap s)" "sv_gos s = []"
    "cs_outbound (sv_heap s ! r) = Some h" "\<And>io p. env_write_ok env io h p"
    "fits_push ws" "fits_push vs"
    "decode_batch now ws (cs_sess (sv_heap s ! r)) = (ps, sess1)" "decode_batch now vs sess1 = (qs, sess2)"
  shows "\<exists>s'. (interleave (handler_step env))\<^sup>*\<^sup>* (s, [PushCall (push_request c ws), PushCall (push_request c vs)])
      (s', [Replied (http_reply no_store 200 []), Replied (http_reply no_store 200 [])]) \<and>
    written_to h (sv_io s') = written_to h (sv_io s) @ concat qs @ concat ps"
proof -
  let ?A = "push_request c ws" and ?B = "push_request c vs"
  let ?ok = "Replied (http_reply no_store 200 [])" and ?e = "(now, DialOk)"
  let ?io = "\<lambda>ps. map (\<lambda>p. NetWrite h p True) ps"
  let ?s1 = "upd_cs r (\<lambda>cs. cs\<lparr>cs_sess := sess1\<rparr>) s"
  let ?s2 = "upd_cs r (\<lambda>cs. cs\<lparr>cs_sess := sess2\<rparr>) ?s1"
  have out: "cs_outbound (sv_heap ?s2 ! r) = Some h" using assms(2,4) by simp
  note writes = forward_all_writes [where env = env, OF _ assms(5)]
  let ?t2 = "?s2\<lparr>sv_io := sv_io ?s2 @ ?io qs\<rparr>"
  let ?t3 = "?t2\<lparr>sv_io := sv_io ?t2 @ ?io ps\<rparr>"
  have "alone env ?e (PushCall ?A) s (PushForward c r ps) [] ?s1"
    by (rule push_until_forward [OF assms(1,2,6,8)])
  then have r1: "(interleave (handler_step env))\<^sup>*\<^sup>* (s, [PushCall ?A, PushCall ?B]) (?s1, [PushForward c r ps, PushCall ?B])"
    using alone_interleave [of 0 "[PushCall ?A, PushCall ?B]" env ?e s] by simp
  have "alone env ?e (PushCall ?B) ?s1 (PushForward c r qs) [] ?s2"
    using assms(1,2,9) by (intro push_until_forward [OF _ _ assms(7)]) simp_all
  moreover have "alone env ?e (PushForward c r qs) ?s2 ?ok [] ?t2"
    using forward_all_alone [of ?s2 env ?e c r qs] writes [OF out, of c qs] assms(3) by (simp add: no_gos)
  ultimately have "alone env ?e (PushCall ?B) ?s1 ?ok [] ?t2" using alone_trans by fastforce
  then have r2: "(interleave (handler_step env))\<^sup>*\<^sup>* (?s1, [PushForward c r ps, PushCall ?B]) (?t2, [PushForward c r ps, ?ok])"
    using alone_interleave [of 1 "[PushForward c r ps, PushCall ?B]" env ?e ?s1] by simp
  have "alone env ?e (PushForward c r ps) ?t2 ?ok [] ?t3"
    using forward_all_alone [of ?t2 env ?e c r ps] writes [of ?t2 r c ps] out assms(3) by (simp add: no_gos)
  then have r3: "(interleave (handler_step env))\<^sup>*\<^sup>* (?t2, [PushForward c r ps, ?ok]) (?t3, [?ok, ?ok])"
    using alone_interleave [of 0 "[PushForward c r ps, ?ok]" env ?e ?t2] by simp
  have "(interleave (handler_step env))\<^sup>*\<^sup>* (s, [PushCall ?A, PushCall ?B]) (?t3, [?ok, ?ok])"
    using r1 r2 r3 by (meson rtranclp_trans)
  moreover have "written_to h (sv_io ?t3) = written_to h (sv_io s) @ concat qs @ concat ps" by simp
  ultimately show ?thesis by blast
qed

lemma pushes_in_order:
  assumes "sv_conns s c = Some r" "r < length (sv_heap s)"
    "cs_outbound (sv_heap s ! r) = Some h" "\<And>io p. env_write_ok env io h p"
    "fits_push ws" "fits_push vs"
    "decode_batch now ws (cs_sess (sv_heap s ! r)) = (ps, sess1)" "decode_batch now vs sess1 = (qs, sess2)"
  shows "written_to h (sv_io (snd (handlePush env now (push_request c vs) (snd (handlePush env now (push_request c ws) s))))) =
    written_to h (sv_io s) @ concat ps @ concat qs"
proof -
  let ?s1 = "upd_cs r (\<lambda>cs. cs\<lparr>cs_sess := sess1\<rparr>) s"
  let ?t1 = "?s1\<lparr>sv_io := sv_io ?s1 @ map (\<lambda>p. NetWrite h p True) ps\<rparr>"
  let ?s2 = "upd_cs r (\<lambda>cs. cs\<lparr>cs_sess := sess2\<rparr>) ?t1"
  note writes = forward_all_writes [where env = env, OF _ assms(4)]
  have "snd (handlePush env now (push_request c ws) s) = ?t1"
    using handlePush_request [OF assms(1,5,7), of env] writes [of ?s1 r c ps] assms(2,3) by simp
  moreover have "snd (handlePush env now (push_request c vs) ?t1) = ?s2\<lparr>sv_io := sv_io ?s2 @ map (\<lambda>p. NetWrite h p True) qs\<rparr>"
    using handlePush_request [OF _ assms(6), of ?t1 c r now qs sess2 env] writes [of ?s2 r c qs] assms(1-3,8) by simp
  ultimately show ?thesis by simp
qed

section \<open>Properties\<close>

text \<open>C8: A push writes the payloads it delivers in their order, whatever runs at the same time: pushes of
  other connections, polls, handshakes of other connections, dials, and the reader of this one. What
  has been written to its socket is at any moment a prefix of what the push delivers, and all of it
  when the push is answered with status 200.\<close>

theorem one_push_writes_in_order:
  assumes "(interleave (calm_step env r))\<^sup>*\<^sup>* (s, PushDecode c r frames [] # us) (s', t' # us')"
    "stable priv c r h s" "\<forall>io p. env_write_ok env io h p"
    "\<forall>u \<in> set us. bystander env priv c r h u \<and> refs_ok s u"
  shows "let out = concat (fst (decode_batch now frames (cs_sess (sv_heap s ! r)))) in
    prefix (written_to h (sv_io s')) (written_to h (sv_io s) @ out) \<and>
    (\<forall>resp. t' = Replied resp \<longrightarrow> rs_status resp = 200 \<and>
       written_to h (sv_io s') = written_to h (sv_io s) @ out)"
proof -
  let ?out = "fst (decode_batch 0 frames (cs_sess (sv_heap s ! r)))"
  have "push_inv env priv c r h (written_to h (sv_io s)) ?out s (PushDecode c r frames [] # us)"
    using assms(2,4) by (simp add: push_inv_def)
  then have "push_inv env priv c r h (written_to h (sv_io s)) ?out s' (t' # us')"
    using pushing.inv_reachable [OF assms(1)] assms(3) by blast
  then have pt: "push_point c r h (written_to h (sv_io s)) ?out s' t'" by (simp add: push_inv_def)
  have "fst (decode_batch now frames (cs_sess (sv_heap s ! r))) = ?out" by (rule recv_half_batch) (rule refl)
  moreover have "prefix (written_to h (sv_io s')) (written_to h (sv_io s) @ concat ?out)"
    using pt by (cases t') (auto simp: prefix_def dest: sym)
  ultimately show ?thesis using pt by (auto simp: Let_def http_reply_def)
qed

theorem one_push_writes_in_order_witness:
  "\<exists>s w s' us'. (interleave (calm_step sample_env 0))\<^sup>*\<^sup>* (s, PushDecode 1 0 [w] [] # [Pumping 1 0 3])
       (s', Replied (http_reply no_store 200 []) # us') \<and> written_to 3 (sv_io s') = written_to 3 (sv_io s) @ [65]"
proof -
  let ?cl = "connected 0 7 1 (replicate 32 5)" and ?s = "sample_server (Some 3) []"
  let ?w = "out_wire 0 ?cl 0 [65]"
  have "in_step 0 0 ?cl ?cl"
    using connected_recv [of "\<lambda>_. []" 0 7 1 "replicate 32 5"]
    by (simp add: in_step_def recv_repr_def frame_set_def seq_bound_def aes_key_ok_def lessThan_0)
  from in_step_one [OF this, of "[65]" 0 0] obtain sess where dec: "DecodeIncoming 0 ?w ?cl =
      (Inr \<lparr>Accepted = True, is_Replay = False, Ready = [[65]], Frame = out_frame 0 ?cl 0 [65]\<rparr>, sess)"
    by (auto simp: seq_bound_def)
  let ?ms = "[(0, (0, DialOk)), (1, (0, ReadResult [9] False)), (0, (0, DialOk)), (0, (0, DialOk)),
      (1, (0, DialOk)), (0, (0, DialOk)), (0, (0, DialOk))] :: (nat \<times> nanos \<times> go_input) list"
  let ?c = "schedule (calm_step sample_env 0) ?ms (?s, PushDecode 1 0 [?w] [] # [Pumping 1 0 3])"
  have "\<exists>s' us'. ?c = (s', Replied (http_reply no_store 200 []) # us')"
    using dec by (simp add: move_thread_def calm_step_def push_decode_def push_forward_def push_write_def
        sample_server_def sample_env_def upd_cs_def Let_def split: prod.split sum.split)
  then obtain s' us' where "?c = (s', Replied (http_reply no_store 200 []) # us')" by blast
  then have run: "(interleave (calm_step sample_env 0))\<^sup>*\<^sup>* (?s, PushDecode 1 0 [?w] [] # [Pumping 1 0 3])
      (s', Replied (http_reply no_store 200 []) # us')"
    using schedule_run by metis
  have out: "fst (decode_batch 0 [?w] (cs_sess (sv_heap ?s ! 0))) = [[65]]"
    using dec by (simp add: sample_server_def)
  have "stable [] 1 0 3 ?s" "\<forall>io p. env_write_ok sample_env io 3 p"
    "\<forall>u \<in> set [Pumping 1 0 3]. bystander sample_env [] 1 0 3 u \<and> refs_ok ?s u"
    by (simp_all add: stable_def sample_server_def sample_env_def server_New_def refs_ok_def)
  from one_push_writes_in_order [OF run this, of 0] show ?thesis
    using run out by (auto simp: Let_def)
qed

text \<open>C9: Two pushes of one connection that overlap may write in the wrong order. The second arrives when
  the first has decoded its frames and not yet forwarded them; both are answered with status 200, and
  the target gets the second payloads before the first, although the reorder buffer had delivered
  them in order. One after the other, the same two requests write them in order.\<close>

theorem overlapping_pushes_swap_writes:
  assumes "sv_conns s c = Some r" "r < length (sv_heap s)" "sv_gos s = []"
    "cs_outbound (sv_heap s ! r) = Some h" "\<And>io p. env_write_ok env io h p"
    "in_step n m cl (cs_sess (sv_heap s ! r))" "list_all (\<lambda>p. length p < 65536) (ps @ qs)"
    "m + length (ps @ qs) \<le> seq_bound" "A = push_request c (sent_wires ps cl)"
    "B = push_request c (sent_wires qs (advance (length ps) cl))"
    "fits_push (sent_wires ps cl)" "fits_push (sent_wires qs (advance (length ps) cl))"
  shows "(\<exists>s'. (interleave (handler_step env))\<^sup>*\<^sup>* (s, [PushCall A, PushCall B])
        (s', [Replied (http_reply no_store 200 []), Replied (http_reply no_store 200 [])]) \<and>
      written_to h (sv_io s') = written_to h (sv_io s) @ concat qs @ concat ps) \<and>
    written_to h (sv_io (snd (handlePush env now B (snd (handlePush env now A s))))) =
      written_to h (sv_io s) @ concat ps @ concat qs"
proof -
  obtain sess1 where d1: "decode_batch now (sent_wires ps cl) (cs_sess (sv_heap s ! r)) = (ps, sess1)"
    "in_step (n + length ps) (m + length ps) (advance (length ps) cl) sess1"
    using in_step_batch [OF assms(6), of ps now] assms(6-8)
    by (cases "decode_batch now (sent_wires ps cl) (cs_sess (sv_heap s ! r))")
      (auto simp: sent_wires_of in_step_def list_all_iff)
  obtain sess2 where d2: "decode_batch now (sent_wires qs (advance (length ps) cl)) sess1 = (qs, sess2)"
    using in_step_batch [OF d1(2), of qs now] d1(2) assms(7,8)
    by (cases "decode_batch now (sent_wires qs (advance (length ps) cl)) sess1")
      (auto simp: sent_wires_of in_step_def list_all_iff add.assoc)
  show ?thesis
    unfolding assms(9,10)
    using pushes_swapped [where env = env, OF assms(1-5,11,12) d1(1) d2]
      pushes_in_order [where env = env, OF assms(1,2,4,5,11,12) d1(1) d2] by blast
qed

theorem overlapping_pushes_swap_writes_witness:
  "\<exists>s A B s'. (interleave (handler_step sample_env))\<^sup>*\<^sup>* (s, [PushCall A, PushCall B])
        (s', [Replied (http_reply no_store 200 []), Replied (http_reply no_store 200 [])]) \<and>
      written_to 3 (sv_io s') = written_to 3 (sv_io s) @ [3, 4] @ [1, 2] \<and>
      written_to 3 (sv_io (snd (handlePush sample_env 0 B (snd (handlePush sample_env 0 A s))))) =
        written_to 3 (sv_io s) @ [1, 2] @ [3, 4]"
proof -
  let ?cl = "connected 0 7 1 (replicate 32 5)" and ?s = "sample_server (Some 3) []"
  have st: "in_step 0 0 ?cl (cs_sess (sv_heap ?s ! 0))"
    using connected_recv [of "\<lambda>_. []" 0 7 1 "replicate 32 5"]
    by (simp add: sample_server_def in_step_def recv_repr_def frame_set_def seq_bound_def aes_key_ok_def lessThan_0)
  have key: "aes_key_ok (s_SessionKey ?cl)" by (simp add: aes_key_ok_def)
  have fits: "fits_push (sent_wires [p] (advance k ?cl))" if "length p = 2" for p k
    using that key length_out_wire [of "advance k ?cl" 0 0 p]
    by (simp add: fits_push_def sent_wires_of wires_of_def join_frames_def put_frame_def)
  have "advance 0 ?cl = ?cl" by (simp add: advance_def)
  then have fits0: "fits_push (sent_wires [[1, 2]] ?cl)" using fits [of "[1, 2]" 0] by simp
  have "(\<exists>s'. (interleave (handler_step sample_env))\<^sup>*\<^sup>* (?s, [PushCall (push_request 1 (sent_wires [[1, 2]] ?cl)),
          PushCall (push_request 1 (sent_wires [[3, 4]] (advance (length [[1 :: byte, 2]]) ?cl)))])
        (s', [Replied (http_reply no_store 200 []), Replied (http_reply no_store 200 [])]) \<and>
      written_to 3 (sv_io s') = written_to 3 (sv_io ?s) @ concat [[3, 4]] @ concat [[1, 2]]) \<and>
    written_to 3 (sv_io (snd (handlePush sample_env 0
        (push_request 1 (sent_wires [[3, 4]] (advance (length [[1 :: byte, 2]]) ?cl)))
        (snd (handlePush sample_env 0 (push_request 1 (sent_wires [[1, 2]] ?cl)) ?s))))) =
      written_to 3 (sv_io ?s) @ concat [[1, 2]] @ concat [[3, 4]]"
    by (rule overlapping_pushes_swap_writes [where r = 0, OF _ _ _ _ _ st _ _ refl refl fits0 fits])
      (simp_all add: sample_server_def sample_env_def seq_bound_def)
  then show ?thesis by auto
qed

end
