(* ===== verification/TunnelThreads.thy ===== *)
theory TunnelThreads
  imports ServerOrder EndToEnd
begin

text \<open>
  A tunnel in use, with everything that runs at the same time cut into its steps: a goroutine of the
  client that uploads (\<open>Push\<close>), one that polls (\<open>Pull\<close>), the handlers that serve their requests, and
  the goroutine of the server that reads the socket of the target.
\<close>

section \<open>Model\<close>

text \<open>
  \<open>dx_source\<close> is what the targets will still send on each socket, cut into the reads that return it;
  \<open>dx_got\<close> is what the polls have returned.
\<close>

record duplex =
  dx_client :: Client
  dx_server :: Server
  dx_source :: "nat \<Rightarrow> bytes list"
  dx_got :: "bytes list"

datatype peer =
    Uploading "bytes list"              \<comment> \<open>payloads to push\<close>
  | Pushing handler "bytes list"        \<comment> \<open>the request of \<open>doPush\<close> is at the server\<close>
  | PushStopped client_error
  | Polling
  | Pulling handler                     \<comment> \<open>the request of \<open>Pull\<close> is at the server\<close>
  | Decoding "bytes list" "bytes list"  \<comment> \<open>frames of the response, \<open>out\<close>\<close>
  | PullStopped client_error
  | Serving handler                     \<comment> \<open>a goroutine of the server\<close>

type_synonym advanced = "(peer \<times> peer list \<times> duplex) option"

definition push_message :: "Client \<Rightarrow> bytes \<Rightarrow> client_request" where
  "push_message c body = \<lparr>cq_method = ''POST'', cq_url = cl_BaseURL c @ ''/api/v1/push'',
     cq_header = octet_stream (conn_header c), cq_body = body\<rparr>"

definition pull_message :: "Client \<Rightarrow> client_request" where
  "pull_message c = \<lparr>cq_method = ''GET'', cq_url = cl_BaseURL c @ ''/api/v1/pull'',
     cq_header = conn_header c, cq_body = []\<rparr>"

text \<open>A request reaches the handler of its path; nothing is lost on the way.\<close>

definition sent_off :: "Client \<Rightarrow> client_request \<Rightarrow> handler" where
  "sent_off c cq = arrival (to_request (cl_BaseURL c) cq)"

definition at_server ::
  "server_env \<Rightarrow> nanos \<times> go_input \<Rightarrow> handler \<Rightarrow> (handler \<Rightarrow> peer) \<Rightarrow> duplex \<Rightarrow> advanced" where
  "at_server env e h waiting x =
     map_option (\<lambda>(h', new, s'). (waiting h', map Serving new, x\<lparr>dx_server := s'\<rparr>))
       (handler_step env e h (dx_server x))"

text \<open>\<open>Push\<close>: encode and send; wait; note a redundant send and go on.\<close>

definition push_begin :: "bytes list \<Rightarrow> duplex \<Rightarrow> advanced" where
  "push_begin payloads x =
     (case payloads of
        [] \<Rightarrow> None
      | payload # rest \<Rightarrow>
          (case EncodeOutgoing payload 0 (cl_Session (dx_client x)) of (res, sess) \<Rightarrow>
             let c = (dx_client x)\<lparr>cl_Session := sess\<rparr>
             in Some (case res of
                  Inl err \<Rightarrow> PushStopped (ErrEncodeOutgoing err)
                | Inr wire \<Rightarrow>
                    Pushing (sent_off c (push_message c (put16 (word_of_nat (length wire)) @ wire))) rest,
                [], x\<lparr>dx_client := c\<rparr>)))"

definition push_end :: "response \<Rightarrow> bytes list \<Rightarrow> duplex \<Rightarrow> advanced" where
  "push_end resp rest x =
     Some (if rs_status resp \<noteq> 200 then (PushStopped (ErrRejected (rs_status resp)), [], x)
       else (Uploading rest, [],
         let c = dx_client x; s = cl_Session c
         in if ShouldSendRedundant (s_Reconnect s)
            then x\<lparr>dx_client := c\<lparr>cl_Session := s\<lparr>s_Reconnect := MarkRedundantSent (s_Reconnect s)\<rparr>\<rparr>\<rparr>
            else x))"

text \<open>\<open>Pull\<close>: send; wait; decode the frames of the response one by one.\<close>

definition pull_end :: "response \<Rightarrow> duplex \<Rightarrow> advanced" where
  "pull_end resp x =
     Some (if rs_status resp \<noteq> 200 then PullStopped (ErrRejected (rs_status resp))
       else case ReadAll (rs_body resp) (rs_broken resp) of
              None \<Rightarrow> PullStopped ErrReadBody
            | Some body \<Rightarrow> Decoding (split_frames body) [], [], x)"

definition pull_decode :: "nanos \<Rightarrow> bytes list \<Rightarrow> bytes list \<Rightarrow> duplex \<Rightarrow> advanced" where
  "pull_decode now frames out x =
     (case frames of
        [] \<Rightarrow> Some (Polling, [], x\<lparr>dx_got := dx_got x @ out\<rparr>)
      | wire # rest \<Rightarrow>
          (case DecodeIncoming now wire (cl_Session (dx_client x)) of (res, sess) \<Rightarrow>
             Some (Decoding rest (out @ (case res of
                     Inl err \<Rightarrow> [] | Inr result \<Rightarrow> if Accepted result then Ready result else [])),
               [], x\<lparr>dx_client := (dx_client x)\<lparr>cl_Session := sess\<rparr>\<rparr>)))"

text \<open>A read of a socket returns the next piece of its source, and blocks when there is none.\<close>

definition read_socket :: "server_env \<Rightarrow> nanos \<Rightarrow> u32 \<Rightarrow> nat \<Rightarrow> nat \<Rightarrow> duplex \<Rightarrow> advanced" where
  "read_socket env now c r h x =
     (case dx_source x h of
        [] \<Rightarrow> None
      | chunk # rest \<Rightarrow>
          at_server env (now, ReadResult chunk False) (Pumping c r h) Serving
            (x\<lparr>dx_source := (dx_source x)(h := rest)\<rparr>))"

fun awaited :: "handler \<Rightarrow> response option" where
  "awaited (Replied resp) = Some resp"
| "awaited _ = None"

fun reading :: "handler \<Rightarrow> (u32 \<times> nat \<times> nat) option" where
  "reading (Pumping c r h) = Some (c, r, h)"
| "reading _ = None"

definition duplex_step :: "server_env \<Rightarrow> (nanos \<times> go_input, peer, duplex) thread_fun" where
  "duplex_step env e t x =
     (case t of
        Uploading payloads \<Rightarrow> push_begin payloads x
      | Pushing h rest \<Rightarrow>
          (case awaited h of
             Some resp \<Rightarrow> push_end resp rest x
           | None \<Rightarrow> at_server env e h (\<lambda>h'. Pushing h' rest) x)
      | PushStopped err \<Rightarrow> None
      | Polling \<Rightarrow> Some (Pulling (sent_off (dx_client x) (pull_message (dx_client x))), [], x)
      | Pulling h \<Rightarrow>
          (case awaited h of Some resp \<Rightarrow> pull_end resp x | None \<Rightarrow> at_server env e h Pulling x)
      | Decoding frames out \<Rightarrow> pull_decode (fst e) frames out x
      | PullStopped err \<Rightarrow> None
      | Serving h \<Rightarrow>
          (case reading h of
             Some (c, r, k) \<Rightarrow> read_socket env (fst e) c r k x
           | None \<Rightarrow> at_server env e h Serving x))"

section \<open>Uninterrupted calls\<close>

text \<open>A request that is served alone, seen from the call that waits for it.\<close>

lemma pushing_alone:
  "run_alone (handler_step env) es ht (dx_server x) = Some (ht', new, s') \<Longrightarrow>
   run_alone (duplex_step env) es (Pushing ht ps) x = Some (Pushing ht' ps, map Serving new, x\<lparr>dx_server := s'\<rparr>)"
proof (induction es arbitrary: ht new x)
  case (Cons e es)
  then obtain t1 n1 s1 n2 where st: "handler_step env e ht (dx_server x) = Some (t1, n1, s1)"
    "run_alone (handler_step env) es t1 s1 = Some (ht', n2, s')" "new = n1 @ n2"
    by (auto split: option.splits)
  have "awaited ht = None" using st(1) by (cases e; cases ht) simp_all
  then show ?case
    using st Cons.IH [of t1 "x\<lparr>dx_server := s1\<rparr>" n2] by (simp add: duplex_step_def at_server_def)
qed simp

lemma pulling_alone:
  "run_alone (handler_step env) es ht (dx_server x) = Some (ht', new, s') \<Longrightarrow>
   run_alone (duplex_step env) es (Pulling ht) x = Some (Pulling ht', map Serving new, x\<lparr>dx_server := s'\<rparr>)"
proof (induction es arbitrary: ht new x)
  case (Cons e es)
  then obtain t1 n1 s1 n2 where st: "handler_step env e ht (dx_server x) = Some (t1, n1, s1)"
    "run_alone (handler_step env) es t1 s1 = Some (ht', n2, s')" "new = n1 @ n2"
    by (auto split: option.splits)
  have "awaited ht = None" using st(1) by (cases e; cases ht) simp_all
  then show ?case
    using st Cons.IH [of t1 "x\<lparr>dx_server := s1\<rparr>" n2] by (simp add: duplex_step_def at_server_def)
qed simp

lemma decoding_alone:
  "run_alone (duplex_step env) (replicate (Suc (length fs)) (now, inp)) (Decoding fs out) x =
     (case decode_batch now fs (cl_Session (dx_client x)) of (rest, sess) \<Rightarrow>
        Some (Polling, [], x\<lparr>dx_client := (dx_client x)\<lparr>cl_Session := sess\<rparr>, dx_got := dx_got x @ out @ rest\<rparr>))"
proof (induction fs arbitrary: out x)
  case Nil
  then show ?case by (simp add: duplex_step_def pull_decode_def)
next
  case (Cons f fs)
  obtain res sess where d: "DecodeIncoming now f (cl_Session (dx_client x)) = (res, sess)"
    by (cases "DecodeIncoming now f (cl_Session (dx_client x))")
  let ?x1 = "x\<lparr>dx_client := (dx_client x)\<lparr>cl_Session := sess\<rparr>\<rparr>"
  let ?out = "out @ (case res of Inl err \<Rightarrow> [] | Inr result \<Rightarrow> if Accepted result then Ready result else [])"
  have "duplex_step env (now, inp) (Decoding (f # fs) out) x = Some (Decoding fs ?out, [], ?x1)"
    using d by (simp add: duplex_step_def pull_decode_def)
  moreover have "replicate (Suc (length (f # fs))) (now, inp) = (now, inp) # replicate (Suc (length fs)) (now, inp)"
    by simp
  ultimately have "run_alone (duplex_step env) (replicate (Suc (length (f # fs))) (now, inp)) (Decoding (f # fs) out) x =
      map_option (\<lambda>(u, more, y). (u, [] @ more, y))
        (run_alone (duplex_step env) (replicate (Suc (length fs)) (now, inp)) (Decoding fs ?out) ?x1)"
    by (simp only: run_alone.simps option.case prod.case)
  then show ?case
    using Cons.IH [of ?out ?x1] d by (cases res) (auto simp: split_beta)
qed

lemma Push_sent:
  "EncodeOutgoing p 0 (cl_Session c) = (Inr wire, sess) \<Longrightarrow>
   Push rt p c w =
     (case rt (push_message (c\<lparr>cl_Session := sess\<rparr>) (put16 (word_of_nat (length wire)) @ wire)) w of
        (Inl e, w1) \<Rightarrow> (Inl (ErrRequest e), c\<lparr>cl_Session := sess\<rparr>, w1)
      | (Inr resp, w1) \<Rightarrow>
          if rs_status resp \<noteq> 200 then (Inl (ErrRejected (rs_status resp)), c\<lparr>cl_Session := sess\<rparr>, w1)
          else (Inr (), (if ShouldSendRedundant (s_Reconnect sess)
            then c\<lparr>cl_Session := sess\<lparr>s_Reconnect := MarkRedundantSent (s_Reconnect sess)\<rparr>\<rparr>
            else c\<lparr>cl_Session := sess\<rparr>), w1))"
  by (simp add: Push_def push_loop_once doPush_def push_message_def Let_def split: sum.split prod.split
      flip: One_nat_def del: push_loop.simps)

lemma serve_message:
  "serve env now (cl_BaseURL c) (push_message c body) s =
     (case Handler env now (to_request (cl_BaseURL c) (push_message c body)) s of (resp, s1) \<Rightarrow> (Inr resp, s1))"
  "serve env now (cl_BaseURL c) (pull_message c) s =
     (case Handler env now (to_request (cl_BaseURL c) (pull_message c)) s of (resp, s1) \<Rightarrow> (Inr resp, s1))"
  by (simp_all add: serve_def push_message_def pull_message_def)

definition push_outcome :: "bytes list \<Rightarrow> client_error + unit \<Rightarrow> peer" where
  "push_outcome rest res = (case res of Inl err \<Rightarrow> PushStopped err | Inr u \<Rightarrow> Uploading rest)"

lemma uploading_alone:
  assumes "sv_gos s = []" "conns_ok s" "x = \<lparr>dx_client = c, dx_server = s, dx_source = src, dx_got = got\<rparr>"
  shows "case Push (serve env now (cl_BaseURL c)) p c s of (res, c', s') \<Rightarrow>
    \<exists>es. run_alone (duplex_step env) es (Uploading (p # ps)) x =
      Some (push_outcome ps res, map (Serving \<circ> call_of_go) (sv_gos s'),
        x\<lparr>dx_client := c', dx_server := without_gos s'\<rparr>)"
proof -
  let ?e = "(now, DialOk)"
  obtain res sess where enc: "EncodeOutgoing p 0 (cl_Session c) = (res, sess)"
    by (cases "EncodeOutgoing p 0 (cl_Session c)")
  let ?c1 = "c\<lparr>cl_Session := sess\<rparr>"
  show ?thesis
  proof (cases res)
    case (Inl err)
    then have "run_alone (duplex_step env) [?e] (Uploading (p # ps)) x =
        Some (PushStopped (ErrEncodeOutgoing err), [], x\<lparr>dx_client := ?c1\<rparr>)"
      using enc assms(3) by (simp add: duplex_step_def push_begin_def Let_def)
    then obtain es where "run_alone (duplex_step env) es (Uploading (p # ps)) x =
        Some (PushStopped (ErrEncodeOutgoing err), [], x\<lparr>dx_client := ?c1\<rparr>)"
      by blast
    moreover have "x\<lparr>dx_client := ?c1, dx_server := without_gos s\<rparr> = x\<lparr>dx_client := ?c1\<rparr>"
      using assms(1,3) by (simp add: no_gos)
    ultimately show ?thesis
      using enc Inl assms(1) by (auto simp: Push_def push_outcome_def)
  next
    case (Inr wire)
    let ?m = "push_message ?c1 (put16 (word_of_nat (length wire)) @ wire)"
    let ?rq = "to_request (cl_BaseURL ?c1) ?m"
    obtain resp s1 where hd: "Handler env now ?rq s = (resp, s1)" by (cases "Handler env now ?rq s")
    have first: "duplex_step env ?e (Uploading (p # ps)) x = Some (Pushing (arrival ?rq) ps, [], x\<lparr>dx_client := ?c1\<rparr>)"
      using enc Inr assms(3) by (simp add: duplex_step_def push_begin_def Let_def sent_off_def)
    obtain k where "run_alone (handler_step env) (replicate k ?e) (arrival ?rq) s =
        Some (Replied resp, map call_of_go (sv_gos s1), without_gos s1)"
      using request_alone [OF assms(1,2), of env now DialOk ?rq] hd by (auto simp: alone_def)
    then have "run_alone (duplex_step env) (replicate k ?e) (Pushing (arrival ?rq) ps) (x\<lparr>dx_client := ?c1\<rparr>) =
        Some (Pushing (Replied resp) ps, map Serving (map call_of_go (sv_gos s1)),
          x\<lparr>dx_client := ?c1, dx_server := without_gos s1\<rparr>)"
      using pushing_alone [of env "replicate k ?e" "arrival ?rq" "x\<lparr>dx_client := ?c1\<rparr>"] assms(3) by simp
    from run_alone_append [OF this, of "[?e]"] have
      "run_alone (duplex_step env) (?e # replicate k ?e @ [?e]) (Uploading (p # ps)) x =
        map_option (\<lambda>(u, more, y). (u, map (Serving \<circ> call_of_go) (sv_gos s1) @ more, y))
          (push_end resp ps (x\<lparr>dx_client := ?c1, dx_server := without_gos s1\<rparr>))"
      using first by (simp add: duplex_step_def option.map_comp comp_def split_beta option.case_eq_if push_end_def)
    then obtain es where "run_alone (duplex_step env) es (Uploading (p # ps)) x =
        map_option (\<lambda>(u, more, y). (u, map (Serving \<circ> call_of_go) (sv_gos s1) @ more, y))
          (push_end resp ps (x\<lparr>dx_client := ?c1, dx_server := without_gos s1\<rparr>))"
      by blast
    then show ?thesis
      using Push_sent [OF enc [unfolded Inr], of "serve env now (cl_BaseURL c)" s]
        serve_message(1) [of env now ?c1 _ s] hd assms(3)
      by (auto simp: push_end_def push_outcome_def Let_def)
  qed
qed

definition pull_outcome :: "client_error + bytes list \<Rightarrow> peer" where
  "pull_outcome res = (case res of Inl err \<Rightarrow> PullStopped err | Inr out \<Rightarrow> Polling)"

definition pulled :: "client_error + bytes list \<Rightarrow> bytes list" where
  "pulled res = (case res of Inl err \<Rightarrow> [] | Inr out \<Rightarrow> out)"

lemma Pull_sent:
  "Pull rt now c w =
     (case rt (pull_message c) w of
        (Inl e, w1) \<Rightarrow> (Inl (ErrRequest e), c, w1)
      | (Inr resp, w1) \<Rightarrow>
          if rs_status resp \<noteq> 200 then (Inl (ErrRejected (rs_status resp)), c, w1)
          else case ReadAll (rs_body resp) (rs_broken resp) of
                 None \<Rightarrow> (Inl ErrReadBody, c, w1)
               | Some body \<Rightarrow>
                   (case decode_batch now (split_frames body) (cl_Session c) of
                      (out, s1) \<Rightarrow> (Inr out, c\<lparr>cl_Session := s1\<rparr>, w1)))"
  by (simp add: Pull_def pull_message_def Let_def)

lemma polling_alone:
  assumes "sv_gos s = []" "conns_ok s" "x = \<lparr>dx_client = c, dx_server = s, dx_source = src, dx_got = got\<rparr>"
  shows "case Pull (serve env now (cl_BaseURL c)) now2 c s of (res, c', s') \<Rightarrow>
    \<exists>es. run_alone (duplex_step env) es Polling x =
      Some (pull_outcome res, map (Serving \<circ> call_of_go) (sv_gos s'),
        x\<lparr>dx_client := c', dx_server := without_gos s', dx_got := got @ pulled res\<rparr>)"
proof -
  let ?e = "(now, DialOk)"
  let ?rq = "to_request (cl_BaseURL c) (pull_message c)"
  obtain resp s1 where hd: "Handler env now ?rq s = (resp, s1)" by (cases "Handler env now ?rq s")
  let ?x1 = "x\<lparr>dx_server := without_gos s1\<rparr>" and ?new = "map (Serving \<circ> call_of_go) (sv_gos s1)"
  have first: "duplex_step env ?e Polling x = Some (Pulling (arrival ?rq), [], x)"
    using assms(3) by (simp add: duplex_step_def sent_off_def)
  obtain k where "run_alone (handler_step env) (replicate k ?e) (arrival ?rq) s =
      Some (Replied resp, map call_of_go (sv_gos s1), without_gos s1)"
    using request_alone [OF assms(1,2), of env now DialOk ?rq] hd by (auto simp: alone_def)
  then have "run_alone (duplex_step env) (replicate k ?e) (Pulling (arrival ?rq)) x =
      Some (Pulling (Replied resp), ?new, ?x1)"
    using pulling_alone [of env "replicate k ?e" "arrival ?rq" x] assms(3) by simp
  then have "run_alone (duplex_step env) (?e # replicate k ?e) Polling x = Some (Pulling (Replied resp), ?new, ?x1)"
    using first by simp
  then obtain es where es: "run_alone (duplex_step env) es Polling x = Some (Pulling (Replied resp), ?new, ?x1)"
    by blast
  obtain u where u: "pull_end resp ?x1 = Some (u, [], ?x1)" by (simp add: pull_end_def)
  have "run_alone (duplex_step env) (es @ [?e]) Polling x = Some (u, ?new, ?x1)"
    using run_alone_append [OF es, of "[?e]"] u by (simp add: duplex_step_def)
  then obtain fs where fs: "run_alone (duplex_step env) fs Polling x = Some (u, ?new, ?x1)" by blast
  show ?thesis
  proof (cases "\<exists>body. rs_status resp = 200 \<and> ReadAll (rs_body resp) (rs_broken resp) = Some body")
    case False
    then show ?thesis
      using fs u assms(3) by (auto simp: Pull_sent serve_message hd pull_end_def pull_outcome_def pulled_def
          intro!: exI [of _ fs] split: option.splits if_splits)
  next
    case True
    then obtain body where body: "rs_status resp = 200" "ReadAll (rs_body resp) (rs_broken resp) = Some body" by blast
    then have "u = Decoding (split_frames body) []" using u by (simp add: pull_end_def)
    from run_alone_append [OF fs [unfolded this], of "replicate (Suc (length (split_frames body))) (now2, DialOk)"]
    obtain gs where "run_alone (duplex_step env) gs Polling x =
        (case decode_batch now2 (split_frames body) (cl_Session c) of (rest, sess) \<Rightarrow>
          Some (Polling, ?new, ?x1\<lparr>dx_client := c\<lparr>cl_Session := sess\<rparr>, dx_got := got @ rest\<rparr>))"
      using assms(3) by (simp only: decoding_alone) (auto split: prod.splits)
    then show ?thesis
      using body assms(3)
      by (auto simp: Pull_sent serve_message hd pull_outcome_def pulled_def intro!: exI [of _ gs] split: prod.splits)
  qed
qed

section \<open>Properties\<close>

text \<open>A call of \<open>Push\<close> or \<open>Pull\<close> whose steps nothing interrupts, neither at the client nor at the
  server, has the result of the method with the server as its round trip, and leaves the same client
  and the same server: the sequential model of a tunnel is the interleaved one without overlaps.\<close>

theorem uninterrupted_peers_are_calls:
  assumes "sv_gos s = []" "conns_ok s" "x = \<lparr>dx_client = c, dx_server = s, dx_source = src, dx_got = got\<rparr>"
  shows "(case Push (serve env now (cl_BaseURL c)) p c s of (res, c', s') \<Rightarrow>
      \<exists>es. run_alone (duplex_step env) es (Uploading (p # ps)) x =
        Some (case res of Inl err \<Rightarrow> PushStopped err | Inr _ \<Rightarrow> Uploading ps,
          map (Serving \<circ> call_of_go) (sv_gos s'), x\<lparr>dx_client := c', dx_server := s'\<lparr>sv_gos := []\<rparr>\<rparr>)) \<and>
    (case Pull (serve env now (cl_BaseURL c)) now2 c s of (res, c', s') \<Rightarrow>
      \<exists>es. run_alone (duplex_step env) es Polling x =
        Some (case res of Inl err \<Rightarrow> PullStopped err | Inr _ \<Rightarrow> Polling,
          map (Serving \<circ> call_of_go) (sv_gos s'), x\<lparr>dx_client := c', dx_server := s'\<lparr>sv_gos := []\<rparr>,
            dx_got := got @ (case res of Inl err \<Rightarrow> [] | Inr out \<Rightarrow> out)\<rparr>))"
  using uploading_alone [OF assms, where env = env and now = now and p = p and ps = ps]
    polling_alone [OF assms, where env = env and now = now and ?now2.0 = now2]
  by (simp only: push_outcome_def pull_outcome_def pulled_def)

theorem uninterrupted_peers_are_calls_witness:
  "\<exists>es s'. run_alone (duplex_step sample_env) es Polling
      \<lparr>dx_client = sample_tunnel_client, dx_server = sample_server (Some 4) [], dx_source = (\<lambda>_. []), dx_got = [[7]]\<rparr> =
    Some (Polling, [], \<lparr>dx_client = sample_tunnel_client, dx_server = s', dx_source = (\<lambda>_. []), dx_got = [[7]]\<rparr>)"
proof -
  let ?s = "sample_server (Some 4) []" and ?c = sample_tunnel_client
  have s: "sv_gos ?s = []" "conns_ok ?s" by (simp_all add: sample_server_def server_New_def conns_ok_def)
  have c: "s_ConnectionID (cl_Session ?c) = 1"
    by (simp add: sample_tunnel_client_def connected_def CompleteHandshake_def)
  have w: "sv_conns ?s (s_ConnectionID (cl_Session ?c)) = Some 0" "sv_outbox ?s (s_ConnectionID (cl_Session ?c)) = []"
    unfolding c by (simp_all add: sample_server_def server_New_def)
  from serve_pull [OF refl w(1), of 0 "[]" "cl_Session ?c" sample_env 0]
  have "Pull (serve sample_env 0 (cl_BaseURL ?c)) 0 ?c ?s =
      (Inr [], ?c, ?s\<lparr>sv_outbox := (sv_outbox ?s)(s_ConnectionID (cl_Session ?c) := [])\<rparr>)"
    using w(2) by simp
  with uninterrupted_peers_are_calls [OF s refl, where c = ?c and src = "\<lambda>_. []" and got = "[[7]]"
      and env = sample_env and now = 0 and ?now2.0 = 0 and p = "[]" and ps = "[]", THEN conjunct2]
  show ?thesis using s(1) by auto
qed

end
