(* ===== verification/TunnelStream.thy ===== *)
theory TunnelStream
  imports TunnelThreads
begin

text \<open>
  The two byte streams of a tunnel in which uploads, polls and reads of the socket overlap. The
  invariant follows the bytes: those of the upload are in the list of payloads, in the request, or
  written; those of the target are in its source, at the pump, in the outbox, in the response, or
  returned. Each direction depends on one half of each session, and the other direction leaves that
  half alone.
\<close>

section \<open>Halves of a session\<close>

definition send_half :: "Session \<Rightarrow> bytes \<times> u32 \<times> u32 \<times> u32" where
  "send_half s = (s_SessionKey s, s_ConnectionID s, s_sendCounter s, s_sendSequence s)"

definition in_sync :: "nat \<Rightarrow> Session \<Rightarrow> Session \<Rightarrow> bool" where
  "in_sync k s r \<longleftrightarrow> (\<exists>n m. in_step n m s r \<and> m + k \<le> seq_bound)"

text \<open>The sender is one frame ahead: \<open>w\<close>, with payload \<open>p\<close>.\<close>

definition ahead :: "nat \<Rightarrow> bytes \<Rightarrow> bytes \<Rightarrow> Session \<Rightarrow> Session \<Rightarrow> bool" where
  "ahead k p w s r \<longleftrightarrow> (\<exists>s0. in_sync (Suc k) s0 r \<and> send_half s = send_half (advance 1 s0) \<and>
     w = out_wire 0 s0 0 p \<and> length p \<le> 65498)"

lemma advance_zero [simp]: "advance 0 s = s"
  by (simp add: advance_def)

lemma in_step_halves:
  "send_half s = send_half s' \<Longrightarrow> recv_half r = recv_half r' \<Longrightarrow> in_step n m s r = in_step n m s' r'"
  by (simp add: in_step_def send_half_def recv_half_def)

lemma in_sync_halves:
  "send_half s = send_half s' \<Longrightarrow> recv_half r = recv_half r' \<Longrightarrow> in_sync k s r = in_sync k s' r'"
  unfolding in_sync_def using in_step_halves by metis

lemma ahead_halves:
  "send_half s = send_half s' \<Longrightarrow> recv_half r = recv_half r' \<Longrightarrow> ahead k p w s r = ahead k p w s' r'"
  unfolding ahead_def using in_sync_halves by metis

lemma in_sync_key: "in_sync k s r \<Longrightarrow> aes_key_ok (s_SessionKey s)"
  by (auto simp: in_sync_def in_step_def)

lemma in_sync_encode:
  assumes "in_sync (Suc k) s r" "length p \<le> 65498"
  obtains w where "EncodeOutgoing p 0 s = (Inr w, advance 1 s)" "ahead k p w (advance 1 s) r" "length w < 65536"
proof
  let ?w = "out_wire 0 s 0 p"
  show "EncodeOutgoing p 0 s = (Inr ?w, advance 1 s)" using in_sync_key [OF assms(1)] by (rule EncodeOutgoing_wire)
  show "ahead k p ?w (advance 1 s) r" unfolding ahead_def using assms by blast
  show "length ?w < 65536" using in_sync_key [OF assms(1)] assms(2) by (simp add: length_out_wire)
qed

lemma send_half_decode [simp]: "send_half (snd (DecodeIncoming now w s)) = send_half s"
  by (auto simp: send_half_def DecodeIncoming_def Let_def split: sum.splits prod.splits bool.splits)

lemma ahead_decode:
  assumes "ahead k p w s r"
  obtains res r' where "DecodeIncoming now w r = (Inr res, r')" "Accepted res" "Ready res = [p]"
    "in_sync k s r'" "send_half r' = send_half r"
proof -
  obtain s0 n m where s0: "in_step n m s0 r" "m + Suc k \<le> seq_bound" "send_half s = send_half (advance 1 s0)"
    "w = out_wire 0 s0 0 p" "length p \<le> 65498"
    using assms by (auto simp: ahead_def in_sync_def)
  obtain r' where r': "DecodeIncoming now w r =
      (Inr \<lparr>Accepted = True, is_Replay = False, Ready = [p], Frame = out_frame 0 s0 0 p\<rparr>, r')"
    "in_step (Suc n) (Suc m) (advance 1 s0) r'"
    using in_step_one [OF s0(1), of p now 0] s0(2,4,5) by auto
  have "in_step (Suc n) (Suc m) s r'" using r'(2) in_step_halves [OF s0(3) refl] by simp
  moreover have "Suc m + k \<le> seq_bound" using s0(2) by simp
  ultimately have "in_sync k s r'" unfolding in_sync_def by blast
  then show thesis using that [OF r'(1)] send_half_decode [of now w r] r'(1) by simp
qed

section \<open>Uploading\<close>

text \<open>Connection \<open>r\<close> of the server is the one of the tunnel, with socket \<open>h\<close>.\<close>

definition wired :: "u32 \<Rightarrow> nat \<Rightarrow> nat \<Rightarrow> Server \<Rightarrow> bool" where
  "wired cid r h s \<longleftrightarrow> sv_conns s cid = Some r \<and> r < length (sv_heap s) \<and> cs_outbound (sv_heap s ! r) = Some h"

lemma wired_upd:
  "wired cid r h s \<Longrightarrow> wired cid r h (upd_cs r (\<lambda>cs. cs\<lparr>cs_sess := x\<rparr>) s)"
  by (simp add: wired_def)

definition names :: "request \<Rightarrow> u32 \<Rightarrow> bool" where
  "names rq cid \<longleftrightarrow> rq_header rq HeaderConnectionID = hex_EncodeToString (put32 cid)"

lemma names_conn: "names rq cid \<Longrightarrow> wired cid r h s \<Longrightarrow> connStateFromRequest rq s = Some (cid, r)"
  by (simp add: names_def wired_def connStateFromRequest_hex)

text \<open>The handler of a push that still has the bytes \<open>bs\<close> to write; \<open>k\<close> more payloads will come.\<close>

fun push_stage :: "u32 \<Rightarrow> nat \<Rightarrow> nat \<Rightarrow> nat \<Rightarrow> Session \<Rightarrow> Session \<Rightarrow> handler \<Rightarrow> bytes \<Rightarrow> bool" where
  "push_stage cid r h k cs ss (PushCall rq) bs =
     (rq_method rq = ''POST'' \<and> names rq cid \<and> (\<exists>w. rq_body rq = put_frame w \<and> \<not> rq_broken rq \<and>
        length w < 65536 \<and> ahead k bs w cs ss))"
| "push_stage cid r h k cs ss (PushDecode c q fs dl) bs =
     (c = cid \<and> q = r \<and>
        (case fs of [] \<Rightarrow> in_sync k cs ss \<and> concat dl = bs | w # ws \<Rightarrow> ws = [] \<and> dl = [] \<and> ahead k bs w cs ss))"
| "push_stage cid r h k cs ss (PushForward c q ps) bs = (c = cid \<and> q = r \<and> in_sync k cs ss \<and> concat ps = bs)"
| "push_stage cid r h k cs ss (PushWrite c q j p ps) bs =
     (c = cid \<and> q = r \<and> j = h \<and> in_sync k cs ss \<and> p @ concat ps = bs)"
| "push_stage cid r h k cs ss (Replied resp) bs = (rs_status resp = 200 \<and> in_sync k cs ss \<and> bs = [])"
| "push_stage cid r h k cs ss _ bs = False"

lemma push_stage_halves:
  assumes "send_half cs = send_half cs'" "recv_half ss = recv_half ss'"
  shows "push_stage cid r h k cs ss ht bs = push_stage cid r h k cs' ss' ht bs"
proof -
  have "in_sync k cs ss = in_sync k cs' ss'" "\<And>p w. ahead k p w cs ss = ahead k p w cs' ss'"
    using in_sync_halves [OF assms] ahead_halves [OF assms] by blast+
  then show ?thesis by (cases ht) (simp_all split: list.split)
qed

text \<open>The upload handler reads the body, then decodes its frame.\<close>

lemma push_call_step:
  assumes w: "wired cid r h s" and st: "push_stage cid r h k cs ss (PushCall rq) bs"
    and step: "handler_step env e (PushCall rq) s = Some (ht', new, s')"
  shows "\<exists>f. ht' = PushDecode cid r [f] [] \<and> s' = s \<and> new = [] \<and> ahead k bs f cs ss"
proof -
  obtain now inp where e: "e = (now, inp)" by (cases e)
  obtain f where f: "rq_method rq = ''POST''" "names rq cid" "rq_body rq = put_frame f" "\<not> rq_broken rq"
    "length f < 65536" "ahead k bs f cs ss"
    using st by auto
  have "ReadAll_limited (8 * 2 ^ 20) (rq_body rq) (rq_broken rq) = Some (put_frame f)"
    using f(3-5) by (simp add: ReadAll_limited_def put_frame_def)
  moreover have "split_frames (put_frame f) = [f]" using split_frames_put [OF f(5), of "[]"] by simp
  ultimately have "ht' = PushDecode cid r [f] [] \<and> s' = s \<and> new = []"
    using step f names_conn [OF f(2) w] by (auto simp: e push_call_def)
  then show ?thesis using f(6) by blast
qed

lemma push_decode_step:
  assumes st: "push_stage cid r h k cs (cs_sess (sv_heap s ! r)) (PushDecode c q (f # ws) dl) bs"
    and step: "handler_step env e (PushDecode c q (f # ws) dl) s = Some (ht', new, s')"
  obtains sess where "ht' = PushDecode cid r [] [bs]" "new = []"
    "s' = upd_cs r (\<lambda>cs. cs\<lparr>cs_sess := sess\<rparr>) s" "in_sync k cs sess"
    "send_half sess = send_half (cs_sess (sv_heap s ! r))"
proof -
  obtain now inp where e: "e = (now, inp)" by (cases e)
  have f: "c = cid" "q = r" "ws = []" "dl = []" "ahead k bs f cs (cs_sess (sv_heap s ! r))"
    using st by simp_all
  obtain res sess where d: "DecodeIncoming now f (cs_sess (sv_heap s ! r)) = (Inr res, sess)" "Accepted res"
    "Ready res = [bs]" "in_sync k cs sess" "send_half sess = send_half (cs_sess (sv_heap s ! r))"
    using ahead_decode [OF f(5)] by metis
  show thesis
    by (rule that [OF _ _ _ d(4,5)]) (use step f(1-4) d(1-3) in \<open>auto simp: e push_decode_def\<close>)
qed

lemma push_stage_step:
  assumes w: "wired cid r h s" and st: "push_stage cid r h k cs (cs_sess (sv_heap s ! r)) ht bs"
    and ok: "\<And>io p. env_write_ok env io h p" and step: "handler_step env e ht s = Some (ht', new, s')"
  shows "new = []" "wired cid r h s'" "sv_outbox s' = sv_outbox s"
    "send_half (cs_sess (sv_heap s' ! r)) = send_half (cs_sess (sv_heap s ! r))"
    "\<exists>bs'. push_stage cid r h k cs (cs_sess (sv_heap s' ! r)) ht' bs' \<and>
       written_to h (sv_io s') @ bs' = written_to h (sv_io s) @ bs"
proof -
  obtain now inp where e: "e = (now, inp)" by (cases e)
  have r: "r < length (sv_heap s)" "cs_outbound (sv_heap s ! r) = Some h" using w by (simp_all add: wired_def)
  have "new = [] \<and> wired cid r h s' \<and> sv_outbox s' = sv_outbox s \<and>
    send_half (cs_sess (sv_heap s' ! r)) = send_half (cs_sess (sv_heap s ! r)) \<and>
    (\<exists>bs'. push_stage cid r h k cs (cs_sess (sv_heap s' ! r)) ht' bs' \<and>
       written_to h (sv_io s') @ bs' = written_to h (sv_io s) @ bs)"
  proof (cases ht)
    case (PushCall rq)
    with st obtain f where f: "ht' = PushDecode cid r [f] []" "s' = s" "new = []"
      "ahead k bs f cs (cs_sess (sv_heap s ! r))"
      using push_call_step [OF w] step by blast
    then show ?thesis using w by auto
  next
    case (PushDecode c q fs dl)
    show ?thesis
    proof (cases fs)
      case Nil
      then show ?thesis using step st w PushDecode by (auto simp: e push_decode_def)
    next
      case (Cons f ws)
      with st PushDecode have st': "push_stage cid r h k cs (cs_sess (sv_heap s ! r)) (PushDecode c q (f # ws) dl) bs"
        and step': "handler_step env e (PushDecode c q (f # ws) dl) s = Some (ht', new, s')"
        using step by simp_all
      from push_decode_step [OF this] obtain sess where
        d: "ht' = PushDecode cid r [] [bs]" "new = []" "s' = upd_cs r (\<lambda>cs. cs\<lparr>cs_sess := sess\<rparr>) s"
        "in_sync k cs sess" "send_half sess = send_half (cs_sess (sv_heap s ! r))" .
      then show ?thesis using wired_upd [OF w] r(1) by simp
    qed
  next
    case (PushForward c q ps)
    then show ?thesis using step st w r by (cases ps) (auto simp: e push_forward_def)
  next
    case (PushWrite c q j p ps)
    then have "s' = s\<lparr>sv_io := sv_io s @ [NetWrite h p True]\<rparr>" "new = []" "ht' = PushForward cid r ps"
      using step st ok by (auto simp: e push_write_def Let_def)
    then show ?thesis using PushWrite st w by (auto simp: wired_def)
  qed (use step st in \<open>auto simp: e\<close>)
  then show "new = []" "wired cid r h s'" "sv_outbox s' = sv_outbox s"
    "send_half (cs_sess (sv_heap s' ! r)) = send_half (cs_sess (sv_heap s ! r))"
    "\<exists>bs'. push_stage cid r h k cs (cs_sess (sv_heap s' ! r)) ht' bs' \<and>
       written_to h (sv_io s') @ bs' = written_to h (sv_io s) @ bs"
    by simp_all
qed

section \<open>Polling and reading\<close>

text \<open>The handler of a poll whose response has, or will have, the frames \<open>ws\<close>.\<close>

fun pull_stage :: "u32 \<Rightarrow> bytes list \<Rightarrow> handler \<Rightarrow> bool" where
  "pull_stage cid ws (PullCall rq) = (ws = [] \<and> rq_method rq = ''GET'' \<and> names rq cid)"
| "pull_stage cid ws (PullTake c) = (ws = [] \<and> c = cid)"
| "pull_stage cid ws (Replied resp) =
     (rs_status resp = 200 \<and> \<not> rs_broken resp \<and> rs_body resp = join_frames ws)"
| "pull_stage cid ws _ = False"

text \<open>The goroutine that reads the socket, with the piece \<open>cur\<close> in hand; \<open>s1\<close> is the sender behind the
  outbox.\<close>

fun pump_stage :: "u32 \<Rightarrow> nat \<Rightarrow> nat \<Rightarrow> Session \<Rightarrow> Session \<Rightarrow> handler \<Rightarrow> bytes list \<Rightarrow> bool" where
  "pump_stage cid r h s1 ss (Pumping c q j) cur =
     (c = cid \<and> q = r \<and> j = h \<and> cur = [] \<and> send_half ss = send_half s1)"
| "pump_stage cid r h s1 ss (QueueEncode c q p k) cur =
     (c = cid \<and> q = r \<and> k = ThenPump h \<and> cur = [p] \<and> send_half ss = send_half s1)"
| "pump_stage cid r h s1 ss (QueueAppend c q w k) cur =
     (c = cid \<and> q = r \<and> k = ThenPump h \<and>
      (\<exists>p. cur = [p] \<and> w = out_wire 0 s1 0 p \<and> send_half ss = send_half (advance 1 s1)))"
| "pump_stage cid r h s1 ss _ cur = False"

lemma pump_stage_halves:
  "send_half ss = send_half ss' \<Longrightarrow> pump_stage cid r h s1 ss ht cur = pump_stage cid r h s1 ss' ht cur"
  by (cases ht) simp_all

lemma out_wire_half: "send_half a = send_half b \<Longrightarrow> out_wire fl a i p = out_wire fl b i p"
  by (simp add: send_half_def out_wire_def out_frame_def)

lemma send_half_advance: "send_half a = send_half b \<Longrightarrow> send_half (advance k a) = send_half (advance k b)"
  by (simp add: send_half_def advance_def)

lemma recv_half_advance [simp]: "recv_half (advance k s) = recv_half s"
  by (simp add: recv_half_def advance_def)

lemma wires_of_append: "wires_of (ps @ qs) s = wires_of ps s @ wires_of qs (advance (length ps) s)"
proof (induction ps arbitrary: s)
  case Nil
  then show ?case by (simp add: wires_of_def)
next
  case (Cons p ps)
  then show ?case by (simp add: wires_of_Cons advance_add)
qed

text \<open>The frames \<open>infl\<close> are in the response, \<open>pend\<close> in the outbox, \<open>cur\<close> at the pump.\<close>

definition streaming ::
  "u32 \<Rightarrow> nat \<Rightarrow> nat \<Rightarrow> Session \<Rightarrow> Session \<Rightarrow> bytes list \<Rightarrow> bytes list \<Rightarrow> bytes list \<Rightarrow> bytes list \<Rightarrow>
   bytes list \<Rightarrow> handler \<Rightarrow> bool" where
  "streaming cid r h cs ss outbox src fs out todo ht \<longleftrightarrow>
     (\<exists>n m s0 infl pend cur. in_step n m s0 cs \<and> aes_key_ok (s_SessionKey s0) \<and> fs = wires_of infl s0 \<and>
        outbox = wires_of pend (advance (length infl) s0) \<and>
        pump_stage cid r h (advance (length infl + length pend) s0) ss ht cur \<and>
        todo = out @ infl @ pend @ cur @ src \<and> m + length (infl @ pend @ cur @ src) \<le> seq_bound \<and>
        list_all (\<lambda>p. length p \<le> 65498) (infl @ pend @ cur @ src))"

lemma streaming_halves:
  assumes "recv_half cs = recv_half cs'" "send_half ss = send_half ss'"
  shows "streaming cid r h cs ss ob src fs out todo ht = streaming cid r h cs' ss' ob src fs out todo ht"
proof -
  have "in_step n m s0 cs = in_step n m s0 cs'" for n m s0 by (rule in_step_halves [OF refl assms(1)])
  moreover have "pump_stage cid r h s1 ss ht cur = pump_stage cid r h s1 ss' ht cur" for s1 cur
    by (rule pump_stage_halves [OF assms(2)])
  ultimately show ?thesis unfolding streaming_def by simp
qed

text \<open>A poll takes the outbox.\<close>

lemma streaming_take:
  assumes "streaming cid r h cs ss ob src [] [] todo ht"
  shows "streaming cid r h cs ss [] src ob [] todo ht"
proof -
  obtain n m s0 infl pend cur where st: "in_step n m s0 cs" "aes_key_ok (s_SessionKey s0)" "[] = wires_of infl s0"
    "ob = wires_of pend (advance (length infl) s0)"
    "pump_stage cid r h (advance (length infl + length pend) s0) ss ht cur"
    "todo = [] @ infl @ pend @ cur @ src" "m + length (infl @ pend @ cur @ src) \<le> seq_bound"
    "list_all (\<lambda>p. length p \<le> 65498) (infl @ pend @ cur @ src)"
    using assms unfolding streaming_def by blast
  then have "infl = []" by (simp add: wires_of_def)
  then show ?thesis
    unfolding streaming_def using st
    by (intro exI [of _ n] exI [of _ m] exI [of _ s0] exI [of _ pend] exI [of _ "[]"] exI [of _ cur])
      (simp add: wires_of_def)
qed

text \<open>The client decodes a frame of the response.\<close>

lemma streaming_decode:
  assumes "streaming cid r h cs ss ob src (f # fs) out todo ht"
  obtains res cs' p where "DecodeIncoming now f cs = (Inr res, cs')" "Accepted res" "Ready res = [p]"
    "streaming cid r h cs' ss ob src fs (out @ [p]) todo ht" "send_half cs' = send_half cs"
proof -
  obtain n m s0 infl pend cur where st: "in_step n m s0 cs" "aes_key_ok (s_SessionKey s0)"
    "f # fs = wires_of infl s0" "ob = wires_of pend (advance (length infl) s0)"
    "pump_stage cid r h (advance (length infl + length pend) s0) ss ht cur"
    "todo = out @ infl @ pend @ cur @ src" "m + length (infl @ pend @ cur @ src) \<le> seq_bound"
    "list_all (\<lambda>p. length p \<le> 65498) (infl @ pend @ cur @ src)"
    using assms unfolding streaming_def by blast
  obtain p rest where infl: "infl = p # rest" using st(3) by (cases infl) (simp_all add: wires_of_def)
  then have f: "f = out_wire 0 s0 0 p" "fs = wires_of rest (advance 1 s0)"
    using st(3) by (simp_all add: wires_of_Cons)
  obtain cs' where cs': "DecodeIncoming now f cs =
      (Inr \<lparr>Accepted = True, is_Replay = False, Ready = [p], Frame = out_frame 0 s0 0 p\<rparr>, cs')"
    "in_step (Suc n) (Suc m) (advance 1 s0) cs'"
    using in_step_one [OF st(1), of p now 0] st(7,8) infl f(1) by auto
  have "streaming cid r h cs' ss ob src fs (out @ [p]) todo ht"
    unfolding streaming_def using st cs'(2) f(2) infl
    by (intro exI [of _ "Suc n"] exI [of _ "Suc m"] exI [of _ "advance 1 s0"] exI [of _ rest] exI [of _ pend]
        exI [of _ cur]) (simp add: advance_add)
  then show thesis using that [OF cs'(1)] send_half_decode [of now f cs] cs'(1) by simp
qed

text \<open>The pump reads a piece, seals it, and queues it.\<close>

lemma streaming_read:
  assumes "streaming cid r h cs ss ob (p # src) fs out todo (Pumping cid r h)"
  shows "streaming cid r h cs ss ob src fs out todo (QueueEncode cid r p (ThenPump h))"
proof -
  obtain n m s0 infl pend where "in_step n m s0 cs" "aes_key_ok (s_SessionKey s0)" "fs = wires_of infl s0"
    "ob = wires_of pend (advance (length infl) s0)"
    "send_half ss = send_half (advance (length infl + length pend) s0)"
    "todo = out @ infl @ pend @ p # src" "m + length (infl @ pend @ p # src) \<le> seq_bound"
    "list_all (\<lambda>p. length p \<le> 65498) (infl @ pend @ p # src)"
    using assms unfolding streaming_def by auto
  then show ?thesis
    unfolding streaming_def
    by (intro exI [of _ n] exI [of _ m] exI [of _ s0] exI [of _ infl] exI [of _ pend] exI [of _ "[p]"]) simp
qed

lemma streaming_seal:
  assumes "streaming cid r h cs ss ob src fs out todo (QueueEncode cid r p (ThenPump h))"
  obtains w where "EncodeOutgoing p 0 ss = (Inr w, advance 1 ss)"
    "streaming cid r h cs (advance 1 ss) ob src fs out todo (QueueAppend cid r w (ThenPump h))"
proof -
  obtain n m s0 infl pend where st: "in_step n m s0 cs" "aes_key_ok (s_SessionKey s0)" "fs = wires_of infl s0"
    "ob = wires_of pend (advance (length infl) s0)"
    "send_half ss = send_half (advance (length infl + length pend) s0)"
    "todo = out @ infl @ pend @ [p] @ src" "m + length (infl @ pend @ [p] @ src) \<le> seq_bound"
    "list_all (\<lambda>p. length p \<le> 65498) (infl @ pend @ [p] @ src)"
    using assms unfolding streaming_def by auto
  let ?w = "out_wire 0 ss 0 p" and ?s1 = "advance (length infl + length pend) s0"
  have "aes_key_ok (s_SessionKey ss)" using st(2,5) by (simp add: send_half_def)
  then have "EncodeOutgoing p 0 ss = (Inr ?w, advance 1 ss)" by (rule EncodeOutgoing_wire)
  moreover have "pump_stage cid r h ?s1 (advance 1 ss) (QueueAppend cid r ?w (ThenPump h)) [p]"
    using send_half_advance [OF st(5)] out_wire_half [OF st(5)] by simp
  then have "streaming cid r h cs (advance 1 ss) ob src fs out todo (QueueAppend cid r ?w (ThenPump h))"
    unfolding streaming_def using st(1-4,6-8)
    by (intro exI [of _ n] exI [of _ m] exI [of _ s0] exI [of _ infl] exI [of _ pend] exI [of _ "[p]"]) simp
  ultimately show thesis by (rule that)
qed

lemma streaming_append:
  assumes "streaming cid r h cs ss ob src fs out todo (QueueAppend cid r w (ThenPump h))"
  shows "streaming cid r h cs ss (ob @ [w]) src fs out todo (Pumping cid r h)"
proof -
  obtain n m s0 infl pend p where st: "in_step n m s0 cs" "aes_key_ok (s_SessionKey s0)" "fs = wires_of infl s0"
    "ob = wires_of pend (advance (length infl) s0)" "w = out_wire 0 (advance (length infl + length pend) s0) 0 p"
    "send_half ss = send_half (advance 1 (advance (length infl + length pend) s0))"
    "todo = out @ infl @ pend @ [p] @ src" "m + length (infl @ pend @ [p] @ src) \<le> seq_bound"
    "list_all (\<lambda>p. length p \<le> 65498) (infl @ pend @ [p] @ src)"
    using assms unfolding streaming_def by auto
  have "ob @ [w] = wires_of (pend @ [p]) (advance (length infl) s0)"
    using st(4,5) by (simp add: wires_of_append wires_of_Cons advance_add) (simp add: wires_of_def)
  moreover have "send_half ss = send_half (advance (length infl + length (pend @ [p])) s0)"
    using st(6) by (simp add: advance_add)
  ultimately show ?thesis
    unfolding streaming_def using st(1-3,7-9)
    by (intro exI [of _ n] exI [of _ m] exI [of _ s0] exI [of _ infl] exI [of _ "pend @ [p]"] exI [of _ "[]"]) simp
qed

text \<open>The handlers of a poll, and the pump between two reads.\<close>

lemma pull_stage_step:
  assumes w: "wired cid r h s" and pt: "pull_stage cid ws ht"
    and st: "streaming cid r h cs ss (sv_outbox s cid) src ws [] todo gt"
    and step: "handler_step env e ht s = Some (ht', new, s')"
  shows "new = []" "sv_heap s' = sv_heap s" "wired cid r h s'" "sv_io s' = sv_io s"
    "\<exists>ws'. pull_stage cid ws' ht' \<and> streaming cid r h cs ss (sv_outbox s' cid) src ws' [] todo gt"
proof -
  obtain now inp where e: "e = (now, inp)" by (cases e)
  have "new = [] \<and> sv_heap s' = sv_heap s \<and> wired cid r h s' \<and> sv_io s' = sv_io s \<and>
    (\<exists>ws'. pull_stage cid ws' ht' \<and> streaming cid r h cs ss (sv_outbox s' cid) src ws' [] todo gt)"
  proof (cases ht)
    case (PullCall rq)
    then have "s' = s" "new = []" "ht' = PullTake cid" "ws = []"
      using step pt names_conn [OF _ w, of rq] by (simp_all add: e)
    then show ?thesis using w st by auto
  next
    case (PullTake c)
    then have eq: "s' = s\<lparr>sv_outbox := (sv_outbox s)(cid := [])\<rparr>" "new = []"
      "ht' = Replied (http_reply no_store 200 (join_frames (sv_outbox s cid)))" "ws = []"
      using step pt by (simp_all add: e)
    have "streaming cid r h cs ss (sv_outbox s' cid) src (sv_outbox s cid) [] todo gt"
      using streaming_take st eq(1,4) by simp
    then show ?thesis using w eq by (auto simp: wired_def)
  qed (use step pt in \<open>auto simp: e\<close>)
  then show "new = []" "sv_heap s' = sv_heap s" "wired cid r h s'" "sv_io s' = sv_io s"
    "\<exists>ws'. pull_stage cid ws' ht' \<and> streaming cid r h cs ss (sv_outbox s' cid) src ws' [] todo gt"
    by simp_all
qed

lemma streaming_pump:
  "streaming cid r h cs ss ob src fs out todo ht \<Longrightarrow>
   \<exists>s1 cur. pump_stage cid r h s1 ss ht cur"
  unfolding streaming_def by blast

lemma pump_stage_step:
  assumes w: "wired cid r h s" and nr: "reading ht = None"
    and st: "streaming cid r h cs (cs_sess (sv_heap s ! r)) (sv_outbox s cid) src fs out todo ht"
    and step: "handler_step env e ht s = Some (ht', new, s')"
  shows "new = []" "wired cid r h s'" "sv_io s' = sv_io s"
    "recv_half (cs_sess (sv_heap s' ! r)) = recv_half (cs_sess (sv_heap s ! r))"
    "streaming cid r h cs (cs_sess (sv_heap s' ! r)) (sv_outbox s' cid) src fs out todo ht'"
proof -
  obtain now inp where e: "e = (now, inp)" by (cases e)
  have r: "r < length (sv_heap s)" using w by (simp add: wired_def)
  obtain s1 cur where pt: "pump_stage cid r h s1 (cs_sess (sv_heap s ! r)) ht cur"
    using streaming_pump [OF st] by blast
  have "new = [] \<and> wired cid r h s' \<and> sv_io s' = sv_io s \<and>
    recv_half (cs_sess (sv_heap s' ! r)) = recv_half (cs_sess (sv_heap s ! r)) \<and>
    streaming cid r h cs (cs_sess (sv_heap s' ! r)) (sv_outbox s' cid) src fs out todo ht'"
  proof (cases ht)
    case (QueueEncode c q p k)
    then have c: "c = cid" "q = r" "k = ThenPump h" using pt by simp_all
    obtain f where f: "EncodeOutgoing p 0 (cs_sess (sv_heap s ! r)) = (Inr f, advance 1 (cs_sess (sv_heap s ! r)))"
      "streaming cid r h cs (advance 1 (cs_sess (sv_heap s ! r))) (sv_outbox s cid) src fs out todo
        (QueueAppend cid r f (ThenPump h))"
      using streaming_seal [OF st [unfolded QueueEncode c]] by blast
    have "s' = upd_cs r (\<lambda>cs. cs\<lparr>cs_sess := advance 1 (cs_sess (sv_heap s ! r))\<rparr>) s" "new = []"
      "ht' = QueueAppend cid r f (ThenPump h)"
      using step QueueEncode c f(1) by (simp_all add: e)
    then show ?thesis using wired_upd [OF w] f(2) r by simp
  next
    case (QueueAppend c q f k)
    then have c: "c = cid" "q = r" "k = ThenPump h" using pt by auto
    have "s' = s\<lparr>sv_outbox := (sv_outbox s)(cid := sv_outbox s cid @ [f])\<rparr>" "new = []" "ht' = Pumping cid r h"
      using step QueueAppend c by (simp_all add: e)
    then show ?thesis
      using streaming_append [OF st [unfolded QueueAppend c]] w by (simp add: wired_def)
  qed (use pt nr in auto)
  then show "new = []" "wired cid r h s'" "sv_io s' = sv_io s"
    "recv_half (cs_sess (sv_heap s' ! r)) = recv_half (cs_sess (sv_heap s ! r))"
    "streaming cid r h cs (cs_sess (sv_heap s' ! r)) (sv_outbox s' cid) src fs out todo ht'"
    by simp_all
qed

lemma streaming_frames:
  assumes "streaming cid r h cs ss ob src fs out todo ht"
  shows "split_frames (join_frames fs) = fs"
proof (rule split_join_frames)
  obtain s0 :: Session and infl where f: "aes_key_ok (s_SessionKey s0)" "fs = wires_of infl s0"
    "\<forall>p \<in> set infl. length p \<le> 65498"
    using assms unfolding streaming_def list_all_iff set_append by blast
  then show "\<forall>w \<in> set fs. length w < 65536" using wires_of_length [OF f(1)] by fastforce
qed

section \<open>The whole tunnel\<close>

definition uploads_ok :: "u32 \<Rightarrow> nat \<Rightarrow> nat \<Rightarrow> bytes \<Rightarrow> Session \<Rightarrow> Session \<Rightarrow> bytes \<Rightarrow> peer \<Rightarrow> bool" where
  "uploads_ok cid r h goal cs ss sofar t \<longleftrightarrow>
     (case t of
        Uploading ps \<Rightarrow> in_sync (length ps) cs ss \<and> list_all (\<lambda>p. length p \<le> 65498) ps \<and> sofar @ concat ps = goal
      | Pushing ht ps \<Rightarrow> list_all (\<lambda>p. length p \<le> 65498) ps \<and>
          (\<exists>bs. push_stage cid r h (length ps) cs ss ht bs \<and> sofar @ bs @ concat ps = goal)
      | _ \<Rightarrow> False)"

definition polls_ok ::
  "u32 \<Rightarrow> nat \<Rightarrow> nat \<Rightarrow> bytes list \<Rightarrow> Session \<Rightarrow> Session \<Rightarrow> bytes list \<Rightarrow> bytes list \<Rightarrow> bytes list \<Rightarrow>
   handler \<Rightarrow> peer \<Rightarrow> bool" where
  "polls_ok cid r h goal cs ss outbox src got gt t \<longleftrightarrow>
     (\<exists>todo. got @ todo = goal \<and>
        (case t of
           Polling \<Rightarrow> streaming cid r h cs ss outbox src [] [] todo gt
         | Pulling ht \<Rightarrow> (\<exists>ws. pull_stage cid ws ht \<and> streaming cid r h cs ss outbox src ws [] todo gt)
         | Decoding fs out \<Rightarrow> streaming cid r h cs ss outbox src fs out todo gt
         | _ \<Rightarrow> False))"

lemma uploads_ok_halves:
  assumes "send_half cs = send_half cs'" "recv_half ss = recv_half ss'"
  shows "uploads_ok cid r h goal cs ss sofar t = uploads_ok cid r h goal cs' ss' sofar t"
  unfolding uploads_ok_def push_stage_halves [OF assms] in_sync_halves [OF assms] by simp

lemma polls_ok_halves:
  assumes "recv_half cs = recv_half cs'" "send_half ss = send_half ss'"
  shows "polls_ok cid r h goal cs ss ob src got gt t = polls_ok cid r h goal cs' ss' ob src got gt t"
  unfolding polls_ok_def streaming_halves [OF assms] by simp

definition tunnel_ok ::
  "u32 \<Rightarrow> nat \<Rightarrow> nat \<Rightarrow> bytes \<Rightarrow> bytes list \<Rightarrow> duplex \<Rightarrow> peer list \<Rightarrow> bool" where
  "tunnel_ok cid r h up down x ts \<longleftrightarrow>
     (let s = dx_server x; cs = cl_Session (dx_client x); ss = cs_sess (sv_heap s ! r)
      in wired cid r h s \<and> s_ConnectionID cs = cid \<and> list_all (\<lambda>p. 0 < length p) (dx_source x h) \<and>
         (\<exists>t u gt. ts = [t, u, Serving gt] \<and> uploads_ok cid r h up cs ss (written_to h (sv_io s)) t \<and>
            polls_ok cid r h down cs ss (sv_outbox s cid) (dx_source x h) (dx_got x) gt u))"

text \<open>Requests reach the handlers named by their paths, with the connection id of the client.\<close>

lemma sent_off_push:
  "sent_off c (push_message c body) = PushCall (to_request (cl_BaseURL c) (push_message c body))"
  by (simp add: sent_off_def arrival_def to_request_def push_message_def)

lemma sent_off_pull:
  "sent_off c (pull_message c) = PullCall (to_request (cl_BaseURL c) (pull_message c))"
  by (simp add: sent_off_def arrival_def to_request_def pull_message_def)

lemma message_names:
  "names (to_request b (push_message c body)) (s_ConnectionID (cl_Session c))"
  "names (to_request b (pull_message c)) (s_ConnectionID (cl_Session c))"
  using header_names
  by (simp_all add: names_def to_request_def push_message_def pull_message_def conn_header_def
      octet_stream_def constants_agree connIDBytes_def)

lemma awaited_Some: "awaited ht = Some resp \<longleftrightarrow> ht = Replied resp"
  by (cases ht) simp_all

lemma reading_Some: "reading ht = Some (c, r, h) \<longleftrightarrow> ht = Pumping c r h"
  by (cases ht) simp_all

lemma tunnel_ok_three:
  "tunnel_ok cid r h up down x [t, u, Serving gt] \<longleftrightarrow>
     wired cid r h (dx_server x) \<and> s_ConnectionID (cl_Session (dx_client x)) = cid \<and>
     list_all (\<lambda>p. 0 < length p) (dx_source x h) \<and>
     uploads_ok cid r h up (cl_Session (dx_client x)) (cs_sess (sv_heap (dx_server x) ! r))
       (written_to h (sv_io (dx_server x))) t \<and>
     polls_ok cid r h down (cl_Session (dx_client x)) (cs_sess (sv_heap (dx_server x) ! r))
       (sv_outbox (dx_server x) cid) (dx_source x h) (dx_got x) gt u"
  by (simp add: tunnel_ok_def Let_def)

text \<open>The steps of the uploading goroutine.\<close>

lemma upload_begin:
  assumes inv: "tunnel_ok cid r h up down x [Uploading ps, u, Serving gt]"
    and step: "push_begin ps x = Some (t', new, x')"
  shows "new = [] \<and> tunnel_ok cid r h up down x' [t', u, Serving gt]"
proof -
  let ?s = "dx_server x" and ?c = "dx_client x"
  let ?cs = "cl_Session ?c" and ?ss = "cs_sess (sv_heap ?s ! r)"
  obtain p rest where ps: "ps = p # rest" using step by (cases ps) (simp_all add: push_begin_def)
  then have up: "in_sync (Suc (length rest)) ?cs ?ss" "list_all (\<lambda>p. length p \<le> 65498) rest"
    "length p \<le> 65498" "written_to h (sv_io ?s) @ p @ concat rest = up"
    using inv by (simp_all add: tunnel_ok_three uploads_ok_def)
  obtain f where f: "EncodeOutgoing p 0 ?cs = (Inr f, advance 1 ?cs)" "ahead (length rest) p f (advance 1 ?cs) ?ss"
    "length f < 65536"
    using in_sync_encode [OF up(1,3)] by blast
  let ?c1 = "?c\<lparr>cl_Session := advance 1 ?cs\<rparr>"
  let ?rq = "to_request (cl_BaseURL ?c1) (push_message ?c1 (put_frame f))"
  have st: "t' = Pushing (PushCall ?rq) rest" "new = []" "x' = x\<lparr>dx_client := ?c1\<rparr>"
    using step ps f(1) by (simp_all add: push_begin_def Let_def sent_off_push put_frame_def)
  have "push_stage cid r h (length rest) (advance 1 ?cs) ?ss (PushCall ?rq) p"
    using message_names(1) [of "cl_BaseURL ?c1" ?c1] inv f(2,3)
    by (auto simp: tunnel_ok_three to_request_def push_message_def)
  then have "uploads_ok cid r h up (advance 1 ?cs) ?ss (written_to h (sv_io ?s)) t'"
    using up(2,4) st(1) by (auto simp: uploads_ok_def)
  moreover have "polls_ok cid r h down (advance 1 ?cs) ?ss (sv_outbox ?s cid) (dx_source x h) (dx_got x) gt u"
    using inv polls_ok_halves [of ?cs "advance 1 ?cs" ?ss ?ss] by (simp add: tunnel_ok_three)
  ultimately show ?thesis using st(2,3) inv by (simp add: tunnel_ok_three)
qed

lemma upload_serve:
  assumes inv: "tunnel_ok cid r h up down x [Pushing ht ps, u, Serving gt]"
    and ok: "\<And>io p. env_write_ok env io h p"
    and step: "handler_step env e ht (dx_server x) = Some (ht', new, s')"
  shows "new = [] \<and> tunnel_ok cid r h up down (x\<lparr>dx_server := s'\<rparr>) [Pushing ht' ps, u, Serving gt]"
proof -
  let ?s = "dx_server x" and ?cs = "cl_Session (dx_client x)"
  obtain bs where bs: "push_stage cid r h (length ps) ?cs (cs_sess (sv_heap ?s ! r)) ht bs"
    "list_all (\<lambda>p. length p \<le> 65498) ps" "written_to h (sv_io ?s) @ bs @ concat ps = up" "wired cid r h ?s"
    using inv by (auto simp: tunnel_ok_three uploads_ok_def)
  note st = push_stage_step [OF bs(4,1) ok step]
  obtain bs' where bs': "push_stage cid r h (length ps) ?cs (cs_sess (sv_heap s' ! r)) ht' bs'"
    "written_to h (sv_io s') @ bs' = written_to h (sv_io ?s) @ bs"
    using st(5) by blast
  have "written_to h (sv_io s') @ bs' @ concat ps = up" using bs(3) bs'(2) by (metis append.assoc)
  then have "uploads_ok cid r h up ?cs (cs_sess (sv_heap s' ! r)) (written_to h (sv_io s')) (Pushing ht' ps)"
    using bs(2) bs'(1) by (auto simp: uploads_ok_def)
  moreover have "polls_ok cid r h down ?cs (cs_sess (sv_heap s' ! r)) (sv_outbox s' cid) (dx_source x h)
      (dx_got x) gt u"
    using inv polls_ok_halves [OF refl st(4)] st(3) by (simp add: tunnel_ok_three)
  ultimately show ?thesis using st(1,2) inv by (simp add: tunnel_ok_three)
qed

lemma upload_end:
  assumes inv: "tunnel_ok cid r h up down x [Pushing (Replied resp) ps, u, Serving gt]"
    and step: "push_end resp ps x = Some (t', new, x')"
  shows "new = [] \<and> tunnel_ok cid r h up down x' [t', u, Serving gt]"
proof -
  let ?c = "dx_client x" and ?ss = "cs_sess (sv_heap (dx_server x) ! r)"
  let ?cs = "cl_Session ?c"
  obtain cs' where cs': "x' = x\<lparr>dx_client := ?c\<lparr>cl_Session := cs'\<rparr>\<rparr>" "send_half cs' = send_half ?cs"
    "recv_half cs' = recv_half ?cs" "t' = Uploading ps" "new = []"
  proof
    let ?cs' = "if ShouldSendRedundant (s_Reconnect ?cs)
      then ?cs\<lparr>s_Reconnect := MarkRedundantSent (s_Reconnect ?cs)\<rparr> else ?cs"
    have ok: "rs_status resp = 200" using inv by (simp add: tunnel_ok_three uploads_ok_def)
    then show "x' = x\<lparr>dx_client := ?c\<lparr>cl_Session := ?cs'\<rparr>\<rparr>" "t' = Uploading ps" "new = []"
      using step by (auto simp: push_end_def Let_def split: if_splits)
    show "send_half ?cs' = send_half ?cs" "recv_half ?cs' = recv_half ?cs"
      by (simp_all add: send_half_def recv_half_def)
  qed
  have "uploads_ok cid r h up ?cs ?ss (written_to h (sv_io (dx_server x))) (Uploading ps)"
    using inv by (auto simp: tunnel_ok_three uploads_ok_def)
  then have "uploads_ok cid r h up cs' ?ss (written_to h (sv_io (dx_server x))) (Uploading ps)"
    using uploads_ok_halves [OF cs'(2) refl] by simp
  moreover have "polls_ok cid r h down cs' ?ss (sv_outbox (dx_server x) cid) (dx_source x h) (dx_got x) gt u"
    using inv polls_ok_halves [OF cs'(3) refl] by (simp add: tunnel_ok_three)
  moreover have "s_ConnectionID cs' = s_ConnectionID ?cs" using cs'(2) by (simp add: send_half_def)
  ultimately show ?thesis using cs'(1,4,5) inv by (simp add: tunnel_ok_three)
qed

text \<open>The steps of the polling goroutine.\<close>

lemma poll_begin:
  assumes inv: "tunnel_ok cid r h up down x [t, Polling, Serving gt]"
  shows "tunnel_ok cid r h up down x [t, Pulling (sent_off (dx_client x) (pull_message (dx_client x))), Serving gt]"
proof -
  let ?rq = "to_request (cl_BaseURL (dx_client x)) (pull_message (dx_client x))"
  have "pull_stage cid [] (PullCall ?rq)"
    using message_names(2) [of "cl_BaseURL (dx_client x)" "dx_client x"] inv
    by (simp add: tunnel_ok_three) (simp add: to_request_def pull_message_def)
  then show ?thesis using inv by (auto simp: tunnel_ok_three polls_ok_def sent_off_pull)
qed

lemma poll_serve:
  assumes inv: "tunnel_ok cid r h up down x [t, Pulling ht, Serving gt]"
    and step: "handler_step env e ht (dx_server x) = Some (ht', new, s')"
  shows "new = [] \<and> tunnel_ok cid r h up down (x\<lparr>dx_server := s'\<rparr>) [t, Pulling ht', Serving gt]"
proof -
  let ?s = "dx_server x" and ?cs = "cl_Session (dx_client x)"
  obtain todo ws where ws: "dx_got x @ todo = down" "pull_stage cid ws ht" "wired cid r h ?s"
    "streaming cid r h ?cs (cs_sess (sv_heap ?s ! r)) (sv_outbox ?s cid) (dx_source x h) ws [] todo gt"
    using inv by (auto simp: tunnel_ok_three polls_ok_def)
  note st = pull_stage_step [OF ws(3,2,4) step]
  then show ?thesis using inv ws(1) by (auto simp: tunnel_ok_three polls_ok_def)
qed

lemma poll_end:
  assumes inv: "tunnel_ok cid r h up down x [t, Pulling (Replied resp), Serving gt]"
    and step: "pull_end resp x = Some (u', new, x')"
  shows "new = [] \<and> tunnel_ok cid r h up down x' [t, u', Serving gt]"
proof -
  obtain todo ws where ws: "dx_got x @ todo = down" "pull_stage cid ws (Replied resp)"
    "streaming cid r h (cl_Session (dx_client x)) (cs_sess (sv_heap (dx_server x) ! r))
      (sv_outbox (dx_server x) cid) (dx_source x h) ws [] todo gt"
    using inv by (auto simp: tunnel_ok_three polls_ok_def)
  have "u' = Decoding ws []" "new = []" "x' = x"
    using step ws(2) streaming_frames [OF ws(3)] by (simp_all add: pull_end_def ReadAll_def)
  then show ?thesis using inv ws(1,3) by (auto simp: tunnel_ok_three polls_ok_def)
qed

lemma poll_decode:
  assumes inv: "tunnel_ok cid r h up down x [t, Decoding fs out, Serving gt]"
    and step: "pull_decode now fs out x = Some (u', new, x')"
  shows "new = [] \<and> tunnel_ok cid r h up down x' [t, u', Serving gt]"
proof -
  let ?s = "dx_server x" and ?c = "dx_client x"
  let ?cs = "cl_Session ?c" and ?ss = "cs_sess (sv_heap ?s ! r)"
  obtain todo where todo: "dx_got x @ todo = down"
    "streaming cid r h ?cs ?ss (sv_outbox ?s cid) (dx_source x h) fs out todo gt"
    using inv by (auto simp: tunnel_ok_three polls_ok_def)
  show ?thesis
  proof (cases fs)
    case Nil
    have "\<exists>todo'. todo = out @ todo' \<and>
        streaming cid r h ?cs ?ss (sv_outbox ?s cid) (dx_source x h) [] [] todo' gt"
      using todo(2) Nil unfolding streaming_def by fastforce
    then show ?thesis
      using step Nil inv todo(1) by (auto simp: pull_decode_def tunnel_ok_three polls_ok_def)
  next
    case (Cons f rest)
    obtain res cs' p where d: "DecodeIncoming now f ?cs = (Inr res, cs')" "Accepted res" "Ready res = [p]"
      "streaming cid r h cs' ?ss (sv_outbox ?s cid) (dx_source x h) rest (out @ [p]) todo gt"
      "send_half cs' = send_half ?cs"
      using streaming_decode [OF todo(2) [unfolded Cons]] by metis
    have st: "u' = Decoding rest (out @ [p])" "new = []" "x' = x\<lparr>dx_client := ?c\<lparr>cl_Session := cs'\<rparr>\<rparr>"
      using step Cons d(1-3) by (simp_all add: pull_decode_def)
    have "uploads_ok cid r h up cs' ?ss (written_to h (sv_io ?s)) t"
      using inv uploads_ok_halves [OF d(5) refl] by (simp add: tunnel_ok_three)
    moreover have "s_ConnectionID cs' = s_ConnectionID ?cs" using d(5) by (simp add: send_half_def)
    ultimately show ?thesis using st inv todo(1) d(4) by (auto simp: tunnel_ok_three polls_ok_def)
  qed
qed

text \<open>The steps of the goroutine that reads the socket.\<close>

lemma polls_ok_streaming:
  "polls_ok cid r h down cs ss ob src got gt u \<longleftrightarrow>
     (\<exists>todo fs out. got @ todo = down \<and> streaming cid r h cs ss ob src fs out todo gt \<and>
        (u = Polling \<and> fs = [] \<and> out = [] \<or> (\<exists>ht. u = Pulling ht \<and> pull_stage cid fs ht \<and> out = []) \<or>
         u = Decoding fs out))"
  by (cases u) (auto simp: polls_ok_def)

lemma polls_ok_pump:
  assumes "polls_ok cid r h down cs ss ob src got gt u"
    "\<And>fs out todo. streaming cid r h cs ss ob src fs out todo gt \<Longrightarrow>
      streaming cid r h cs ss' ob' src' fs out todo gt'"
  shows "polls_ok cid r h down cs ss' ob' src' got gt' u"
  using assms unfolding polls_ok_streaming by blast

lemma polls_ok_stage:
  assumes "polls_ok cid r h down cs ss ob src got gt u"
  obtains s1 cur where "pump_stage cid r h s1 ss gt cur"
  using assms streaming_pump unfolding polls_ok_streaming by blast

lemma pump_read:
  assumes inv: "tunnel_ok cid r h up down x [t, u, Serving (Pumping c q j)]"
    and step: "read_socket env now c q j x = Some (v, new, x')"
  shows "new = [] \<and> tunnel_ok cid r h up down x' [t, u, v]"
proof -
  let ?s = "dx_server x"
  obtain s1 cur where "pump_stage cid r h s1 (cs_sess (sv_heap ?s ! r)) (Pumping c q j) cur"
    using inv polls_ok_stage unfolding tunnel_ok_three by blast
  then have eq: "c = cid" "q = r" "j = h" by simp_all
  obtain p src where p: "dx_source x h = p # src"
    using step eq by (cases "dx_source x h") (simp_all add: read_socket_def)
  then have "0 < length p" using inv by (simp add: tunnel_ok_three)
  then have st: "v = Serving (QueueEncode cid r p (ThenPump h))" "new = []"
    "x' = x\<lparr>dx_source := (dx_source x)(h := src)\<rparr>"
    using step p eq by (simp_all add: read_socket_def at_server_def)
  have "polls_ok cid r h down (cl_Session (dx_client x)) (cs_sess (sv_heap ?s ! r)) (sv_outbox ?s cid) (p # src)
      (dx_got x) (Pumping cid r h) u"
    using inv p eq by (simp add: tunnel_ok_three)
  then have "polls_ok cid r h down (cl_Session (dx_client x)) (cs_sess (sv_heap ?s ! r)) (sv_outbox ?s cid) src
      (dx_got x) (QueueEncode cid r p (ThenPump h)) u"
    by (rule polls_ok_pump) (rule streaming_read)
  then show ?thesis using inv st p by (simp add: tunnel_ok_three)
qed

lemma pump_serve:
  assumes inv: "tunnel_ok cid r h up down x [t, u, Serving gt]" and nr: "reading gt = None"
    and step: "handler_step env e gt (dx_server x) = Some (gt', new, s')"
  shows "new = [] \<and> tunnel_ok cid r h up down (x\<lparr>dx_server := s'\<rparr>) [t, u, Serving gt']"
proof -
  let ?s = "dx_server x" and ?cs = "cl_Session (dx_client x)"
  have w: "wired cid r h ?s"
    "polls_ok cid r h down ?cs (cs_sess (sv_heap ?s ! r)) (sv_outbox ?s cid) (dx_source x h) (dx_got x) gt u"
    using inv by (simp_all add: tunnel_ok_three)
  obtain fs out todo where some: "streaming cid r h ?cs (cs_sess (sv_heap ?s ! r)) (sv_outbox ?s cid)
      (dx_source x h) fs out todo gt"
    using w(2) unfolding polls_ok_def by (cases u) auto
  note st = pump_stage_step(1-4) [OF w(1) nr some step]
  have "polls_ok cid r h down ?cs (cs_sess (sv_heap s' ! r)) (sv_outbox s' cid) (dx_source x h) (dx_got x) gt' u"
    by (rule polls_ok_pump [OF w(2)]) (rule pump_stage_step(5) [OF w(1) nr _ step])
  then show ?thesis
    using inv st uploads_ok_halves [OF refl st(4)] by (simp add: tunnel_ok_three)
qed

text \<open>Whatever goroutine goes on, both streams stay whole.\<close>

lemma at_server_Some:
  "at_server env e ht waiting x = Some (v, new, x') \<longleftrightarrow>
     (\<exists>ht' new' s'. handler_step env e ht (dx_server x) = Some (ht', new', s') \<and> v = waiting ht' \<and>
        new = map Serving new' \<and> x' = x\<lparr>dx_server := s'\<rparr>)"
  by (auto simp: at_server_def)

lemma upload_move:
  assumes inv: "tunnel_ok cid r h up down x [t, u, Serving gt]" and ok: "\<And>io p. env_write_ok env io h p"
    and step: "duplex_step env e t x = Some (t', new, x')"
  shows "new = [] \<and> tunnel_ok cid r h up down x' [t', u, Serving gt]"
proof (cases t)
  case (Uploading ps)
  then show ?thesis using upload_begin inv step by (simp add: duplex_step_def)
next
  case (Pushing ht ps)
  show ?thesis
  proof (cases "awaited ht")
    case None
    then obtain ht' new' s' where st: "handler_step env e ht (dx_server x) = Some (ht', new', s')"
      "t' = Pushing ht' ps" "new = map Serving new'" "x' = x\<lparr>dx_server := s'\<rparr>"
      using step Pushing by (auto simp: duplex_step_def at_server_Some)
    from upload_serve [OF inv [unfolded Pushing] ok st(1)] show ?thesis using st(2-4) by simp
  next
    case (Some resp)
    then have "ht = Replied resp" by (simp add: awaited_Some)
    then show ?thesis
      using step Pushing upload_end [of cid r h up down x resp ps u gt] inv by (simp add: duplex_step_def)
  qed
qed (use inv in \<open>simp_all add: tunnel_ok_three uploads_ok_def\<close>)

lemma poll_move:
  assumes inv: "tunnel_ok cid r h up down x [t, u, Serving gt]"
    and step: "duplex_step env e u x = Some (u', new, x')"
  shows "new = [] \<and> tunnel_ok cid r h up down x' [t, u', Serving gt]"
proof (cases u)
  case Polling
  then show ?thesis using poll_begin inv step by (auto simp: duplex_step_def)
next
  case (Pulling ht)
  show ?thesis
  proof (cases "awaited ht")
    case None
    then obtain ht' new' s' where st: "handler_step env e ht (dx_server x) = Some (ht', new', s')"
      "u' = Pulling ht'" "new = map Serving new'" "x' = x\<lparr>dx_server := s'\<rparr>"
      using step Pulling by (auto simp: duplex_step_def at_server_Some)
    from poll_serve [OF inv [unfolded Pulling] st(1)] show ?thesis using st(2-4) by simp
  next
    case (Some resp)
    then have "ht = Replied resp" by (simp add: awaited_Some)
    then show ?thesis
      using step Pulling poll_end [of cid r h up down x t resp gt] inv by (simp add: duplex_step_def)
  qed
next
  case (Decoding fs out)
  then show ?thesis using poll_decode [OF inv [unfolded Decoding]] step by (simp add: duplex_step_def)
qed (use inv in \<open>simp_all add: tunnel_ok_three polls_ok_def\<close>)

lemma pump_move:
  assumes inv: "tunnel_ok cid r h up down x [t, u, Serving gt]"
    and step: "duplex_step env e (Serving gt) x = Some (v, new, x')"
  shows "new = [] \<and> tunnel_ok cid r h up down x' [t, u, v]"
proof (cases "reading gt")
  case None
  then obtain gt' new' s' where st: "handler_step env e gt (dx_server x) = Some (gt', new', s')"
    "v = Serving gt'" "new = map Serving new'" "x' = x\<lparr>dx_server := s'\<rparr>"
    using step by (auto simp: duplex_step_def at_server_Some)
  from pump_serve [OF inv None st(1)] show ?thesis using st(2-4) by simp
next
  case (Some a)
  obtain c q j where "a = (c, q, j)" by (cases a)
  then have "gt = Pumping c q j" using Some by (simp add: reading_Some)
  then show ?thesis using step pump_read [of cid r h up down x t u c q j] inv by (simp add: duplex_step_def)
qed

lemma tunnel_move:
  assumes inv: "tunnel_ok cid r h up down x ts" and ok: "\<And>io p. env_write_ok env io h p"
    and i: "i < length ts" and step: "duplex_step env e (ts ! i) x = Some (t', new, x')"
  shows "tunnel_ok cid r h up down x' (ts[i := t'] @ new)"
proof -
  obtain t u gt where ts: "ts = [t, u, Serving gt]" using inv by (auto simp: tunnel_ok_def Let_def)
  consider "i = 0" | "i = 1" | "i = 2" using i ts by (auto simp: less_Suc_eq)
  then show ?thesis
  proof cases
    case 1
    then show ?thesis using upload_move [OF inv [unfolded ts] ok, of e t' new x'] step ts by simp
  next
    case 2
    then show ?thesis using poll_move [OF inv [unfolded ts], of env e t' new x'] step ts by simp
  next
    case 3
    then show ?thesis using pump_move [OF inv [unfolded ts], of env e t' new x'] step ts by (simp add: numeral_2_eq_2)
  qed
qed

interpretation tunnels: thread_machine "duplex_step env"
  "\<lambda>x ts. (\<forall>io p. env_write_ok env io h p) \<and> tunnel_ok cid r h up down x ts" for env cid r h up down
  by unfold_locales (blast intro: tunnel_move)

end
