(* ===== verification/TunnelFinish.thy ===== *)
theory TunnelFinish
  imports TunnelStream
begin

text \<open>
  A tunnel never gets stuck: whatever has overlapped so far, the uploading goroutine, the pump and the
  polls can be run to their ends, and then both streams have arrived whole.
\<close>

section \<open>Uploads\<close>

fun push_left :: "handler \<Rightarrow> nat" where
  "push_left (PushCall rq) = 7"
| "push_left (PushDecode c q fs dl) = (if fs = [] then 2 * length dl + 3 else 6)"
| "push_left (PushForward c q ps) = 2 * length ps + 2"
| "push_left (PushWrite c q j p ps) = 2 * length ps + 3"
| "push_left _ = 1"

definition upload_left :: "peer \<Rightarrow> nat" where
  "upload_left t = (case t of
     Uploading ps \<Rightarrow> 9 * length ps | Pushing ht ps \<Rightarrow> 9 * length ps + push_left ht | _ \<Rightarrow> 0)"

lemma push_stage_goes:
  assumes w: "wired cid r h s" and st: "push_stage cid r h k cs (cs_sess (sv_heap s ! r)) ht bs"
    and ok: "\<And>io p. env_write_ok env io h p" and aw: "awaited ht = None"
  shows "\<exists>ht' new s'. handler_step env e ht s = Some (ht', new, s') \<and> push_left ht' < push_left ht"
proof -
  obtain now inp where e: "e = (now, inp)" by (cases e)
  have r: "cs_outbound (sv_heap s ! r) = Some h" using w by (simp add: wired_def)
  show ?thesis
  proof (cases ht)
    case (PushCall rq)
    then obtain f where f: "rq_method rq = ''POST''" "names rq cid" "rq_body rq = put_frame f" "\<not> rq_broken rq"
      "length f < 65536"
      using st by auto
    have "ReadAll_limited (8 * 2 ^ 20) (rq_body rq) (rq_broken rq) = Some (put_frame f)"
      using f(3-5) by (simp add: ReadAll_limited_def put_frame_def)
    moreover have "split_frames (put_frame f) = [f]" using split_frames_put [OF f(5), of "[]"] by simp
    ultimately show ?thesis using PushCall f(1) names_conn [OF f(2) w] by (simp add: e push_call_def)
  next
    case (PushDecode c q fs dl)
    show ?thesis
    proof (cases fs)
      case Nil
      then show ?thesis using PushDecode by (simp add: e push_decode_def)
    next
      case (Cons f ws)
      then have f: "q = r" "ws = []" "dl = []" "ahead k bs f cs (cs_sess (sv_heap s ! r))"
        using st PushDecode by simp_all
      obtain res sess where "DecodeIncoming now f (cs_sess (sv_heap s ! r)) = (Inr res, sess)" "Accepted res"
        "Ready res = [bs]"
        using ahead_decode [OF f(4)] by metis
      then show ?thesis using PushDecode Cons f(1-3) by (simp add: e push_decode_def)
    qed
  next
    case (PushForward c q ps)
    then show ?thesis using st r by (cases ps) (simp_all add: e push_forward_def)
  next
    case (PushWrite c q j p ps)
    then show ?thesis using st ok by (simp add: e push_write_def Let_def)
  qed (use st aw in auto)
qed

lemma upload_progress:
  assumes inv: "tunnel_ok cid r h up down x [t, u, Serving gt]" and ok: "\<And>io p. env_write_ok env io h p"
    and t: "t \<noteq> Uploading []"
  shows "\<exists>t' x'. duplex_step env e t x = Some (t', [], x') \<and>
    tunnel_ok cid r h up down x' [t', u, Serving gt] \<and> upload_left t' < upload_left t"
proof -
  have "\<exists>t' new x'. duplex_step env e t x = Some (t', new, x') \<and> upload_left t' < upload_left t"
  proof (cases t)
    case (Uploading ps)
    then obtain p rest where ps: "ps = p # rest" using t by (cases ps) simp_all
    then have "in_sync (Suc (length rest)) (cl_Session (dx_client x)) (cs_sess (sv_heap (dx_server x) ! r))"
      "length p \<le> 65498"
      using inv Uploading by (simp_all add: tunnel_ok_three uploads_ok_def)
    then obtain f where "EncodeOutgoing p 0 (cl_Session (dx_client x)) = (Inr f, advance 1 (cl_Session (dx_client x)))"
      using in_sync_encode by blast
    then show ?thesis
      using Uploading ps by (simp add: duplex_step_def push_begin_def Let_def sent_off_push upload_left_def)
  next
    case (Pushing ht ps)
    show ?thesis
    proof (cases "awaited ht")
      case None
      obtain bs where "push_stage cid r h (length ps) (cl_Session (dx_client x))
          (cs_sess (sv_heap (dx_server x) ! r)) ht bs" "wired cid r h (dx_server x)"
        using inv Pushing by (auto simp: tunnel_ok_three uploads_ok_def)
      from push_stage_goes [OF this(2,1) ok None, of e] show ?thesis
        using Pushing None by (auto simp: duplex_step_def at_server_def upload_left_def)
    next
      case (Some resp)
      then have "ht = Replied resp" by (simp add: awaited_Some)
      then show ?thesis using Pushing inv
        by (simp add: duplex_step_def push_end_def upload_left_def tunnel_ok_three uploads_ok_def)
    qed
  qed (use inv in \<open>simp_all add: tunnel_ok_three uploads_ok_def\<close>)
  then show ?thesis using upload_move [OF inv ok] by blast
qed

section \<open>Reads\<close>

fun pump_left :: "handler \<Rightarrow> nat" where
  "pump_left (QueueEncode c q p k) = 2"
| "pump_left (QueueAppend c q w k) = 1"
| "pump_left _ = 0"

lemma pump_progress:
  assumes inv: "tunnel_ok cid r h up down x [t, u, Serving gt]"
    and busy: "\<not> (gt = Pumping cid r h \<and> dx_source x h = [])"
  shows "\<exists>gt' x'. duplex_step env e (Serving gt) x = Some (Serving gt', [], x') \<and>
    tunnel_ok cid r h up down x' [t, u, Serving gt'] \<and>
    3 * length (dx_source x' h) + pump_left gt' < 3 * length (dx_source x h) + pump_left gt"
proof -
  let ?s = "dx_server x"
  obtain fs out todo where st: "streaming cid r h (cl_Session (dx_client x)) (cs_sess (sv_heap ?s ! r))
      (sv_outbox ?s cid) (dx_source x h) fs out todo gt"
    using inv unfolding tunnel_ok_three polls_ok_streaming by blast
  obtain s1 cur where pt: "pump_stage cid r h s1 (cs_sess (sv_heap ?s ! r)) gt cur"
    using streaming_pump [OF st] by blast
  have "\<exists>gt' x'. duplex_step env e (Serving gt) x = Some (Serving gt', [], x') \<and>
    3 * length (dx_source x' h) + pump_left gt' < 3 * length (dx_source x h) + pump_left gt"
  proof (cases gt)
    case (Pumping c q j)
    then have eq: "c = cid" "q = r" "j = h" using pt by simp_all
    then obtain p src where p: "dx_source x h = p # src" using busy Pumping by (cases "dx_source x h") auto
    then have "p \<noteq> []" using inv by (simp add: tunnel_ok_three)
    then show ?thesis using Pumping eq p by (simp add: duplex_step_def read_socket_def at_server_def)
  next
    case (QueueEncode c q p k)
    then have eq: "c = cid" "q = r" "k = ThenPump h" using pt by simp_all
    obtain f where "EncodeOutgoing p 0 (cs_sess (sv_heap ?s ! r)) = (Inr f, advance 1 (cs_sess (sv_heap ?s ! r)))"
      using streaming_seal [OF st [unfolded QueueEncode eq]] by blast
    then show ?thesis
      using QueueEncode eq by (cases e) (simp add: duplex_step_def at_server_def)
  next
    case (QueueAppend c q f k)
    then have eq: "k = ThenPump h" using pt by auto
    show ?thesis using QueueAppend eq by (cases e) (simp add: duplex_step_def at_server_def)
  qed (use pt in auto)
  then show ?thesis using pump_move [OF inv] by blast
qed

section \<open>Polls\<close>

definition poll_left :: "bytes list \<Rightarrow> peer \<Rightarrow> nat" where
  "poll_left outbox u = (case u of
     Pulling ht \<Rightarrow>
       (case ht of
          Replied resp \<Rightarrow> length (split_frames (rs_body resp)) + 2
        | PullTake c \<Rightarrow> length outbox + 4
        | _ \<Rightarrow> length outbox + 5)
   | Decoding fs out \<Rightarrow> length fs + 1
   | _ \<Rightarrow> 0)"

text \<open>A poll that will still take the outbox.\<close>

fun before_take :: "peer \<Rightarrow> bool" where
  "before_take (Pulling (PullCall rq)) = True"
| "before_take (Pulling (PullTake c)) = True"
| "before_take u = False"

lemma poll_progress:
  assumes inv: "tunnel_ok cid r h up down x [t, u, Serving gt]" and u: "u \<noteq> Polling"
  shows "\<exists>u' x'. duplex_step env e u x = Some (u', [], x') \<and> tunnel_ok cid r h up down x' [t, u', Serving gt] \<and>
    dx_source x' = dx_source x \<and>
    poll_left (sv_outbox (dx_server x') cid) u' < poll_left (sv_outbox (dx_server x) cid) u \<and>
    (before_take u' \<or> sv_outbox (dx_server x') cid = (if before_take u then [] else sv_outbox (dx_server x) cid))"
proof -
  let ?s = "dx_server x"
  obtain now inp where e: "e = (now, inp)" by (cases e)
  have w: "wired cid r h ?s" using inv by (simp add: tunnel_ok_three)
  obtain fs out todo where st: "streaming cid r h (cl_Session (dx_client x)) (cs_sess (sv_heap ?s ! r))
      (sv_outbox ?s cid) (dx_source x h) fs out todo gt"
    and pt: "(\<exists>ht. u = Pulling ht \<and> pull_stage cid fs ht \<and> out = []) \<or> u = Decoding fs out"
    using inv u unfolding tunnel_ok_three polls_ok_streaming by blast
  have "\<exists>u' new x'. duplex_step env e u x = Some (u', new, x') \<and> dx_source x' = dx_source x \<and>
    poll_left (sv_outbox (dx_server x') cid) u' < poll_left (sv_outbox ?s cid) u \<and>
    (before_take u' \<or> sv_outbox (dx_server x') cid = (if before_take u then [] else sv_outbox ?s cid))"
    using pt
  proof
    assume "\<exists>ht. u = Pulling ht \<and> pull_stage cid fs ht \<and> out = []"
    then obtain ht where ht: "u = Pulling ht" "pull_stage cid fs ht" "out = []" by blast
    show ?thesis
    proof (cases ht)
      case (PullCall rq)
      then show ?thesis
        using ht names_conn [OF _ w, of rq]
        by (simp add: duplex_step_def at_server_def e poll_left_def)
    next
      case (PullTake c)
      have "split_frames (join_frames (sv_outbox ?s cid)) = sv_outbox ?s cid"
        using streaming_frames [OF streaming_take] st PullTake ht by simp
      then show ?thesis
        using ht PullTake by (simp add: duplex_step_def at_server_def e poll_left_def)
    next
      case (Replied resp)
      then show ?thesis using ht by (simp add: duplex_step_def pull_end_def ReadAll_def poll_left_def)
    qed (use ht in auto)
  next
    assume u: "u = Decoding fs out"
    then show ?thesis
      by (cases fs) (auto simp: duplex_step_def pull_decode_def poll_left_def split: prod.split)
  qed
  then show ?thesis using poll_move [OF inv] by blast
qed

section \<open>To the end\<close>

abbreviation idle_peers :: "u32 \<Rightarrow> nat \<Rightarrow> nat \<Rightarrow> peer list" where
  "idle_peers cid r h \<equiv> [Uploading [], Polling, Serving (Pumping cid r h)]"

lemma finish_uploads:
  assumes "tunnel_ok cid r h up down x [t, u, Serving gt]" "\<And>io p. env_write_ok env io h p"
  shows "\<exists>x'. (interleave (duplex_step env))\<^sup>*\<^sup>* (x, [t, u, Serving gt]) (x', [Uploading [], u, Serving gt]) \<and>
    tunnel_ok cid r h up down x' [Uploading [], u, Serving gt]"
  using run_down [of "\<lambda>x t. tunnel_ok cid r h up down x [t, u, Serving gt]" "\<lambda>x t. t = Uploading []"
      "duplex_step env" "(0, DialOk)" "\<lambda>x t. upload_left t" x "[t, u, Serving gt]" 0]
    upload_progress [OF _ assms(2)] assms(1) by fastforce

lemma finish_reads:
  assumes "tunnel_ok cid r h up down x [t, u, Serving gt]"
  shows "\<exists>x'. (interleave (duplex_step env))\<^sup>*\<^sup>* (x, [t, u, Serving gt]) (x', [t, u, Serving (Pumping cid r h)]) \<and>
    tunnel_ok cid r h up down x' [t, u, Serving (Pumping cid r h)] \<and> dx_source x' h = []"
proof -
  let ?P = "\<lambda>x v. \<exists>gt. v = Serving gt \<and> tunnel_ok cid r h up down x [t, u, v]"
  let ?Q = "\<lambda>x v. v = Serving (Pumping cid r h) \<and> dx_source x h = []"
  let ?left = "\<lambda>x v. 3 * length (dx_source x h) + (case v of Serving gt \<Rightarrow> pump_left gt | _ \<Rightarrow> 0)"
  have "\<exists>v' x'. duplex_step env (0, DialOk) v x = Some (v', [], x') \<and> ?P x' v' \<and> ?left x' v' < ?left x v"
    if "?P x v" "\<not> ?Q x v" for x v
  proof -
    from that(1) obtain gt where gt: "v = Serving gt" "tunnel_ok cid r h up down x [t, u, Serving gt]" by blast
    then show ?thesis using pump_progress [OF gt(2), of env "(0, DialOk)"] that(2) by fastforce
  qed
  from run_down [of ?P ?Q "duplex_step env" "(0, DialOk)" ?left, OF this, where x = x and
      ts = "[t, u, Serving gt]" and i = 2]
  show ?thesis using assms by (auto simp: numeral_2_eq_2)
qed

lemma finish_poll:
  assumes "tunnel_ok cid r h up down x [t, u, Serving gt]"
  shows "\<exists>x'. (interleave (duplex_step env))\<^sup>*\<^sup>* (x, [t, u, Serving gt]) (x', [t, Polling, Serving gt]) \<and>
    tunnel_ok cid r h up down x' [t, Polling, Serving gt] \<and> dx_source x' = dx_source x \<and>
    (before_take u \<longrightarrow> sv_outbox (dx_server x') cid = [])"
proof -
  let ?P = "\<lambda>y v. tunnel_ok cid r h up down y [t, v, Serving gt] \<and> dx_source y = dx_source x \<and>
    (before_take u \<longrightarrow> before_take v \<or> sv_outbox (dx_server y) cid = [])"
  let ?left = "\<lambda>y v. poll_left (sv_outbox (dx_server y) cid) v"
  have "\<exists>v' y'. duplex_step env (0, DialOk) v y = Some (v', [], y') \<and> ?P y' v' \<and> ?left y' v' < ?left y v"
    if "?P y v" "v \<noteq> Polling" for y v
    using poll_progress [of cid r h up down y t v gt env "(0, DialOk)"] that by metis
  from run_down [of ?P "\<lambda>y v. v = Polling" "duplex_step env" "(0, DialOk)" ?left, OF this,
      where x = x and ts = "[t, u, Serving gt]" and i = 1]
  show ?thesis using assms by auto
qed

lemma tunnel_finishes:
  assumes "tunnel_ok cid r h up down x ts" "\<And>io p. env_write_ok env io h p"
  shows "\<exists>x'. (interleave (duplex_step env))\<^sup>*\<^sup>* (x, ts) (x', idle_peers cid r h) \<and>
    tunnel_ok cid r h up down x' (idle_peers cid r h) \<and> dx_source x' h = [] \<and> sv_outbox (dx_server x') cid = []"
proof -
  let ?run = "(interleave (duplex_step env))\<^sup>*\<^sup>*"
  obtain t u gt where ts: "ts = [t, u, Serving gt]" using assms(1) by (auto simp: tunnel_ok_def Let_def)
  obtain x1 where x1: "?run (x, ts) (x1, [Uploading [], u, Serving gt])"
    "tunnel_ok cid r h up down x1 [Uploading [], u, Serving gt]"
    using finish_uploads [OF assms(1) [unfolded ts] assms(2)] ts by blast
  obtain x2 where x2: "?run (x1, [Uploading [], u, Serving gt]) (x2, [Uploading [], u, Serving (Pumping cid r h)])"
    "tunnel_ok cid r h up down x2 [Uploading [], u, Serving (Pumping cid r h)]" "dx_source x2 h = []"
    using finish_reads [OF x1(2)] by blast
  obtain x3 where x3: "?run (x2, [Uploading [], u, Serving (Pumping cid r h)]) (x3, idle_peers cid r h)"
    "tunnel_ok cid r h up down x3 (idle_peers cid r h)" "dx_source x3 h = []"
    using finish_poll [OF x2(2)] x2(3) by metis
  let ?u = "Pulling (sent_off (dx_client x3) (pull_message (dx_client x3)))"
  have x4: "?run (x3, idle_peers cid r h) (x3, [Uploading [], ?u, Serving (Pumping cid r h)])"
    using interleave.move [of 1 "idle_peers cid r h" "duplex_step env" "(0, DialOk)" x3 ?u "[]" x3]
    by (simp add: duplex_step_def r_into_rtranclp)
  have "tunnel_ok cid r h up down x3 [Uploading [], ?u, Serving (Pumping cid r h)]" using x3(2) by (rule poll_begin)
  from finish_poll [OF this, of env] obtain x5 where x5:
    "?run (x3, [Uploading [], ?u, Serving (Pumping cid r h)]) (x5, idle_peers cid r h)"
    "tunnel_ok cid r h up down x5 (idle_peers cid r h)" "dx_source x5 h = []" "sv_outbox (dx_server x5) cid = []"
    using x3(3) by (auto simp: sent_off_pull)
  have "?run (x, ts) (x5, idle_peers cid r h)"
    using x1(1) x2(1) x3(1) x4 x5(1) by (meson rtranclp_trans)
  then show ?thesis using x5(2-4) by blast
qed

text \<open>What the invariant says of the streams.\<close>

lemma tunnel_ok_prefix:
  assumes "tunnel_ok cid r h up down x ts"
  shows "prefix (written_to h (sv_io (dx_server x))) up" "prefix (dx_got x) down"
proof -
  obtain t u gt where ts: "ts = [t, u, Serving gt]" using assms by (auto simp: tunnel_ok_def Let_def)
  note inv = assms [unfolded ts tunnel_ok_three]
  show "prefix (written_to h (sv_io (dx_server x))) up"
    using inv by (cases t) (auto simp: uploads_ok_def)
  show "prefix (dx_got x) down" using inv unfolding polls_ok_streaming by (metis prefixI)
qed

lemma tunnel_ok_idle:
  assumes "tunnel_ok cid r h up down x (idle_peers cid r h)" "dx_source x h = []" "sv_outbox (dx_server x) cid = []"
  shows "written_to h (sv_io (dx_server x)) = up" "dx_got x = down"
  using assms by (auto simp: tunnel_ok_three uploads_ok_def polls_ok_def streaming_def wires_of_def)

lemma tunnel_ok_start:
  assumes link: "linked n m n' m' pend r c s" and h: "cs_outbound (sv_heap s ! r) = Some h"
    and len: "list_all (\<lambda>p. length p \<le> 65498) (ps @ pend @ src h)" "list_all (\<lambda>p. 0 < length p) (src h)"
    and bounds: "m + length ps \<le> seq_bound" "m' + length (pend @ src h) \<le> seq_bound"
  shows "tunnel_ok (s_ConnectionID (cl_Session c)) r h (written_to h (sv_io s) @ concat ps) (got @ pend @ src h)
    \<lparr>dx_client = c, dx_server = s, dx_source = src, dx_got = got\<rparr>
    [Uploading ps, Polling, Serving (Pumping (s_ConnectionID (cl_Session c)) r h)]"
proof -
  let ?cs = "cl_Session c" and ?ss = "cs_sess (sv_heap s ! r)"
  have st: "in_step n m ?cs ?ss" "wired (s_ConnectionID ?cs) r h s"
    using link h by (simp_all add: linked_def wired_def)
  obtain s0 where s0: "in_step n' m' s0 ?cs" "same_sender ?ss (advance (length pend) s0)"
    "sv_outbox s (s_ConnectionID ?cs) = wires_of pend s0"
    using link by (auto simp: linked_def)
  have half: "send_half ?ss = send_half (advance (length pend) s0)"
    using s0(2) by (simp add: same_sender_def send_half_def)
  have "aes_key_ok (s_SessionKey s0)" using s0(1) by (simp add: in_step_def)
  then have "streaming (s_ConnectionID ?cs) r h ?cs ?ss (sv_outbox s (s_ConnectionID ?cs)) (src h) [] [] (pend @ src h)
      (Pumping (s_ConnectionID ?cs) r h)"
    unfolding streaming_def using s0(1,3) half len(1) bounds(2)
    by (intro exI [of _ n'] exI [of _ m'] exI [of _ s0] exI [of _ "[]"] exI [of _ pend] exI [of _ "[]"])
      (simp add: wires_of_def)
  moreover have "in_sync (length ps) ?cs ?ss" using st(1) bounds(1) by (auto simp: in_sync_def)
  ultimately show ?thesis using st(2) len by (simp add: tunnel_ok_three uploads_ok_def polls_ok_def)
qed

section \<open>Properties\<close>

text \<open>C2: The tunnel as it is used, with one goroutine of the client uploading, one polling, and the
  goroutine of the server reading the target, all overlapping step by step: at any time what was
  written to the target is a prefix of what was uploaded, and what the polls returned is a prefix of
  what the target sent. No operation fails, and from every state that can be reached the run can be
  completed, and then both streams have arrived whole and in order.\<close>

theorem overlapping_tunnel_delivers:
  assumes "linked n m n' m' pend r c s" "cs_outbound (sv_heap s ! r) = Some h"
    "\<And>io p. env_write_ok env io h p"
    "list_all (\<lambda>p. length p \<le> 65498) (ps @ pend @ src h)" "list_all (\<lambda>p. 0 < length p) (src h)"
    "m + length ps \<le> seq_bound" "m' + length (pend @ src h) \<le> seq_bound"
    "(interleave (duplex_step env))\<^sup>*\<^sup>*
      (\<lparr>dx_client = c, dx_server = s, dx_source = src, dx_got = got\<rparr>,
       [Uploading ps, Polling, Serving (Pumping (s_ConnectionID (cl_Session c)) r h)]) (x, ts)"
  shows "prefix (written_to h (sv_io (dx_server x))) (written_to h (sv_io s) @ concat ps) \<and>
    prefix (dx_got x) (got @ pend @ src h) \<and>
    (\<exists>x'. (interleave (duplex_step env))\<^sup>*\<^sup>* (x, ts)
        (x', [Uploading [], Polling, Serving (Pumping (s_ConnectionID (cl_Session c)) r h)]) \<and>
      written_to h (sv_io (dx_server x')) = written_to h (sv_io s) @ concat ps \<and>
      dx_got x' = got @ pend @ src h)"
proof -
  let ?ok = "tunnel_ok (s_ConnectionID (cl_Session c)) r h (written_to h (sv_io s) @ concat ps) (got @ pend @ src h)"
  have "?ok \<lparr>dx_client = c, dx_server = s, dx_source = src, dx_got = got\<rparr>
      [Uploading ps, Polling, Serving (Pumping (s_ConnectionID (cl_Session c)) r h)]"
    using assms(1,2,4-7) by (rule tunnel_ok_start)
  then have inv: "?ok x ts" using tunnels.inv_reachable [OF assms(8)] assms(3) by blast
  obtain x' where x': "(interleave (duplex_step env))\<^sup>*\<^sup>* (x, ts) (x', idle_peers (s_ConnectionID (cl_Session c)) r h)"
    "?ok x' (idle_peers (s_ConnectionID (cl_Session c)) r h)" "dx_source x' h = []"
    "sv_outbox (dx_server x') (s_ConnectionID (cl_Session c)) = []"
    using tunnel_finishes [OF inv assms(3)] by blast
  show ?thesis
    using tunnel_ok_prefix [OF inv] x'(1) tunnel_ok_idle [OF x'(2-4)] by blast
qed

theorem overlapping_tunnel_delivers_witness:
  "let start = \<lparr>dx_client = sample_tunnel_client, dx_server = sample_tunnel_server,
      dx_source = (\<lambda>_. [])(4 := [[9], [8]]), dx_got = []\<rparr> in
    \<exists>x ts x'. schedule (duplex_step sample_env) [(1, 0, DialOk), (0, 0, DialOk), (2, 0, DialOk)]
        (start, [Uploading [[1, 2], [3]], Polling, Serving (Pumping 1 0 4)]) = (x, ts) \<and>
      (interleave (duplex_step sample_env))\<^sup>*\<^sup>* (x, ts) (x', [Uploading [], Polling, Serving (Pumping 1 0 4)]) \<and>
      written_to 4 (sv_io (dx_server x')) = [1, 2, 3] \<and> dx_got x' = [[9], [8]]"
proof -
  let ?start = "\<lparr>dx_client = sample_tunnel_client, dx_server = sample_tunnel_server,
      dx_source = (\<lambda>_. [])(4 := [[9], [8]]), dx_got = []\<rparr>"
  let ?ts = "[Uploading [[1, 2], [3]], Polling, Serving (Pumping 1 0 4)]"
  obtain x ts where run: "schedule (duplex_step sample_env) [(1, 0, DialOk), (0, 0, DialOk), (2, 0, DialOk)]
      (?start, ?ts) = (x, ts)"
    by (cases "schedule (duplex_step sample_env) [(1, 0, DialOk), (0, 0, DialOk), (2, 0, DialOk)] (?start, ?ts)")
  then have reach: "(interleave (duplex_step sample_env))\<^sup>*\<^sup>* (?start, ?ts) (x, ts)" by (metis schedule_run)
  have s: "s_ConnectionID (cl_Session sample_tunnel_client) = 1" "cs_outbound (sv_heap sample_tunnel_server ! 0) = Some 4"
    "written_to 4 (sv_io sample_tunnel_server) = []"
    using sample_tunnel_inv by (auto simp: tunnel_inv_def)
      (simp_all add: sample_tunnel_client_def sample_tunnel_server_def sample_server_def server_New_def connected_def
        CompleteHandshake_def)
  from overlapping_tunnel_delivers [OF sample_linked s(2) sample_writes, where ps = "[[1, 2], [3]]"
      and src = "(\<lambda>_. [])(4 := [[9], [8]])" and got = "[]" and x = x and ts = ts]
  show ?thesis using reach run s by (simp add: Let_def seq_bound_def)
qed

end
