(* ===== verification/Spec2Isabelle.thy ===== *)
theory Spec2Isabelle
  imports VpnEndToEnd Bridge TestMode SqliteWriter Fingerprint ClientTest SessionRun SessionBurst
    ServerSessions TunnelFinish
begin

text \<open>
  A model of the TurboFlare transport: a tunnel of TCP over HTTP requests, written in Go. A client
  does a handshake with the origin (\<open>POST /api/v1/open\<close>), uploads sealed frames
  (\<open>POST /api/v1/push\<close>) and polls for frames (\<open>GET /api/v1/pull\<close>); the first payload names a TCP
  target, which the origin dials, and after the confirmation the payloads are the two byte streams.
  A VPN tunnel and a bridge for Android, a logger and a test mode are built around it.

  Parts, and the theory that models each (paths are relative to the source root):

    \<^item> \<open>Prelude\<close>: machine integers, byte strings, \<open>encoding/binary\<close>, the result type, and the
      contracts \<open>invariant_machine\<close> and \<open>codec\<close>.
    \<^item> \<open>GoCrypto\<close>: SHA-256, HMAC, AES and GCM of the Go standard library, written out from their
      standards; the contract \<open>aead\<close>. \<open>ProtoCrypto\<close>: \<open>proto/crypto.go\<close>. \<open>ProtoFrame\<close>:
      \<open>proto/frame.go\<close>.
    \<^item> \<open>Replay\<close>, \<open>Reorder\<close>, \<open>Congestion\<close> (with \<open>Float64\<close>), \<open>Reconnect\<close>, \<open>Session\<close>: the files of
      \<open>transport/\<close> of the same name.
    \<^item> \<open>Interleave\<close>: calls that run concurrently over a shared state, and the contract
      \<open>thread_machine\<close>. \<open>SessionThreads\<close>: the methods of \<open>transport/session.go\<close> cut at their accesses to
      shared memory; \<open>SessionBurst\<close>: concurrent senders and receivers of one stream; \<open>SessionRun\<close>: runs
      of the methods in any order.
    \<^item> \<open>GoLib\<close>, \<open>GoFmt\<close>: \<open>encoding/hex\<close>, \<open>strings.TrimSpace\<close>, \<open>net.SplitHostPort\<close>, requests and
      responses of \<open>net/http\<close>, \<open>fmt\<close>, and the length-prefixed framing of the bodies.
    \<^item> \<open>Binding\<close>: \<open>server/binding.go\<close>. \<open>Server\<close>: \<open>server/server.go\<close>. \<open>Client\<close>: \<open>client/client.go\<close>.
      \<open>ServerThreads\<close>: the handlers and goroutines of \<open>server/server.go\<close> cut at their lock regions and
      socket calls; \<open>ServerSessions\<close>: what the releases of the mutexes let the calls see of each other;
      \<open>ServerAlone\<close>: their uninterrupted runs; \<open>ServerOrder\<close>: the order of the writes to a
      target.
    \<^item> \<open>EndToEnd\<close>: the client's round trips answered by the server's handlers, and the relation
      \<open>linked\<close> between the two sessions.
    \<^item> \<open>TunnelThreads\<close>: \<open>Push\<close> and \<open>Pull\<close> of \<open>client/client.go\<close> cut into their steps, which overlap with
      each other and with the steps of \<open>ServerThreads\<close>. \<open>TunnelStream\<close>: where the bytes of both streams
      are at any time; \<open>TunnelFinish\<close>: every run can be completed.
    \<^item> \<open>ClientEnv\<close>: the client in a world with a clock, \<open>time.Sleep\<close> and random numbers, and the
      contract \<open>timed\<close>. \<open>VpnTunnel\<close>, \<open>VpnDNS\<close>, \<open>VpnStart\<close>: \<open>android/vpntun/tunnel.go\<close> (flows and log
      buffer; DNS relay; start and stop). \<open>VpnEndToEnd\<close>: the VPN tunnel against the server. \<open>Bridge\<close>:
      \<open>android/gomobilebridge/bridge.go\<close>. \<open>ClientTest\<close>: \<open>cmd/turboflare-client-test/main.go\<close>.
    \<^item> \<open>Logger\<close>, \<open>SqliteWriter\<close>, \<open>TestMode\<close>: \<open>observability/logger.go\<close>,
      \<open>observability/sqlitewriter/sqlitewriter.go\<close> and \<open>observability/testmode.go\<close>, with the contract
      \<open>event_writer\<close>. \<open>Fingerprint\<close>: \<open>fingerprint/profiles.go\<close> and
      \<open>fingerprint/utlsclient/utlsclient.go\<close>.

  State. In the sequential model a method or handler is one step on the record of its struct, a
  goroutine is a value that tells its control point, and one step a round of its loop. The interleaved
  model cuts them: a call is a value of a type of control points (\<open>call\<close>, \<open>handler\<close>), a step is one
  region under a mutex, one atomic operation or one call of a socket, and \<open>interleave\<close> lets any call of
  a list go on next. \<open>uninterrupted_calls_are_methods\<close> and \<open>uninterrupted_handlers_are_atomic\<close> say that
  the sequential steps are the uninterrupted runs of the interleaved ones, and
  \<open>uninterrupted_peers_are_calls\<close> says it of \<open>Push\<close> and \<open>Pull\<close>. In \<open>ServerThreads\<close> and \<open>TunnelThreads\<close> a
  method of a session is still one step. The theorems about setting up a tunnel and about the VPN use
  the sequential model; what a tunnel in use delivers is proved for both. \<open>forwardPayload\<close> and
  \<open>handleOpen\<close> release a mutex in their middle: what the sequential model has as one step there is not
  atomic in the code, and the invariants of the server are stated of the interleaved model alone. A new
  server has no list of allowed targets, as nothing under the source root sets one;
  \<open>concurrent_sessions_invariant\<close> allows any.

  Errors are the left values of a sum. Integers keep their width (\<open>u16\<close>, \<open>u32\<close>, \<open>u64\<close>), \<open>float64\<close>
  results are exact rationals rounded to 53 bits, \<open>time.Duration\<close> wraps at 64 bits. The clock is an
  argument, read once by each operation; loops that run until a deadline read it from the world in
  every round.

  Groups of lemmas. The codecs are inverse, accept exactly their encodings and reject a changed tag;
  the replay window refines a set of counters and the reorder buffer a prefix of the stream; the two
  together give the session's delivery (\<open>session_delivers_prefix\<close>). The bounds of the controller, the
  invariants of a session and of a flow are proved for every run through \<open>invariant_machine\<close>. For
  concurrent calls \<open>thread_machine\<close> gives that counters are handed out once, that a burst is delivered
  whatever the interleaving, that the calls return, and that the server keeps one dial and one owner
  for every socket, touches no session before its handshake is complete (\<open>concurrent_sessions_invariant\<close>)
  and writes to a closed socket only what a call had picked it up for (\<open>writes_after_close\<close>). \<open>overlapping_tunnel_delivers\<close> follows both streams through one uploading and one
  polling goroutine and the reader of the target, whatever overlaps. Four theorems show the races that remain, three of
  a call that overlaps with a handshake and one of two pushes that overlap. The theorems of this theory compose client, server and sockets: what a tunnel delivers, what a reconnect
  keeps, and the cases in which a tunnel stalls for good; those of \<open>VpnEndToEnd\<close> do the same for a flow
  of the VPN tunnel and a DNS query.

  Bounds. \<open>seq_bound\<close> is \<open>2 ^ 32 - 1\<close>: the delivery theorems are about streams in which the sequence
  numbers do not come round, and \<open>counters_distinct_then_repeat\<close> says what happens after. Payloads of
  at most 65498 bytes fit the 16-bit length of a frame with its 37 bytes of overhead; a flow reads at
  most 16384 at a time. A burst of concurrent frames has at most 64, the size of the replay window:
  with more the window may drop a late frame. There is no fuel: the loops over bodies and frames are
  structural or have a measure, \<open>waitForConnected\<close> polls 50 times, and the loops on the clock (\<open>resolve_loop\<close>,
  \<open>connect_loop\<close>, \<open>response_loop\<close>) are partial functions that are proved to return under \<open>timed\<close>.

  Parameters: the scalar multiplication of X25519 (\<open>env_dh\<close>), \<open>strconv.Quote\<close>, the outcomes of dials,
  reads and writes on sockets, the HTTP client (\<open>round_trip\<close>), the random numbers, what the calls of
  gVisor's stack return, the identifiers of uTLS, \<open>encoding/json\<close> and the text of durations and errors.
  The hypothesis \<open>x25519_pair\<close> says that two parties compute the same shared secret; those of \<open>timed\<close>
  that a round trip takes time and a sleep lasts as long as asked.

  Not modelled: the logging calls of the server and of the flows, HTTP timeouts and the redirects of
  the mux, panics inside gVisor, the SQL engine behind the SQLite writer, whose statements are
  translated to operations on rows, and the Android applications in Kotlin.
\<close>

section \<open>Runs of a tunnel\<close>

lemma tunnel_run_append:
  "tunnel_run env base i t (es @ fs) = tunnel_run env base i (tunnel_run env base i t es) fs"
  by (simp add: tunnel_run_def)

lemma tunnel_then_poll:
  assumes "tunnel_inv base i h m m' pend sent got t" "\<And>io q. env_write_ok env io h q"
    "list_all event_fits es" "m + length (uploads es) \<le> seq_bound"
    "m' + length pend + length (chunks es) \<le> seq_bound"
  shows "let t' = tunnel_run env base i t (es @ [Poll now now2]) in
    tn_ok t' \<and> written_to h (sv_io (tn_server t')) = sent @ concat (uploads es) \<and>
    tn_got t' = got @ pend @ chunks es"
proof -
  obtain m2 m2' pend2 got2 where run:
    "tunnel_inv base i h m2 m2' pend2 (sent @ concat (uploads es)) got2 (tunnel_run env base i t es)"
    "got2 @ pend2 = got @ pend @ chunks es" "m2' + length pend2 = m' + length pend + length (chunks es)"
    using tunnel_run_inv [OF assms(2,1,3-5)] by blast
  have "m2' + length pend2 \<le> seq_bound" using run(3) assms(5) by simp
  from tunnel_poll [OF run(1) this, of env now now2] show ?thesis
    using run(2) by (simp add: tunnel_run_append tunnel_run_Cons tunnel_inv_def Let_def)
      (simp add: tunnel_run_def)
qed

section \<open>Properties\<close>

text \<open>C1: The whole path, from a client without a session and a server that accepts its token and its
  target: after the handshake, the CONNECT and a dial that succeeds, any interleaving of uploads,
  socket reads and polls, ended by a poll, writes to the socket exactly the uploaded bytes in order and
  gives the client the confirmation and then exactly the chunks that were read, in order.\<close>

theorem tunnel_end_to_end:
  assumes "x25519_pair (env_dh env) a (sv_StaticPriv s)"
    "cl_ServerStaticPub c = ecdh_PublicKey (env_dh env) (sv_StaticPriv s)"
    "cl_Token c \<noteq> []" "fst (TryBind now (cl_Token c) (cl_DeviceID c) (sv_Tokens s)) = BindAccepted"
    "cl_Session c = NewSession t0 d" "sv_outbox s (sv_nextConnID s) = []"
    "length target \<le> 65498" "validateTarget (string_of (TrimSpace target)) s = Inr ()"
    "\<And>io p. env_write_ok env io (sv_dialled s) p" "list_all event_fits es"
    "length (uploads es) < 2 ^ 32 - 1" "length (chunks es) < 2 ^ 32 - 1"
  shows "let t = dial_up env (cl_BaseURL c) a now target c s;
      t' = tunnel_run env (cl_BaseURL c) (length (sv_gos s)) t (es @ [Poll now2 now3]);
      h = sv_dialled s in
    tn_ok t' \<and>
    written_to h (sv_io (tn_server t')) = written_to h (sv_io s) @ concat (uploads es) \<and>
    tn_got t' = bytes_of ''OK CONNECTED'' # chunks es"
proof -
  have "1 + length (uploads es) \<le> seq_bound"
    "0 + length [bytes_of ''OK CONNECTED''] + length (chunks es) \<le> seq_bound"
    using assms(11,12) by (simp_all add: seq_bound_def)
  from tunnel_then_poll [OF dial_up_inv [OF assms(1,2) refl assms(3-8)] assms(9,10) this, of now2 now3]
  show ?thesis by (simp add: Let_def)
qed

theorem tunnel_end_to_end_witness:
  "let t = dial_up sample_env ''https://o'' (replicate 32 3) 1 (bytes_of ''h:80'') (sample_client 7) sample_origin;
      t' = tunnel_run sample_env ''https://o'' 0 t
        ([Upload 2 [1, 2], Chunk [9], Poll 3 3, Upload 4 [3], Chunk [8]] @ [Poll 5 5]) in
    tn_ok t' \<and> written_to 0 (sv_io (tn_server t')) = [1, 2, 3] \<and>
    tn_got t' = [bytes_of ''OK CONNECTED'', [9], [8]]"
proof -
  have c: "cl_BaseURL (sample_client 7) = ''https://o''" "cl_Token (sample_client 7) = ''tok''"
    "cl_ServerStaticPub (sample_client 7) = ecdh_PublicKey (env_dh sample_env) (replicate 32 5)"
    "cl_Session (sample_client 7) = NewSession 0 7" "cl_DeviceID (sample_client 7) = 7"
    by (simp_all add: sample_client_def client_New_def sample_env_def)
  have s: "sv_StaticPriv sample_origin = replicate 32 5" "sv_gos sample_origin = []"
    "sv_dialled sample_origin = 0" "sv_io sample_origin = []"
    "sv_outbox sample_origin (sv_nextConnID sample_origin) = []"
    "fst (TryBind 1 ''tok'' 7 (sv_Tokens sample_origin)) = BindAccepted"
    "validateTarget tg sample_origin = Inr ()" for tg
    by (simp_all add: sample_origin_def server_New_def TryBind_def RegisterToken_def NewTokenStore_def
        validateTarget_def)
  have pair: "x25519_pair (env_dh sample_env) (replicate 32 3) (sv_StaticPriv sample_origin)"
    using sample_pair by (simp add: s)
  show ?thesis
    using tunnel_end_to_end [OF pair, of "sample_client 7" 1 0 7 "bytes_of ''h:80''"
        "[Upload 2 [1, 2], Chunk [9], Poll 3 3, Upload 4 [3], Chunk [8]]" 5 5]
    by (simp add: c s Let_def sample_writes)
qed

text \<open>C3: A reconnect with nothing in flight keeps the tunnel: same connection id, confirmed key, the
  grace period closed, the outbound socket and its reader untouched; what is uploaded and read after
  it arrives as before, continuing both streams.\<close>

theorem reconnect_keeps_tunnel:
  assumes "tunnel_inv base i h m m' [] sent got \<lparr>tn_client = c, tn_server = s, tn_got = got, tn_ok = True\<rparr>"
    "x25519_pair (env_dh env) a (sv_StaticPriv s)"
    "cl_ServerStaticPub c = ecdh_PublicKey (env_dh env) (sv_StaticPriv s)" "cl_Token c \<noteq> []"
    "fst (TryBind now (cl_Token c) (cl_DeviceID c) (sv_Tokens s)) = BindAccepted"
    "find_conn (hello c (s_ConnectionID (cl_Session c))) s \<noteq> None"
    "\<And>io p. env_write_ok env io h p" "list_all event_fits es"
    "m + length (uploads es) < 2 ^ 32" "m' + length (chunks es) < 2 ^ 32"
  shows "case client_Reconnect (env_dh env) (serve env now base) (Some a) now2 c s of (res, c', s') \<Rightarrow>
    res = Inr () \<and> s_ConnectionID (cl_Session c') = s_ConnectionID (cl_Session c) \<and>
    Confirmed (Status now3 (s_Reconnect (cl_Session c'))) \<and>
    (let t' = tunnel_run env base i \<lparr>tn_client = c', tn_server = s', tn_got = got, tn_ok = True\<rparr>
        (es @ [Poll now4 now5]) in
     tn_ok t' \<and> written_to h (sv_io (tn_server t')) = sent @ concat (uploads es) \<and>
     tn_got t' = got @ chunks es)"
proof -
  obtain n n' r where l: "linked n m n' m' [] r c s" "cs_outbound (sv_heap s ! r) = Some h"
    "sv_gos s ! i = GPump (s_ConnectionID (cl_Session c)) r h" "i < length (sv_gos s)"
    "written_to h (sv_io s) = sent"
    using assms(1) by (auto simp: tunnel_inv_def)
  have base: "cl_BaseURL c = base" using assms(1) by (simp add: tunnel_inv_def)
  obtain tokens where bind: "TryBind now (cl_Token c) (cl_DeviceID c) (sv_Tokens s) = (BindAccepted, tokens)"
    using assms(5) by (metis prod.collapse)
  have dev: "s_ConnectionID (cl_Session c) \<noteq> 0" "s_DeviceID (cs_sess (sv_heap s ! r)) = cl_DeviceID c"
    using assms(6) l(1)
    by (auto simp: find_conn_def hello_def linked_def split: if_splits option.splits)
  obtain c' s' where re:
    "client_Reconnect (env_dh env) (serve env now base) (Some a) now2 c s = (Inr (), c', s')"
    "linked 0 m 0 m' [] r c' s'" "cl_BaseURL c' = base"
    "s_ConnectionID (cl_Session c') = s_ConnectionID (cl_Session c)"
    "keyConfirmed (s_Reconnect (cl_Session c'))"
    "\<And>q. cs_outbound (sv_heap s' ! q) = cs_outbound (sv_heap s ! q)"
    "sv_gos s' = sv_gos s" "sv_io s' = sv_io s"
    using linked_reconnect [OF assms(2,3) base assms(4) bind l(1) dev(2,1), of now2] by metis
  let ?t = "\<lparr>tn_client = c', tn_server = s', tn_got = got, tn_ok = True\<rparr>"
  have "tunnel_inv base i h m m' [] sent got ?t"
    unfolding tunnel_inv_def using re l by auto
  moreover have "m + length (uploads es) \<le> seq_bound" "m' + length [] + length (chunks es) \<le> seq_bound"
    using assms(9,10) by (simp_all add: seq_bound_def)
  ultimately have "let t' = tunnel_run env base i ?t (es @ [Poll now4 now5]) in
    tn_ok t' \<and> written_to h (sv_io (tn_server t')) = sent @ concat (uploads es) \<and>
    tn_got t' = got @ [] @ chunks es"
    using assms(7,8) by (intro tunnel_then_poll)
  then show ?thesis using re(1,4,5) by (simp add: Status_def)
qed

theorem reconnect_keeps_tunnel_witness:
  "case client_Reconnect (env_dh sample_env) (serve sample_env 1 ''https://o'') (Some (replicate 32 3)) 1
      sample_tunnel_client sample_tunnel_server of (res, c', s') \<Rightarrow>
    res = Inr () \<and> s_ConnectionID (cl_Session c') = 1 \<and>
    Confirmed (Status 2 (s_Reconnect (cl_Session c'))) \<and>
    (let t' = tunnel_run sample_env ''https://o'' 0
        \<lparr>tn_client = c', tn_server = s', tn_got = [], tn_ok = True\<rparr>
        ([Upload 3 [1], Chunk [2]] @ [Poll 4 4]) in
     tn_ok t' \<and> written_to 4 (sv_io (tn_server t')) = [1] \<and> tn_got t' = [[2]])"
proof -
  have c: "cl_Token sample_tunnel_client = ''tok''" "cl_DeviceID sample_tunnel_client = 7"
    "cl_ServerStaticPub sample_tunnel_client = ecdh_PublicKey (env_dh sample_env) (replicate 32 5)"
    "s_ConnectionID (cl_Session sample_tunnel_client) = 1"
    by (simp_all add: sample_tunnel_client_def sample_client_def client_New_def sample_env_def)
  have s: "sv_StaticPriv sample_tunnel_server = replicate 32 5"
    "fst (TryBind 1 ''tok'' 7 (sv_Tokens sample_tunnel_server)) = BindAccepted"
    by (simp_all add: sample_tunnel_server_def TryBind_def RegisterToken_def NewTokenStore_def)
  have f: "find_conn (hello sample_tunnel_client 1) sample_tunnel_server \<noteq> None"
    by (simp add: find_conn_def hello_def c sample_tunnel_server_def sample_server_def connected_def
        CompleteHandshake_def NewSession_def)
  have pair: "x25519_pair (env_dh sample_env) (replicate 32 3) (sv_StaticPriv sample_tunnel_server)"
    using sample_pair by (simp add: s)
  show ?thesis
    using reconnect_keeps_tunnel [OF sample_tunnel_inv pair, where now = 1
        and es = "[Upload 3 [1], Chunk [2]]" and ?now2.0 = 1 and ?now3.0 = 2 and ?now4.0 = 4 and ?now5.0 = 4] f
    by (simp add: c s sample_writes)
qed

text \<open>C34: One push whose request is lost ends the upload direction for good: every later push is
  answered with success, yet nothing reaches the socket, no goroutine starts and nothing comes back.\<close>

theorem lost_push_stalls_tunnel:
  assumes "linked n m n' m' pend r c s" "cl_BaseURL c = base" "m + 1 + length ps < 2 ^ 32"
    "list_all (\<lambda>p. length p \<le> 65498) ps"
  shows "case Push (\<lambda>rq w. (Inl Unreachable, w)) p c s of (res, c1, s1) \<Rightarrow>
    res = Inl (ErrRequest Unreachable) \<and> s1 = s \<and>
    (case push_all (serve env now base) ps c1 s of (rs, c2, s2) \<Rightarrow>
       rs = replicate (length ps) (Inr ()) \<and> sv_io s2 = sv_io s \<and> sv_gos s2 = sv_gos s \<and>
       sv_outbox s2 = sv_outbox s)"
proof -
  let ?f = "\<lambda>j. ps ! (j - (m + 1))"
  have nm: "n \<le> m" "m < seq_bound"
    using assms(1,3) by (auto simp: linked_def in_step_def seq_bound_def)
  obtain c1 where one: "Push (\<lambda>rq w. (Inl Unreachable, w)) p c s = (Inl (ErrRequest Unreachable), c1, s)"
    "stalled ?f {..<m - n} (m - n) {..<n} (Suc n) r c1 s" "cl_BaseURL c1 = cl_BaseURL c"
    using failed_push_stalled [OF assms(1) _ nm(2), where rt = "\<lambda>rq w. (Inl Unreachable, w)"
        and w = s and ?w1.0 = s and p = p and f = ?f] by blast
  have "case push_all (serve env now base) ps c1 s of (rs, c2, s2) \<Rightarrow>
      rs = replicate (length ps) (Inr ()) \<and> sv_io s2 = sv_io s \<and> sv_gos s2 = sv_gos s \<and>
      sv_outbox s2 = sv_outbox s"
    using nm assms(2-4) one(3)
    by (intro stalled_push_all [OF one(2)]) (simp_all add: seq_bound_def)
  then show ?thesis using one(1) by simp
qed

theorem lost_push_stalls_tunnel_witness:
  "case Push (\<lambda>rq w. (Inl Unreachable, w)) [7] sample_tunnel_client sample_tunnel_server of (res, c1, s1) \<Rightarrow>
    res = Inl (ErrRequest Unreachable) \<and>
    (case push_all (serve sample_env 1 ''https://o'') [[1], [2]] c1 sample_tunnel_server of (rs, c2, s2) \<Rightarrow>
       rs = [Inr (), Inr ()] \<and> sv_io s2 = sv_io sample_tunnel_server)"
  using lost_push_stalls_tunnel [OF sample_linked, where base = "''https://o''"
      and ps = "[[1], [2]]" and p = "[7]" and env = sample_env and now = 1]
  by (simp add: sample_tunnel_client_def sample_client_def client_New_def split: prod.splits)

text \<open>C35: A reconnect to a server that lost the session succeeds with a new connection id and without
  a confirmation, and the session it gives is dead: the server expects the stream from its start, so
  that every later push is answered with success and delivers nothing.\<close>

theorem reconnect_after_restart_stalls:
  assumes "x25519_pair (env_dh env) a (sv_StaticPriv s)"
    "cl_ServerStaticPub c = ecdh_PublicKey (env_dh env) (sv_StaticPriv s)" "cl_Token c \<noteq> []"
    "fst (TryBind now (cl_Token c) (cl_DeviceID c) (sv_Tokens s)) = BindAccepted"
    "s_ConnectionID (cl_Session c) \<noteq> 0" "sv_conns s (s_ConnectionID (cl_Session c)) = None"
    "s_sendSequence (cl_Session c) = word_of_nat m" "0 < m" "m + length ps < 2 ^ 32"
    "list_all (\<lambda>p. length p \<le> 65498) ps"
  shows "case client_Reconnect (env_dh env) (serve env now (cl_BaseURL c)) (Some a) now2 c s of
      (res, c1, s1) \<Rightarrow>
    res = Inr () \<and> s_ConnectionID (cl_Session c1) = sv_nextConnID s \<and>
    \<not> Confirmed (Status now3 (s_Reconnect (cl_Session c1))) \<and>
    (case push_all (serve env now4 (cl_BaseURL c)) ps c1 s1 of (rs, c2, s2) \<Rightarrow>
       rs = replicate (length ps) (Inr ()) \<and> sv_io s2 = sv_io s \<and> sv_gos s2 = sv_gos s \<and>
       sv_outbox s2 = sv_outbox s)"
proof -
  let ?f = "\<lambda>j. ps ! (j - m)"
  obtain tokens where bind: "TryBind now (cl_Token c) (cl_DeviceID c) (sv_Tokens s) = (BindAccepted, tokens)"
    using assms(4) by (metis prod.collapse)
  obtain c1 s1 where re:
    "client_Reconnect (env_dh env) (serve env now (cl_BaseURL c)) (Some a) now2 c s = (Inr (), c1, s1)"
    "stalled ?f {} m {} 0 (length (sv_heap s)) c1 s1" "cl_BaseURL c1 = cl_BaseURL c"
    "\<not> keyConfirmed (s_Reconnect (cl_Session c1))" "s_ConnectionID (cl_Session c1) = sv_nextConnID s"
    "sv_io s1 = sv_io s" "sv_gos s1 = sv_gos s" "sv_outbox s1 = sv_outbox s"
    using restarted_server_stalled [OF assms(1,2) refl assms(3) bind assms(5-8), of now2 ?f] by metis
  have "case push_all (serve env now4 (cl_BaseURL c)) ps c1 s1 of (rs, c2, s2) \<Rightarrow>
      rs = replicate (length ps) (Inr ()) \<and> sv_io s2 = sv_io s1 \<and> sv_gos s2 = sv_gos s1 \<and>
      sv_outbox s2 = sv_outbox s1"
    using assms(9,10) re(3) by (intro stalled_push_all [OF re(2)]) (simp_all add: seq_bound_def)
  then show ?thesis
    using re by (simp add: Status_def Let_def split: prod.splits)
qed

theorem reconnect_after_restart_stalls_witness:
  "case client_Reconnect (env_dh sample_env) (serve sample_env 1 ''https://o'') (Some (replicate 32 3)) 1
      (sample_tunnel_client\<lparr>cl_Session := advance 2 (connected 0 7 9 (replicate 32 5))\<rparr>) sample_origin of
      (res, c1, s1) \<Rightarrow>
    res = Inr () \<and> s_ConnectionID (cl_Session c1) = 1 \<and>
    (case push_all (serve sample_env 2 ''https://o'') [[1], [2]] c1 s1 of (rs, c2, s2) \<Rightarrow>
       rs = [Inr (), Inr ()] \<and> sv_io s2 = [] \<and> sv_gos s2 = [])"
proof -
  let ?c = "sample_tunnel_client\<lparr>cl_Session := advance 2 (connected 0 7 9 (replicate 32 5))\<rparr>"
  have c: "cl_Token ?c = ''tok''" "cl_DeviceID ?c = 7" "cl_BaseURL ?c = ''https://o''"
    "cl_ServerStaticPub ?c = ecdh_PublicKey (env_dh sample_env) (sv_StaticPriv sample_origin)"
    "s_ConnectionID (cl_Session ?c) = 9" "s_sendSequence (cl_Session ?c) = word_of_nat 2"
    by (simp_all add: sample_tunnel_client_def sample_client_def client_New_def sample_env_def
        sample_origin_def server_New_def advance_def)
  have s: "fst (TryBind 1 ''tok'' 7 (sv_Tokens sample_origin)) = BindAccepted"
    "sv_conns sample_origin 9 = None" "sv_nextConnID sample_origin = 1" "sv_io sample_origin = []"
    "sv_gos sample_origin = []"
    by (simp_all add: sample_origin_def server_New_def TryBind_def RegisterToken_def NewTokenStore_def)
  have pair: "x25519_pair (env_dh sample_env) (replicate 32 3) (sv_StaticPriv sample_origin)"
    using sample_pair by (simp add: sample_origin_def server_New_def)
  have "list_all (\<lambda>p. length p \<le> 65498) [[1 :: byte], [2]]" "2 + length [[1 :: byte], [2]] < 2 ^ 32"
    "(0 :: nat) < 2" by simp_all
  from reconnect_after_restart_stalls [OF pair c(4) _ _ _ _ c(6) this(3,2,1), where now = 1 and ?now2.0 = 1 and ?now3.0 = 3 and ?now4.0 = 2]
  show ?thesis by (simp add: c s split: prod.splits)
qed

text \<open>While a token is bound to another device that is still within its inactivity period, a
  device with that token is refused: \<open>Open\<close> reports status 404, the client and the whole server
  stay as they were.\<close>

theorem second_device_refused:
  assumes "x25519_pair (env_dh env) a (sv_StaticPriv s)"
    "cl_ServerStaticPub c = ecdh_PublicKey (env_dh env) (sv_StaticPriv s)"
    "owner (sv_Tokens s) (cl_Token c) = Some (d, seen)" "d \<noteq> cl_DeviceID c"
    "now - seen \<le> InactivityTTL (sv_Tokens s)"
  shows "client_Open (env_dh env) (serve env now (cl_BaseURL c)) (Some a) now2 c s =
    (Inl (ErrRejected 404), c, s)"
proof -
  obtain wire key where hs:
    "EncodeHandshake (env_dh env) a (cl_ServerStaticPub c) 0 (hello c 0) HKDFInfo = Inr (wire, key)"
    "length wire = 69"
    "DecodeHandshake (env_dh env) wire (sv_StaticPriv s) HKDFInfo =
      Inr (hello c 0, key, ecdh_PublicKey (env_dh env) a)"
    using handshake_agrees [OF assms(1), of 0 "hello c 0" HKDFInfo] assms(2) by metis
  have "TryBind now (cl_Token c) (cl_DeviceID c) (sv_Tokens s) = (BindRejected, sv_Tokens s)"
    using assms(3-5)
    by (cases rule: TryBind_cases [of "sv_Tokens s" "cl_Token c" now "cl_DeviceID c"])
      (auto simp: may_bind_def issued_def owner_def split: option.splits)
  then have "handleOpen env now \<lparr>rq_method = ''POST'', rq_path = ''/api/v1/open'',
      rq_header = octet_stream (no_header(HeaderProvisionToken := cl_Token c)), rq_body = wire,
      rq_broken = False\<rparr> s = (http_NotFound no_store, s)"
    using hs(2,3) header_names
    by (simp add: handleOpen_def Let_def ReadAll_limited_def HandshakeWireSize_69 octet_stream_def
        hello_def)
  then show ?thesis
    using hs(1)
    by (simp add: client_Open_def doHandshake_def GenerateEphemeralKeypair_def Let_def
        constants_agree path_defs hello_def)
qed

theorem second_device_refused_witness:
  "let s = sample_origin\<lparr>sv_Tokens := snd (TryBind 0 ''tok'' 1 (sv_Tokens sample_origin))\<rparr> in
    client_Open (env_dh sample_env) (serve sample_env hour ''https://o'') (Some (replicate 32 3)) 0
      (sample_client 2) s = (Inl (ErrRejected 404), sample_client 2, s)"
proof -
  let ?s = "sample_origin\<lparr>sv_Tokens := snd (TryBind 0 ''tok'' 1 (sv_Tokens sample_origin))\<rparr>"
  have c: "cl_BaseURL (sample_client 2) = ''https://o''"
    "cl_ServerStaticPub (sample_client 2) = ecdh_PublicKey (env_dh sample_env) (sv_StaticPriv ?s)"
    "owner (sv_Tokens ?s) (cl_Token (sample_client 2)) = Some (1, 0)" "1 \<noteq> cl_DeviceID (sample_client 2)"
    "hour - 0 \<le> InactivityTTL (sv_Tokens ?s)"
    by (simp_all add: sample_client_def client_New_def sample_env_def sample_origin_def server_New_def
        TryBind_def RegisterToken_def NewTokenStore_def owner_def DefaultInactivityTTL_def)
  have "x25519_pair (env_dh sample_env) (replicate 32 3) (sv_StaticPriv ?s)"
    using sample_pair by (simp add: sample_origin_def server_New_def)
  from second_device_refused [OF this c(2-5), of 0] show ?thesis by (simp add: c(1) Let_def)
qed

end
